(* ===== verification/Prelude.thy ===== *)
theory Prelude
  imports Main "HOL-Library.Word" "HOL-Library.Product_Lexorder"
    "HOL-Library.List_Lexorder" "HOL-Library.Char_ord"
begin

text \<open>
  Shared vocabulary of the development: machine integers, byte slices, the ordered maps and sets
  of the standard library, and the method type in which a Rust function that takes
  \<^verbatim>\<open>&mut self\<close> and returns a \<^verbatim>\<open>Result\<close> is written.

  \<^item> \<^verbatim>\<open>u64\<close> and \<^verbatim>\<open>usize\<close> are \<^typ>\<open>nat\<close> with the bound \<open>2 ^ 64\<close> written out where the code
    checks it (\<^verbatim>\<open>checked_add\<close>), saturates or wraps (\<^verbatim>\<open>fetch_add\<close>, \<^verbatim>\<open>+= 1\<close>); the supported hosts
    are 64-bit, so \<^verbatim>\<open>usize::try_from\<close> of a \<^verbatim>\<open>u64\<close> never fails.
  \<^item> a \<^verbatim>\<open>BTreeMap\<close> is an association list kept in key order, read by \<^const>\<open>map_of\<close>; a
    \<^verbatim>\<open>BTreeSet\<close> that the code iterates over is a sorted list without repetitions.
  \<^item> a method is a function from the state to a result and the state after the call. The state
    survives an error, as mutations made before a \<^verbatim>\<open>?\<close> do.
\<close>

named_theorems bmap_simps \<open>lookup in the ordered maps after each map operation\<close>
named_theorems meth_simps \<open>unfolding of the method combinators\<close>
named_theorems keeps_intros \<open>introduction rules for state predicates that methods keep\<close>

section \<open>Machine integers\<close>

type_synonym byte = "8 word"
type_synonym bytes = "byte list"

definition u64_bound :: nat where
  "u64_bound = 18446744073709551616"

definition checked_add :: "nat \<Rightarrow> nat \<Rightarrow> nat option" where
  "checked_add a b = (if a + b < u64_bound then Some (a + b) else None)"

definition checked_mul :: "nat \<Rightarrow> nat \<Rightarrow> nat option" where
  "checked_mul a b = (if a * b < u64_bound then Some (a * b) else None)"

definition checked_sub :: "nat \<Rightarrow> nat \<Rightarrow> nat option" where
  "checked_sub a b = (if b \<le> a then Some (a - b) else None)"

definition saturating_succ :: "nat \<Rightarrow> nat" where
  "saturating_succ a = (if a + 1 < u64_bound then a + 1 else u64_bound - 1)"

definition u64_succ :: "nat \<Rightarrow> nat" where
  "u64_succ a = (a + 1) mod u64_bound"

lemma u64_bound_pow: "u64_bound = 2 ^ 64"
  by (simp add: u64_bound_def)

lemma u64_bound_pos [simp]: "0 < u64_bound"
  by (simp add: u64_bound_def)

lemma u64_succ_small: "a + 1 < u64_bound \<Longrightarrow> u64_succ a = a + 1"
  by (simp add: u64_succ_def)

lemma u64_succ_less: "u64_succ a < u64_bound"
  by (simp add: u64_succ_def)

lemma checked_add_Some_iff [simp]:
  "checked_add a b = Some c \<longleftrightarrow> c = a + b \<and> a + b < u64_bound"
  by (auto simp: checked_add_def)

lemma checked_add_None_iff [simp]: "checked_add a b = None \<longleftrightarrow> u64_bound \<le> a + b"
  by (auto simp: checked_add_def)

lemma checked_mul_Some_iff [simp]:
  "checked_mul a b = Some c \<longleftrightarrow> c = a * b \<and> a * b < u64_bound"
  by (auto simp: checked_mul_def)

lemma checked_mul_None_iff [simp]: "checked_mul a b = None \<longleftrightarrow> u64_bound \<le> a * b"
  by (auto simp: checked_mul_def)

lemma checked_sub_Some_iff [simp]: "checked_sub a b = Some c \<longleftrightarrow> b \<le> a \<and> c = a - b"
  by (auto simp: checked_sub_def)

lemma checked_sub_None_iff [simp]: "checked_sub a b = None \<longleftrightarrow> a < b"
  by (auto simp: checked_sub_def)

abbreviation (input) PAGE_SIZE :: nat where
  "PAGE_SIZE \<equiv> 4096"

abbreviation (input) BLOCK_SIZE :: nat where
  "BLOCK_SIZE \<equiv> 4096"

section \<open>Byte slices\<close>

text \<open>\<open>dst[off .. off + src.len()].copy_from_slice(src)\<close>, for ranges inside \<open>dst\<close>.\<close>

definition copy_into :: "'a list \<Rightarrow> nat \<Rightarrow> 'a list \<Rightarrow> 'a list" where
  "copy_into dst off src = take off dst @ src @ drop (off + length src) dst"

text \<open>\<open>src[off .. off + len]\<close>.\<close>

definition bslice :: "nat \<Rightarrow> nat \<Rightarrow> 'a list \<Rightarrow> 'a list" where
  "bslice off len src = take len (drop off src)"

lemma length_copy_into [simp]:
  "off + length src \<le> length dst \<Longrightarrow> length (copy_into dst off src) = length dst"
  by (simp add: copy_into_def)

lemma nth_copy_into:
  assumes "off + length src \<le> length dst" "i < length dst"
  shows "copy_into dst off src ! i =
    (if off \<le> i \<and> i < off + length src then src ! (i - off) else dst ! i)"
  using assms by (auto simp: copy_into_def nth_append min_def)

lemma copy_into_Nil [simp]: "copy_into dst off [] = dst"
  by (simp add: copy_into_def)

lemma copy_into_all: "length src = length dst \<Longrightarrow> copy_into dst 0 src = src"
  by (simp add: copy_into_def)

lemma copy_into_append:
  assumes "off + length xs + length ys \<le> length dst"
  shows "copy_into (copy_into dst off xs) (off + length xs) ys = copy_into dst off (xs @ ys)"
  using assms by (simp add: copy_into_def ac_simps)

lemma length_bslice [simp]: "off + len \<le> length src \<Longrightarrow> length (bslice off len src) = len"
  by (simp add: bslice_def)

lemma nth_bslice: "i < len \<Longrightarrow> off + len \<le> length src \<Longrightarrow> bslice off len src ! i = src ! (off + i)"
  by (simp add: bslice_def)

lemma bslice_zero [simp]: "bslice off 0 src = []"
  by (simp add: bslice_def)

lemma bslice_all [simp]: "bslice 0 (length src) src = src"
  by (simp add: bslice_def)

lemma bslice_append:
  "bslice off n src @ bslice (off + n) m src = bslice off (n + m) src"
  by (simp add: bslice_def take_add add.commute [of n off])

lemma bslice_copy_into_same:
  "off + length src \<le> length dst \<Longrightarrow> bslice off (length src) (copy_into dst off src) = src"
  by (simp add: bslice_def copy_into_def)

section \<open>Walking a byte range page by page\<close>

text \<open>The number of bytes of the range up to \<open>stop\<close> that lie in the page of \<open>cursor\<close>.\<close>

abbreviation (input) page_chunk :: "nat \<Rightarrow> nat \<Rightarrow> nat" where
  "page_chunk cursor stop \<equiv> min (PAGE_SIZE - cursor mod PAGE_SIZE) (stop - cursor)"

text \<open>The number of pages that a range touches.\<close>

definition pages_spanned :: "nat \<Rightarrow> nat \<Rightarrow> nat" where
  "pages_spanned start stop =
    (if start < stop then (stop - 1) div PAGE_SIZE - start div PAGE_SIZE + 1 else 0)"

lemma page_split:
  obtains p r where "cursor = PAGE_SIZE * p + r" "r < PAGE_SIZE" "cursor div PAGE_SIZE = p" "cursor mod PAGE_SIZE = r"
proof
  show "cursor = PAGE_SIZE * (cursor div PAGE_SIZE) + cursor mod PAGE_SIZE" by (rule mult_div_mod_eq [symmetric])
qed (rule mod_less_divisor, simp_all)

lemma page_chunk_bounds:
  assumes "cursor < stop"
  shows "0 < page_chunk cursor stop" "cursor + page_chunk cursor stop \<le> stop"
    "cursor mod PAGE_SIZE + page_chunk cursor stop \<le> PAGE_SIZE"
proof -
  obtain p r where c: "r < PAGE_SIZE" "cursor mod PAGE_SIZE = r" by (rule page_split)
  show "0 < page_chunk cursor stop" "cursor + page_chunk cursor stop \<le> stop"
    "cursor mod PAGE_SIZE + page_chunk cursor stop \<le> PAGE_SIZE"
    using assms c(1) unfolding c(2) by simp_all
qed

lemma page_chunk_measure:
  "cursor < stop \<Longrightarrow> stop - (cursor + page_chunk cursor stop) < stop - cursor"
  using page_chunk_bounds(1,2) [of cursor stop] by (intro diff_less_mono2) simp_all

lemma page_chunk_page:
  assumes "cursor \<le> i" "i < cursor + page_chunk cursor stop"
  shows "i div PAGE_SIZE = cursor div PAGE_SIZE" "i mod PAGE_SIZE = cursor mod PAGE_SIZE + (i - cursor)"
proof -
  obtain p r where c: "cursor = PAGE_SIZE * p + r" "r < PAGE_SIZE" "cursor div PAGE_SIZE = p"
    "cursor mod PAGE_SIZE = r" by (rule page_split)
  have lo: "PAGE_SIZE * p \<le> i" and hi: "i < PAGE_SIZE * Suc p"
    using assms c(1,2) unfolding c(4) by simp_all
  then have d: "i div PAGE_SIZE = p" by (rule div_nat_eqI)
  then show "i div PAGE_SIZE = cursor div PAGE_SIZE" by (simp only: c(3))
  have "i = PAGE_SIZE * p + i mod PAGE_SIZE" using mult_div_mod_eq [of PAGE_SIZE i] d by simp
  then show "i mod PAGE_SIZE = cursor mod PAGE_SIZE + (i - cursor)" 
    using assms(1) unfolding c(4) by (subst (asm) c(1), subst c(1)) linarith
qed

lemma page_chunk_in_page:
  assumes "i div PAGE_SIZE = cursor div PAGE_SIZE" "cursor \<le> i" "i < stop"
  shows "i < cursor + page_chunk cursor stop"
proof -
  obtain p r where c: "cursor = PAGE_SIZE * p + r" "r < PAGE_SIZE" "cursor div PAGE_SIZE = p"
    "cursor mod PAGE_SIZE = r" by (rule page_split)
  have "i < PAGE_SIZE * Suc p"
    using assms(1) unfolding c(3) by (metis dividend_less_times_div zero_less_numeral mult_Suc_right)
  then have "i < cursor + (PAGE_SIZE - r)" using c(1,2) by simp
  then show ?thesis unfolding c(4) using assms(2,3) by simp
qed

lemma page_mod_offset:
  assumes "i div PAGE_SIZE = j div PAGE_SIZE"
  shows "j \<le> i \<longleftrightarrow> j mod PAGE_SIZE \<le> i mod PAGE_SIZE"
    "i < j + n \<longleftrightarrow> i mod PAGE_SIZE < j mod PAGE_SIZE + n"
    "i mod PAGE_SIZE - j mod PAGE_SIZE = i - j"
proof -
  define p a b where "p = j div PAGE_SIZE" and "a = i mod PAGE_SIZE" and "b = j mod PAGE_SIZE"
  have "i = PAGE_SIZE * p + a" "j = PAGE_SIZE * p + b"
    using assms mult_div_mod_eq [of PAGE_SIZE i] mult_div_mod_eq [of PAGE_SIZE j]
    by (simp_all add: p_def a_def b_def)
  then show "j \<le> i \<longleftrightarrow> j mod PAGE_SIZE \<le> i mod PAGE_SIZE"
    "i < j + n \<longleftrightarrow> i mod PAGE_SIZE < j mod PAGE_SIZE + n"
    "i mod PAGE_SIZE - j mod PAGE_SIZE = i - j"
    unfolding a_def [symmetric] b_def [symmetric] by simp_all
qed

lemma pages_spanned_none [simp]: "stop \<le> start \<Longrightarrow> pages_spanned start stop = 0"
  by (simp add: pages_spanned_def)

lemma pages_spanned_step:
  assumes "cursor < stop"
  shows "pages_spanned cursor stop = Suc (pages_spanned (cursor + page_chunk cursor stop) stop)"
proof -
  obtain p r where c: "cursor = PAGE_SIZE * p + r" "r < PAGE_SIZE" "cursor div PAGE_SIZE = p"
    "cursor mod PAGE_SIZE = r" by (rule page_split)
  show ?thesis
  proof (cases "stop \<le> PAGE_SIZE * Suc p")
    case True
    then have e: "cursor + page_chunk cursor stop = stop"
      using assms c(1,2) unfolding c(4) by simp
    have "(stop - 1) div PAGE_SIZE = p"
      using True assms c(1) by (intro div_nat_eqI) simp_all
    then show ?thesis using assms unfolding e by (simp add: pages_spanned_def c(3))
  next
    case False
    then have e: "cursor + page_chunk cursor stop = PAGE_SIZE * Suc p"
      using assms c(1,2) unfolding c(4) by simp
    have "Suc p \<le> (stop - 1) div PAGE_SIZE"
      using False by (simp add: less_eq_div_iff_mult_less_eq)
    moreover have "PAGE_SIZE * Suc p div PAGE_SIZE = Suc p" by (rule nonzero_mult_div_cancel_left) simp
    ultimately show ?thesis using assms False unfolding e pages_spanned_def c(3) by simp
  qed
qed

section \<open>Ordered maps and sets\<close>

type_synonym ('k, 'v) bmap = "('k \<times> 'v) list"

primrec bm_insert :: "'k::linorder \<Rightarrow> 'v \<Rightarrow> ('k, 'v) bmap \<Rightarrow> ('k, 'v) bmap" where
  "bm_insert k v [] = [(k, v)]"
| "bm_insert k v (e # m) =
    (if k < fst e then (k, v) # e # m
     else if k = fst e then (k, v) # m
     else e # bm_insert k v m)"

definition bm_remove :: "'k \<Rightarrow> ('k, 'v) bmap \<Rightarrow> ('k, 'v) bmap" where
  "bm_remove k m = filter (\<lambda>e. fst e \<noteq> k) m"

definition bm_retain :: "('k \<Rightarrow> bool) \<Rightarrow> ('k, 'v) bmap \<Rightarrow> ('k, 'v) bmap" where
  "bm_retain P m = filter (\<lambda>e. P (fst e)) m"

text \<open>\<open>entry(k).or_insert(v)\<close>.\<close>

definition bm_or_insert :: "'k::linorder \<Rightarrow> 'v \<Rightarrow> ('k, 'v) bmap \<Rightarrow> ('k, 'v) bmap" where
  "bm_or_insert k v m = (case map_of m k of None \<Rightarrow> bm_insert k v m | Some _ \<Rightarrow> m)"

text \<open>\<open>extend\<close>: later entries win.\<close>

definition bm_extend :: "('k::linorder, 'v) bmap \<Rightarrow> ('k \<times> 'v) list \<Rightarrow> ('k, 'v) bmap" where
  "bm_extend m es = fold (\<lambda>e. bm_insert (fst e) (snd e)) es m"

definition bm_or_extend :: "('k::linorder, 'v) bmap \<Rightarrow> ('k \<times> 'v) list \<Rightarrow> ('k, 'v) bmap" where
  "bm_or_extend m es = fold (\<lambda>e. bm_or_insert (fst e) (snd e)) es m"

text \<open>\<open>*entry(k).or_default() += 1\<close>.\<close>

definition bm_incr :: "'k::linorder \<Rightarrow> ('k, nat) bmap \<Rightarrow> ('k, nat) bmap" where
  "bm_incr k m = bm_insert k (Suc (case map_of m k of None \<Rightarrow> 0 | Some n \<Rightarrow> n)) m"

abbreviation bm_keys :: "('k, 'v) bmap \<Rightarrow> 'k list" where
  "bm_keys m \<equiv> map fst m"

abbreviation bm_values :: "('k, 'v) bmap \<Rightarrow> 'v list" where
  "bm_values m \<equiv> map snd m"

definition bm_wf :: "('k::linorder, 'v) bmap \<Rightarrow> bool" where
  "bm_wf m \<longleftrightarrow> sorted_wrt (<) (bm_keys m)"

lemma map_of_bm_insert [simp, bmap_simps]: "map_of (bm_insert k v m) = (map_of m)(k \<mapsto> v)"
  by (induction m) auto

lemma map_of_bm_remove [simp, bmap_simps]: "map_of (bm_remove k m) = (map_of m)(k := None)"
  by (induction m) (auto simp: bm_remove_def)

lemma map_of_bm_retain [simp, bmap_simps]:
  "map_of (bm_retain P m) k = (if P k then map_of m k else None)"
  by (induction m) (auto simp: bm_retain_def)

lemma map_of_bm_or_insert [simp, bmap_simps]:
  "map_of (bm_or_insert k v m) = (map_of m)(k := Some (case map_of m k of None \<Rightarrow> v | Some x \<Rightarrow> x))"
  by (auto simp: bm_or_insert_def fun_eq_iff split: option.splits)

lemma map_of_bm_incr [simp, bmap_simps]:
  "map_of (bm_incr k m) = (map_of m)(k \<mapsto> Suc (case map_of m k of None \<Rightarrow> 0 | Some n \<Rightarrow> n))"
  by (simp add: bm_incr_def)

lemma set_bm_insert_subset: "set (bm_insert k v m) \<subseteq> insert (k, v) (set m)"
  by (induction m) auto

lemma keys_bm_insert [simp, bmap_simps]: "fst ` set (bm_insert k v m) = insert k (fst ` set m)"
  by (induction m) auto

lemma keys_bm_remove [simp, bmap_simps]: "fst ` set (bm_remove k m) = fst ` set m - {k}"
  by (auto simp: bm_remove_def image_iff)

lemma bm_wf_Nil [simp]: "bm_wf []"
  by (simp add: bm_wf_def)

lemma bm_wf_Cons [simp]: "bm_wf (e # m) \<longleftrightarrow> (\<forall>k \<in> fst ` set m. fst e < k) \<and> bm_wf m"
  by (auto simp: bm_wf_def)

lemma bm_wf_insert [simp, intro]: "bm_wf m \<Longrightarrow> bm_wf (bm_insert k v m)"
proof (induction m)
  case (Cons e m)
  then show ?case by (cases "k < fst e"; cases "k = fst e") (auto intro: less_trans)
qed simp

lemma bm_wf_filter: "bm_wf m \<Longrightarrow> bm_wf (filter P m)"
  by (induction m) auto

lemma bm_wf_remove [simp, intro]: "bm_wf m \<Longrightarrow> bm_wf (bm_remove k m)"
  by (simp add: bm_remove_def bm_wf_filter)

lemma bm_wf_retain [simp, intro]: "bm_wf m \<Longrightarrow> bm_wf (bm_retain P m)"
  by (simp add: bm_retain_def bm_wf_filter)

lemma bm_wf_or_insert [simp, intro]: "bm_wf m \<Longrightarrow> bm_wf (bm_or_insert k v m)"
  by (auto simp: bm_or_insert_def split: option.splits)

lemma bm_wf_distinct: "bm_wf m \<Longrightarrow> distinct (bm_keys m)"
  unfolding bm_wf_def using strict_sorted_iff by blast

lemma bm_extend_Nil [simp]: "bm_extend m [] = m"
  and bm_extend_Cons [simp]: "bm_extend m (e # es) = bm_extend (bm_insert (fst e) (snd e) m) es"
  by (simp_all add: bm_extend_def)

lemma bm_or_extend_Nil [simp]: "bm_or_extend m [] = m"
  and bm_or_extend_Cons [simp]:
    "bm_or_extend m (e # es) = bm_or_extend (bm_or_insert (fst e) (snd e) m) es"
  by (simp_all add: bm_or_extend_def)

lemma bm_wf_extend [simp, intro]: "bm_wf m \<Longrightarrow> bm_wf (bm_extend m es)"
  by (induction es arbitrary: m) auto

lemma bm_wf_or_extend [simp, intro]: "bm_wf m \<Longrightarrow> bm_wf (bm_or_extend m es)"
  by (induction es arbitrary: m) auto

lemma map_of_bm_or_extend [simp, bmap_simps]: "map_of (bm_or_extend m es) = map_of es ++ map_of m"
  by (induction es arbitrary: m) (auto simp: fun_eq_iff map_add_def split: option.splits)

lemma map_of_bm_extend [bmap_simps]:
  "distinct (map fst es) \<Longrightarrow> map_of (bm_extend m es) = map_of m ++ map_of es"
  by (induction es arbitrary: m) (auto simp: map_add_upd_left dom_map_of_conv_image_fst)

lemma map_of_bm_extend_wf [bmap_simps]:
  "bm_wf es \<Longrightarrow> map_of (bm_extend m es) = map_of m ++ map_of es"
  by (simp add: map_of_bm_extend bm_wf_distinct)

lemma bm_values_ran: "bm_wf m \<Longrightarrow> set (bm_values m) = ran (map_of m)"
  by (simp add: ran_distinct bm_wf_distinct)

lemma bm_wf_entries: "bm_wf m \<Longrightarrow> (k, v) \<in> set m \<longleftrightarrow> map_of m k = Some v"
  by (simp add: bm_wf_distinct map_of_eq_Some_iff)

lemma dom_map_of_fst: "map_of m k = Some v \<Longrightarrow> k \<in> fst ` set m"
  by (force dest: map_of_SomeD)

lemma bm_insert_Nil_iff [simp]: "bm_insert k v m \<noteq> []"
  by (cases m) auto

lemma bm_wf_ext:
  assumes "bm_wf m" "bm_wf m'" "map_of m = map_of m'"
  shows "m = m'"
proof -
  have "sorted (bm_keys m)" "distinct (bm_keys m)" "sorted (bm_keys m')" "distinct (bm_keys m')"
    using assms(1,2) by (simp_all add: bm_wf_def strict_sorted_iff)
  moreover have "set (bm_keys m) = set (bm_keys m')"
    using assms(3) by (metis dom_map_of_conv_image_fst list.set_map)
  ultimately have keys: "bm_keys m = bm_keys m'"
    by (rule sorted_distinct_set_unique)
  have vals: "map snd xs = map (\<lambda>k. the (map_of xs k)) (bm_keys xs)"
    if "distinct (bm_keys xs)" for xs :: "('a, 'b) bmap"
    using that by (auto intro!: nth_equalityI simp: map_of_eq_Some_iff)
  show ?thesis
    using keys vals[of m] vals[of m'] \<open>distinct (bm_keys m)\<close> \<open>distinct (bm_keys m')\<close> assms(3)
    by (metis zip_map_fst_snd)
qed

lemma set_fold_insort_insert: "set (fold insort_insert xs acc) = set xs \<union> set acc"
  by (induction xs arbitrary: acc) (auto simp: set_insort_insert)

lemma distinct_fold_insort_insert: "distinct acc \<Longrightarrow> distinct (fold insort_insert xs acc)"
  by (induction xs arbitrary: acc) (auto simp: distinct_insort_insert)

definition bm_count :: "('k, nat) bmap \<Rightarrow> 'k \<Rightarrow> nat" where
  "bm_count m k = (case map_of m k of None \<Rightarrow> 0 | Some n \<Rightarrow> n)"

lemma bm_filter_card:
  assumes "bm_wf m"
  shows "length (filter P (bm_values m)) = card {k. \<exists>v. map_of m k = Some v \<and> P v}"
proof -
  have "length (filter P (bm_values m)) = length (filter (P \<circ> snd) m)" by (simp add: filter_map)
  also have "\<dots> = card (fst ` set (filter (P \<circ> snd) m))"
    using distinct_card [OF bm_wf_distinct [OF bm_wf_filter [OF assms]], of "P \<circ> snd"]
    by (simp only: list.set_map length_map)
  also have "fst ` set (filter (P \<circ> snd) m) = {k. \<exists>v. map_of m k = Some v \<and> P v}"
    using assms by (force simp: bm_wf_entries image_iff)
  finally show ?thesis .
qed

lemma bm_insert_same: "bm_wf m \<Longrightarrow> map_of m k = Some v \<Longrightarrow> bm_insert k v m = m"
  by (rule bm_wf_ext) (auto simp: fun_eq_iff)

lemma ran_UN_cong:
  assumes "\<And>k v. m k = Some v \<Longrightarrow> \<exists>k' v'. m' k' = Some v' \<and> g v = g v'"
    and "\<And>k v. m' k = Some v \<Longrightarrow> \<exists>k' v'. m k' = Some v' \<and> g v = g v'"
  shows "(\<Union>v \<in> ran m'. g v) = (\<Union>v \<in> ran m. g v)"
  using assms unfolding ran_def by (intro equalityI subsetI) (clarsimp, blast)+

section \<open>Methods\<close>

type_synonym ('s, 'e, 'a) meth = "'s \<Rightarrow> ('e + 'a) \<times> 's"

definition ok :: "'a \<Rightarrow> ('s, 'e, 'a) meth" where
  "ok x = (\<lambda>s. (Inr x, s))"

definition raise :: "'e \<Rightarrow> ('s, 'e, 'a) meth" where
  "raise e = (\<lambda>s. (Inl e, s))"

text \<open>Sequencing with \<^verbatim>\<open>?\<close>: an error ends the method and keeps the state reached.\<close>

definition mbind :: "('s, 'e, 'a) meth \<Rightarrow> ('a \<Rightarrow> ('s, 'e, 'b) meth) \<Rightarrow> ('s, 'e, 'b) meth" where
  "mbind m f = (\<lambda>s. case m s of (r, s') \<Rightarrow> (case r of Inl e \<Rightarrow> (Inl e, s') | Inr a \<Rightarrow> f a s'))"

text \<open>Run a method and hand its result, error or not, to the continuation.\<close>

definition mattempt :: "('s, 'e, 'a) meth \<Rightarrow> ('e + 'a \<Rightarrow> ('s, 'f, 'b) meth) \<Rightarrow> ('s, 'f, 'b) meth" where
  "mattempt m f = (\<lambda>s. case m s of (r, s') \<Rightarrow> f r s')"

definition of_result :: "'e + 'a \<Rightarrow> ('s, 'e, 'a) meth" where
  "of_result r = (\<lambda>s. (r, s))"

definition ok_or :: "'a option \<Rightarrow> 'e \<Rightarrow> ('s, 'e, 'a) meth" where
  "ok_or x e = (case x of None \<Rightarrow> raise e | Some a \<Rightarrow> ok a)"

definition gets :: "('s \<Rightarrow> 'a) \<Rightarrow> ('s, 'e, 'a) meth" where
  "gets f = (\<lambda>s. (Inr (f s), s))"

definition modify :: "('s \<Rightarrow> 's) \<Rightarrow> ('s, 'e, unit) meth" where
  "modify f = (\<lambda>s. (Inr (), f s))"

text \<open>\<^verbatim>\<open>map_err\<close>.\<close>

definition map_err :: "('e \<Rightarrow> 'f) \<Rightarrow> ('s, 'e, 'a) meth \<Rightarrow> ('s, 'f, 'a) meth" where
  "map_err g m = (\<lambda>s. case m s of (r, s') \<Rightarrow> (case r of Inl e \<Rightarrow> Inl (g e) | Inr a \<Rightarrow> Inr a, s'))"

text \<open>A loop over a list whose body may fail.\<close>

fun mfor :: "'a list \<Rightarrow> ('a \<Rightarrow> ('s, 'e, unit) meth) \<Rightarrow> ('s, 'e, unit) meth" where
  "mfor [] f = ok ()"
| "mfor (x # xs) f = mbind (f x) (\<lambda>_. mfor xs f)"

lemmas meth_defs = ok_def raise_def mbind_def mattempt_def of_result_def ok_or_def gets_def
  modify_def map_err_def

lemma mbind_ok [simp, meth_simps]: "mbind (ok x) f = f x"
  and mbind_raise [simp, meth_simps]: "mbind (raise e) f = raise e"
  by (simp_all add: meth_defs)

lemma ok_apply [simp, meth_simps]: "ok x s = (Inr x, s)"
  and raise_apply [simp, meth_simps]: "raise e s = (Inl e, s)"
  and gets_apply [simp, meth_simps]: "gets f s = (Inr (f s), s)"
  and modify_apply [simp, meth_simps]: "modify g s = (Inr (), g s)"
  and of_result_apply [simp, meth_simps]: "of_result r s = (r, s)"
  by (simp_all add: meth_defs)

lemma ok_or_simps [simp, meth_simps]: "ok_or None e = raise e" "ok_or (Some a) e = ok a"
  by (simp_all add: ok_or_def)

lemma mbind_apply [meth_simps]:
  "mbind m f s = (case m s of (Inl e, s') \<Rightarrow> (Inl e, s') | (Inr a, s') \<Rightarrow> f a s')"
  by (auto simp: mbind_def split: prod.splits sum.splits)

lemma mattempt_apply [meth_simps]: "mattempt m f s = (case m s of (r, s') \<Rightarrow> f r s')"
  by (simp add: mattempt_def)

lemma map_err_apply [meth_simps]:
  "map_err g m s = (case m s of (Inl e, s') \<Rightarrow> (Inl (g e), s') | (Inr a, s') \<Rightarrow> (Inr a, s'))"
  by (auto simp: map_err_def split: prod.splits sum.splits)

lemma mbind_InrE:
  assumes "mbind m f s = (Inr b, s'')"
  obtains a s' where "m s = (Inr a, s')" "f a s' = (Inr b, s'')"
  using assms by (auto simp: mbind_def split: prod.splits sum.splits)

lemma mbind_Inr_iff:
  "mbind m f s = (Inr b, s'') \<longleftrightarrow> (\<exists>a s'. m s = (Inr a, s') \<and> f a s' = (Inr b, s''))"
  by (auto simp: mbind_def split: prod.splits sum.splits)

text \<open>A predicate on states that a method keeps, on success and on error.\<close>

definition keeps :: "('s \<Rightarrow> bool) \<Rightarrow> ('s, 'e, 'a) meth \<Rightarrow> bool" where
  "keeps P m \<longleftrightarrow> (\<forall>s. P s \<longrightarrow> P (snd (m s)))"

lemma keepsI: "(\<And>s. P s \<Longrightarrow> P (snd (m s))) \<Longrightarrow> keeps P m"
  by (simp add: keeps_def)

lemma keepsD: "keeps P m \<Longrightarrow> m s = (r, s') \<Longrightarrow> P s \<Longrightarrow> P s'"
  by (auto simp: keeps_def dest: spec[of _ s])

lemma keeps_ok [keeps_intros]: "keeps P (ok x)"
  and keeps_raise [keeps_intros]: "keeps P (raise e)"
  and keeps_gets [keeps_intros]: "keeps P (gets f)"
  and keeps_of_result [keeps_intros]: "keeps P (of_result r)"
  and keeps_ok_or [keeps_intros]: "keeps P (ok_or opt e)"
  by (simp_all add: keeps_def ok_or_def split: option.splits)

lemma keeps_mbind [keeps_intros]: "keeps P m \<Longrightarrow> (\<And>a. keeps P (f a)) \<Longrightarrow> keeps P (mbind m f)"
  by (fastforce simp: keeps_def mbind_def split: prod.splits sum.splits)

lemma keeps_mattempt [keeps_intros]:
  "keeps P m \<Longrightarrow> (\<And>r. keeps P (f r)) \<Longrightarrow> keeps P (mattempt m f)"
  by (fastforce simp: keeps_def mattempt_def split: prod.splits)

lemma keeps_map_err [keeps_intros]: "keeps P m \<Longrightarrow> keeps P (map_err g m)"
  by (fastforce simp: keeps_def map_err_def split: prod.splits)

lemma keeps_modify: "(\<And>s. P s \<Longrightarrow> P (f s)) \<Longrightarrow> keeps P (modify f)"
  by (simp add: keeps_def)

lemma keeps_if [keeps_intros]: "keeps P m \<Longrightarrow> keeps P m' \<Longrightarrow> keeps P (if b then m else m')"
  by simp

lemma keeps_case_option [keeps_intros]:
  "keeps P m \<Longrightarrow> (\<And>x. keeps P (f x)) \<Longrightarrow> keeps P (case opt of None \<Rightarrow> m | Some x \<Rightarrow> f x)"
  by (simp split: option.splits)

lemma keeps_case_sum [keeps_intros]:
  "(\<And>x. keeps P (f x)) \<Longrightarrow> (\<And>x. keeps P (g x)) \<Longrightarrow>
    keeps P (case v of Inl x \<Rightarrow> f x | Inr x \<Rightarrow> g x)"
  by (simp split: sum.splits)

lemma keeps_case_prod [keeps_intros]:
  "(\<And>x y. keeps P (f x y)) \<Longrightarrow> keeps P (case p of (x, y) \<Rightarrow> f x y)"
  by (simp split: prod.splits)

lemma keeps_mfor [keeps_intros]: "(\<And>x. keeps P (f x)) \<Longrightarrow> keeps P (mfor xs f)"
  by (induction xs) (simp_all add: keeps_ok keeps_mbind)

end
