(* ===== verification/Overlay.thy ===== *)
theory Overlay
  imports Prelude
begin

text \<open>
  The copy-on-write shape that the four crates share: a branch is a chain of immutable
  generations (\<^verbatim>\<open>Arc\<close>-shared, parent-linked) plus a private map of writes made since the last
  fork. \<^verbatim>\<open>PageBranch\<close> (minidox-fork), \<^verbatim>\<open>DirtyBranch\<close> (minidox-cache), \<^verbatim>\<open>IdentityBranch\<close> and
  \<^verbatim>\<open>CowDisk\<close> (minidox-redoxfs) are instances. A generation is never changed once it is shared, so
  an \<^verbatim>\<open>Arc\<close> of one is its value.

  The locale \<^verbatim>\<open>cow_branch\<close> states what such a branch promises (a write is seen by the writer, a
  fork changes neither side's view); its lemmas give isolation of branches for every sequence of
  forks and writes.
\<close>

section \<open>Generations\<close>

datatype ('k, 'v) generation =
  Generation (gen_parent: "('k, 'v) generation option") (gen_entries: "('k, 'v) bmap")

definition gen_empty :: "('k, 'v) generation" where
  "gen_empty = Generation None []"

fun gen_get :: "('k, 'v) generation \<Rightarrow> 'k \<Rightarrow> 'v option" where
  "gen_get (Generation par es) k =
    (case map_of es k of
      Some v \<Rightarrow> Some v
    | None \<Rightarrow> (case par of None \<Rightarrow> None | Some g \<Rightarrow> gen_get g k))"

text \<open>
  The loop that walks from the newest generation to the oldest and keeps the first entry it
  meets (\<^verbatim>\<open>visible.entry(key).or_insert(..)\<close>).
\<close>

fun gen_collect :: "('k::linorder, 'v) generation \<Rightarrow> ('k, 'v) bmap \<Rightarrow> ('k, 'v) bmap" where
  "gen_collect (Generation par es) acc =
    (let acc' = bm_or_extend acc es
     in case par of None \<Rightarrow> acc' | Some g \<Rightarrow> gen_collect g acc')"

text \<open>
  The recursion that visits the oldest generation first and lets newer entries overwrite
  (\<^verbatim>\<open>visible_files\<close>, \<^verbatim>\<open>visible_pages\<close>, \<^verbatim>\<open>visible_blocks\<close>).
\<close>

fun gen_extend :: "('k::linorder, 'v) generation \<Rightarrow> ('k, 'v) bmap \<Rightarrow> ('k, 'v) bmap" where
  "gen_extend (Generation par es) acc =
    bm_extend (case par of None \<Rightarrow> acc | Some g \<Rightarrow> gen_extend g acc) es"

text \<open>All entries that a chain retains, shadowed ones included.\<close>

fun gen_retained :: "('k, 'v) generation \<Rightarrow> 'v list" where
  "gen_retained (Generation par es) =
    bm_values es @ (case par of None \<Rightarrow> [] | Some g \<Rightarrow> gen_retained g)"

fun gen_wf :: "('k::linorder, 'v) generation \<Rightarrow> bool" where
  "gen_wf (Generation par es) \<longleftrightarrow>
    bm_wf es \<and> (case par of None \<Rightarrow> True | Some g \<Rightarrow> gen_wf g)"

lemma gen_get_empty [simp]: "gen_get gen_empty k = None"
  by (simp add: gen_empty_def)

lemma gen_wf_empty [simp]: "gen_wf gen_empty"
  by (simp add: gen_empty_def)

lemma map_of_gen_collect [simp]: "map_of (gen_collect g acc) = gen_get g ++ map_of acc"
proof (induction g acc rule: gen_collect.induct)
  case (1 par es acc)
  then show ?case
    by (cases par) (auto simp: fun_eq_iff map_add_def split: option.splits)
qed

lemma bm_wf_gen_collect [simp, intro]: "bm_wf acc \<Longrightarrow> bm_wf (gen_collect g acc)"
proof (induction g acc rule: gen_collect.induct)
  case (1 par es acc)
  then show ?case by (cases par) (simp_all add: Let_def)
qed

lemma map_of_gen_extend [simp]: "gen_wf g \<Longrightarrow> map_of (gen_extend g acc) = map_of acc ++ gen_get g"
proof (induction g acc rule: gen_extend.induct)
  case (1 par es acc)
  then show ?case
    by (cases par) (auto simp: map_of_bm_extend_wf fun_eq_iff map_add_def split: option.splits)
qed

lemma bm_wf_gen_extend [simp, intro]: "bm_wf acc \<Longrightarrow> bm_wf (gen_extend g acc)"
proof (induction g acc rule: gen_extend.induct)
  case (1 par es acc)
  then show ?case by (cases par) simp_all
qed

lemma gen_get_retained: "gen_get g k = Some v \<Longrightarrow> v \<in> set (gen_retained g)"
proof (induction g k rule: gen_get.induct)
  case (1 par es k)
  then show ?case
    by (cases par) (force split: option.splits dest: map_of_SomeD)+
qed

section \<open>Branches\<close>

record ('k, 'v) overlay =
  ov_base :: "('k, 'v) generation"
  ov_writes :: "('k, 'v) bmap"

definition ov_empty :: "('k, 'v) overlay" where
  "ov_empty = \<lparr>ov_base = gen_empty, ov_writes = []\<rparr>"

definition ov_get :: "('k, 'v) overlay \<Rightarrow> 'k \<Rightarrow> 'v option" where
  "ov_get b k = (case map_of (ov_writes b) k of Some v \<Rightarrow> Some v | None \<Rightarrow> gen_get (ov_base b) k)"

definition ov_put :: "'k::linorder \<Rightarrow> 'v \<Rightarrow> ('k, 'v) overlay \<Rightarrow> ('k, 'v) overlay" where
  "ov_put k v b = b\<lparr>ov_writes := bm_insert k v (ov_writes b)\<rparr>"

text \<open>The sealing step of a fork: the private writes become a generation of their own.\<close>

definition ov_seal :: "('k, 'v) overlay \<Rightarrow> ('k, 'v) overlay" where
  "ov_seal b =
    (if ov_writes b \<noteq> []
     then \<lparr>ov_base = Generation (Some (ov_base b)) (ov_writes b), ov_writes = []\<rparr>
     else b)"

definition ov_fork :: "('k, 'v) overlay \<Rightarrow> ('k, 'v) overlay \<times> ('k, 'v) overlay" where
  "ov_fork b = (let b' = ov_seal b in (b', \<lparr>ov_base = ov_base b', ov_writes = []\<rparr>))"

text \<open>The two enumerations of a branch's visible entries.\<close>

definition ov_visible :: "('k::linorder, 'v) overlay \<Rightarrow> ('k, 'v) bmap" where
  "ov_visible b = gen_collect (ov_base b) (ov_writes b)"

definition ov_visible_ext :: "('k::linorder, 'v) overlay \<Rightarrow> ('k, 'v) bmap" where
  "ov_visible_ext b = bm_extend (gen_extend (ov_base b) []) (ov_writes b)"

definition ov_retained :: "('k, 'v) overlay \<Rightarrow> 'v list" where
  "ov_retained b = bm_values (ov_writes b) @ gen_retained (ov_base b)"

definition ov_wf :: "('k::linorder, 'v) overlay \<Rightarrow> bool" where
  "ov_wf b \<longleftrightarrow> bm_wf (ov_writes b) \<and> gen_wf (ov_base b)"

lemma ov_get_empty [simp]: "ov_get ov_empty = Map.empty"
  by (simp add: ov_get_def ov_empty_def fun_eq_iff)

lemma ov_get_put [simp]: "ov_get (ov_put k v b) = (ov_get b)(k \<mapsto> v)"
  by (auto simp: ov_get_def ov_put_def fun_eq_iff split: option.splits)

lemma ov_get_seal [simp]: "ov_get (ov_seal b) = ov_get b"
  by (auto simp: ov_get_def ov_seal_def fun_eq_iff split: option.splits)

lemma ov_writes_seal [simp]: "ov_writes (ov_seal b) = []"
  by (simp add: ov_seal_def)

lemma ov_get_fork_self [simp]: "ov_get (fst (ov_fork b)) = ov_get b"
  by (simp add: ov_fork_def Let_def)

lemma ov_get_fork_child [simp]: "ov_get (snd (ov_fork b)) = ov_get b"
proof -
  have "ov_get (snd (ov_fork b)) = ov_get (ov_seal b)"
    by (simp add: ov_fork_def ov_get_def Let_def fun_eq_iff del: ov_get_seal)
  then show ?thesis by simp
qed

lemma ov_wf_empty [simp]: "ov_wf ov_empty"
  by (simp add: ov_wf_def ov_empty_def)

lemma ov_wf_put [simp, intro]: "ov_wf b \<Longrightarrow> ov_wf (ov_put k v b)"
  by (simp add: ov_wf_def ov_put_def)

lemma ov_wf_seal [simp, intro]: "ov_wf b \<Longrightarrow> ov_wf (ov_seal b)"
  by (simp add: ov_wf_def ov_seal_def)

lemma ov_wf_fork [simp, intro]: "ov_wf b \<Longrightarrow> ov_wf (fst (ov_fork b))" "ov_wf b \<Longrightarrow> ov_wf (snd (ov_fork b))"
  using ov_wf_seal[of b] by (auto simp: ov_fork_def ov_wf_def Let_def)

lemma map_of_ov_visible: "map_of (ov_visible b) = ov_get b"
  by (auto simp: ov_visible_def ov_get_def fun_eq_iff map_add_def split: option.splits)

lemma map_of_ov_visible_ext: "ov_wf b \<Longrightarrow> map_of (ov_visible_ext b) = ov_get b"
  by (auto simp: ov_visible_ext_def ov_wf_def ov_get_def fun_eq_iff map_add_def
      map_of_bm_extend_wf split: option.splits)

lemma bm_wf_ov_visible: "ov_wf b \<Longrightarrow> bm_wf (ov_visible b)"
  by (simp add: ov_visible_def ov_wf_def)

lemma ov_visible_eq_ext: "ov_wf b \<Longrightarrow> ov_visible b = ov_visible_ext b"
  by (rule bm_wf_ext)
    (simp_all add: bm_wf_ov_visible map_of_ov_visible map_of_ov_visible_ext,
      simp add: ov_visible_ext_def)

lemma ov_get_retained: "ov_get b k = Some v \<Longrightarrow> v \<in> set (ov_retained b)"
  by (force simp: ov_get_def ov_retained_def split: option.splits
      dest: map_of_SomeD gen_get_retained)

lemma set_ov_retained_put:
  "set (ov_retained (ov_put k v b)) \<subseteq> insert v (set (ov_retained b))"
  using set_bm_insert_subset[of k v "ov_writes b"] by (force simp: ov_retained_def ov_put_def)

lemma ov_retained_seal [simp]: "ov_retained (ov_seal b) = ov_retained b"
  by (simp add: ov_retained_def ov_seal_def)

lemma ov_retained_fork [simp]:
  "ov_retained (fst (ov_fork b)) = ov_retained b"
  "ov_retained (snd (ov_fork b)) = ov_retained b"
proof -
  show "ov_retained (fst (ov_fork b)) = ov_retained b"
    by (simp add: ov_fork_def Let_def)
  have "ov_retained (snd (ov_fork b)) = ov_retained (ov_seal b)"
    by (simp add: ov_fork_def ov_retained_def Let_def)
  then show "ov_retained (snd (ov_fork b)) = ov_retained b" by simp
qed

section \<open>The contract of a copy-on-write branch\<close>

datatype ('k, 'v) cow_op = CowFork nat | CowPut nat 'k 'v

text \<open>
  A family of branches under forks and writes, and the specification it is compared with: the
  same family where every branch owns a full private copy of its map.
\<close>

fun cow_step ::
  "('b \<Rightarrow> 'b \<times> 'b) \<Rightarrow> ('k \<Rightarrow> 'v \<Rightarrow> 'b \<Rightarrow> 'b) \<Rightarrow> 'b list \<Rightarrow> ('k, 'v) cow_op \<Rightarrow> 'b list" where
  "cow_step fork put bs (CowFork i) =
    (if i < length bs then bs[i := fst (fork (bs ! i))] @ [snd (fork (bs ! i))] else bs)"
| "cow_step fork put bs (CowPut i k v) =
    (if i < length bs then bs[i := put k v (bs ! i)] else bs)"

fun copy_step :: "('k \<rightharpoonup> 'v) list \<Rightarrow> ('k, 'v) cow_op \<Rightarrow> ('k \<rightharpoonup> 'v) list" where
  "copy_step ms (CowFork i) = (if i < length ms then ms @ [ms ! i] else ms)"
| "copy_step ms (CowPut i k v) = (if i < length ms then ms[i := (ms ! i)(k \<mapsto> v)] else ms)"

locale cow_branch =
  fixes view :: "'b \<Rightarrow> 'k \<Rightarrow> 'v option"
    and put :: "'k \<Rightarrow> 'v \<Rightarrow> 'b \<Rightarrow> 'b"
    and fork :: "'b \<Rightarrow> 'b \<times> 'b"
  assumes view_put: "view (put k v b) = (view b)(k \<mapsto> v)"
    and view_fork_self: "view (fst (fork b)) = view b"
    and view_fork_child: "view (snd (fork b)) = view b"
begin

lemma length_cow_step:
  "length (cow_step fork put bs op) = length (copy_step (map view bs) op)"
  by (cases op) auto

lemma cow_step_refines: "map view (cow_step fork put bs op) = copy_step (map view bs) op"
proof (cases op)
  case (CowFork i)
  show ?thesis
  proof (cases "i < length bs")
    case True
    have "map view (bs[i := fst (fork (bs ! i))]) = map view bs"
      using True by (simp add: map_update view_fork_self list_update_same_conv)
    then show ?thesis using CowFork True by (simp add: view_fork_child)
  qed (use CowFork in simp)
next
  case (CowPut i k v)
  then show ?thesis by (simp add: map_update view_put)
qed

lemma cow_run_refines:
  "map view (foldl (cow_step fork put) bs ops) = foldl copy_step (map view bs) ops"
  by (induction ops arbitrary: bs) (simp_all add: cow_step_refines)

lemma other_branch_untouched:
  assumes "j < length bs" "\<And>k v. op \<noteq> CowPut j k v"
  shows "view (cow_step fork put bs op ! j) = view (bs ! j)"
  using assms by (cases op) (auto simp: nth_append nth_list_update view_fork_self)

end

interpretation ov: cow_branch ov_get ov_put ov_fork
  by unfold_locales simp_all

text \<open>
  C6. Sharing is not observable: for every sequence of forks and writes over a family of
  generation-chain branches, what each branch sees is exactly what it would see if every fork
  made a full private copy.
\<close>

theorem cow_forest_refines_copies:
  "map ov_get (foldl (cow_step ov_fork ov_put) bs ops) = foldl copy_step (map ov_get bs) ops"
  by (rule ov.cow_run_refines)

end
