(* ===== verification/Host.thy ===== *)
theory Host
  imports Prelude
begin

text \<open>
  The process environment the crates run in: host files, the directory of named files, and the
  \<^verbatim>\<open>static\<close> atomic counters. A host call asks an answer stream first; the answer is either a fault
  or a grant, which for a transfer is the number of bytes the kernel is willing to move in that
  call. So every host call of the code can fail in the model, and a read or a write can be short.

  Named files have structured names (directory, prefix, number), one for each
  \<^verbatim>\<open>format!("{prefix}-{id}")\<close> of the code. A fault never claims that a name exists already: the
  kernel reports that exactly when it does.
\<close>

section \<open>Errors of the standard library\<close>

datatype io_kind = UnexpectedEof | WriteZero | AlreadyExists | NotFound | InvalidData | OtherKind

datatype io_error = OsError nat | IoError io_kind string

abbreviation (input) EIO :: nat where "EIO \<equiv> 5"
abbreviation (input) ENOENT :: nat where "ENOENT \<equiv> 2"
abbreviation (input) EBUSY :: nat where "EBUSY \<equiv> 16"
abbreviation (input) ENODEV :: nat where "ENODEV \<equiv> 19"
abbreviation (input) EINVAL :: nat where "EINVAL \<equiv> 22"
abbreviation (input) EOVERFLOW :: nat where "EOVERFLOW \<equiv> 75"

section \<open>The world\<close>

datatype host_answer = Fault io_error | Grant nat

type_synonym fname = "string \<times> string \<times> nat"

record world =
  w_files :: "nat \<rightharpoonup> bytes"
  w_next_inode :: nat
  w_names :: "(fname, nat) bmap"
  w_answers :: "nat \<Rightarrow> host_answer"
  w_tick :: nat
  next_cache_id :: nat
  next_cache_page_id :: nat
  next_pagecache_id :: nat
  next_block_id :: nat
  next_file_object_id :: nat
  next_page_version :: nat
  next_durable_layer_id :: nat
  next_ram_page_id :: nat
  next_generation_id :: nat
  next_backend_id :: nat

text \<open>One host call: the next answer of the stream.\<close>

definition host_call :: "(world, io_error, nat) meth" where
  "host_call w =
    (case w_answers w (w_tick w) of
      Fault e \<Rightarrow> (Inl e, w\<lparr>w_tick := Suc (w_tick w)\<rparr>)
    | Grant n \<Rightarrow> (Inr n, w\<lparr>w_tick := Suc (w_tick w)\<rparr>))"

definition file_data :: "world \<Rightarrow> nat \<Rightarrow> bytes" where
  "file_data w h = (case w_files w h of None \<Rightarrow> [] | Some d \<Rightarrow> d)"

text \<open>A new anonymous file (\<^verbatim>\<open>tempfile()\<close>), empty.\<close>

definition tempfile :: "(world, io_error, nat) meth" where
  "tempfile = mbind host_call (\<lambda>_ w.
    (Inr (w_next_inode w),
     w\<lparr>w_files := (w_files w)(w_next_inode w \<mapsto> []), w_next_inode := Suc (w_next_inode w)\<rparr>))"

definition resize :: "nat \<Rightarrow> bytes \<Rightarrow> bytes" where
  "resize n d = take n d @ replicate (n - length d) 0"

definition set_len :: "nat \<Rightarrow> nat \<Rightarrow> (world, io_error, unit) meth" where
  "set_len h n = mbind host_call (\<lambda>_ w.
    (Inr (), w\<lparr>w_files := (w_files w)(h \<mapsto> resize n (file_data w h))\<rparr>))"

text \<open>Bytes written at an offset, the gap before it filled with zeros, as \<^verbatim>\<open>pwrite\<close> does.\<close>

definition overwrite :: "bytes \<Rightarrow> nat \<Rightarrow> bytes \<Rightarrow> bytes" where
  "overwrite d off src =
    take off d @ replicate (off - length d) 0 @ src @ drop (off + length src) d"

text \<open>\<^verbatim>\<open>read_at\<close>: at most \<open>len\<close> bytes, fewer at the end of the file or when the call is short.\<close>

definition read_at :: "nat \<Rightarrow> nat \<Rightarrow> nat \<Rightarrow> (world, io_error, bytes) meth" where
  "read_at h len off = mbind host_call (\<lambda>n w. (Inr (bslice off (min n len) (file_data w h)), w))"

text \<open>\<^verbatim>\<open>write_at\<close>: a prefix of the buffer is written, its length is returned.\<close>

definition write_at :: "nat \<Rightarrow> bytes \<Rightarrow> nat \<Rightarrow> (world, io_error, nat) meth" where
  "write_at h buf off = mbind host_call (\<lambda>n w.
    (let k = min n (length buf) in
     (Inr k, if k = 0 then w
             else w\<lparr>w_files := (w_files w)(h \<mapsto> overwrite (file_data w h) off (take k buf))\<rparr>)))"

lemma length_resize [simp]: "length (resize n d) = n"
  by (simp add: resize_def)

lemma overwrite_inside: "off + length src \<le> length d \<Longrightarrow> overwrite d off src = copy_into d off src"
  by (simp add: overwrite_def copy_into_def)

lemma overwrite_append:
  assumes "xs \<noteq> []"
  shows "overwrite (overwrite d off xs) (off + length xs) ys = overwrite d off (xs @ ys)"
  using assms by (auto simp: overwrite_def min_def ac_simps not_le)

lemma overwrite_end: "overwrite d (length d) xs = d @ xs"
  by (simp add: overwrite_def)

lemma length_overwrite_inside [simp]:
  "off + length src \<le> length d \<Longrightarrow> length (overwrite d off src) = length d"
  by (simp add: overwrite_inside)

lemma nth_overwrite:
  "off \<le> i \<Longrightarrow> i < off + length src \<Longrightarrow> overwrite d off src ! i = src ! (i - off)"
  "i < off \<or> off + length src \<le> i \<Longrightarrow> i < length d \<Longrightarrow> overwrite d off src ! i = d ! i"
  by (auto simp: overwrite_def nth_append min_def)

lemma length_overwrite: "length (overwrite d off src) = max (length d) (off + length src)"
  by (auto simp: overwrite_def)

section \<open>Whole-buffer transfers\<close>

text \<open>
  Loops over the possibly short calls; each round either fails, or moves at least one byte. The
  first argument is the error for a transfer of no bytes. The code has two pairs of such loops:
  \<^verbatim>\<open>read_exact_at\<close> and \<^verbatim>\<open>write_all_at\<close> of the cache crate, and the methods of the same names of
  the standard library's \<^verbatim>\<open>FileExt\<close>, whose retry on \<^verbatim>\<open>Interrupted\<close> is not reached: the kernel
  does not interrupt transfers on regular files.
\<close>

function read_full :: "io_error \<Rightarrow> nat \<Rightarrow> nat \<Rightarrow> nat \<Rightarrow> (world, io_error, bytes) meth" where
  "read_full err h len off w =
    (if len = 0 then (Inr [], w)
     else case read_at h len off w of
        (Inl e, w') \<Rightarrow> (Inl e, w')
      | (Inr chunk, w') \<Rightarrow>
          if chunk = [] then (Inl err, w')
          else case read_full err h (len - length chunk) (off + length chunk) w' of
              (Inl e, w'') \<Rightarrow> (Inl e, w'')
            | (Inr rest, w'') \<Rightarrow> (Inr (chunk @ rest), w''))"
  by pat_completeness auto
termination
  by (relation "measure (\<lambda>(err, h, len, off, w). len)") auto

function write_full :: "io_error \<Rightarrow> nat \<Rightarrow> bytes \<Rightarrow> nat \<Rightarrow> (world, io_error, unit) meth" where
  "write_full err h buf off w =
    (if buf = [] then (Inr (), w)
     else case write_at h buf off w of
        (Inl e, w') \<Rightarrow> (Inl e, w')
      | (Inr n, w') \<Rightarrow>
          if n = 0 then (Inl err, w')
          else write_full err h (drop n buf) (off + n) w')"
  by pat_completeness auto
termination
  by (relation "measure (\<lambda>(err, h, buf, off, w). length buf)") auto

declare read_full.simps [simp del] write_full.simps [simp del]

definition read_exact_at :: "nat \<Rightarrow> nat \<Rightarrow> nat \<Rightarrow> (world, io_error, bytes) meth" where
  "read_exact_at = read_full (IoError UnexpectedEof ''short DAX read'')"

definition write_all_at :: "nat \<Rightarrow> bytes \<Rightarrow> nat \<Rightarrow> (world, io_error, unit) meth" where
  "write_all_at = write_full (IoError WriteZero ''short DAX write'')"

definition std_read_exact_at :: "nat \<Rightarrow> nat \<Rightarrow> nat \<Rightarrow> (world, io_error, bytes) meth" where
  "std_read_exact_at = read_full (IoError UnexpectedEof ''failed to fill whole buffer'')"

definition std_write_all_at :: "nat \<Rightarrow> bytes \<Rightarrow> nat \<Rightarrow> (world, io_error, unit) meth" where
  "std_write_all_at = write_full (IoError WriteZero ''failed to write whole buffer'')"

lemmas transfer_defs = read_exact_at_def write_all_at_def std_read_exact_at_def std_write_all_at_def

text \<open>What a host call never does: it changes no file and no counter, only the stream position.\<close>

definition same_but_tick :: "world \<Rightarrow> world \<Rightarrow> bool" where
  "same_but_tick w w' \<longleftrightarrow> (\<exists>t. w' = w\<lparr>w_tick := t\<rparr>)"

lemma same_but_tick_refl [simp]: "same_but_tick w w"
  unfolding same_but_tick_def by (rule exI [of _ "w_tick w"]) simp

lemma same_but_tick_trans: "same_but_tick w w' \<Longrightarrow> same_but_tick w' w'' \<Longrightarrow> same_but_tick w w''"
  by (auto simp: same_but_tick_def)

lemma same_but_tickD:
  assumes "same_but_tick w w'"
  shows "w_files w' = w_files w" "w_next_inode w' = w_next_inode w" "w_names w' = w_names w"
    "w_answers w' = w_answers w" "file_data w' = file_data w"
    "next_cache_page_id w' = next_cache_page_id w" "next_page_version w' = next_page_version w"
    "next_file_object_id w' = next_file_object_id w"
  using assms by (auto simp: same_but_tick_def file_data_def fun_eq_iff)

lemma host_call_same: "host_call w = (r, w') \<Longrightarrow> same_but_tick w w'"
  by (auto simp: host_call_def same_but_tick_def split: host_answer.splits)

lemma read_at_same: "read_at h len off w = (r, w') \<Longrightarrow> same_but_tick w w'"
  by (auto simp: read_at_def mbind_apply split: prod.splits sum.splits dest: host_call_same)

lemma read_at_data:
  "read_at h len off w = (Inr chunk, w') \<Longrightarrow>
    chunk = bslice off (length chunk) (file_data w h) \<and> length chunk \<le> len"
  by (auto simp: read_at_def mbind_apply bslice_def min_def split: prod.splits sum.splits
      dest!: host_call_same same_but_tickD(5))

text \<open>A successful \<^verbatim>\<open>read_full\<close> returns exactly the requested range and changes no file.\<close>

lemma read_full_sound:
  "read_full err h len off w = (r, w') \<Longrightarrow>
    same_but_tick w w' \<and> (\<forall>bs. r = Inr bs \<longrightarrow> bs = bslice off len (file_data w h) \<and> length bs = len)"
proof (induction err h len off w arbitrary: r w' rule: read_full.induct)
  case (1 err h len off w)
  show ?case
  proof (cases "len = 0")
    case True
    with "1.prems" show ?thesis by (auto simp: read_full.simps)
  next
    case False
    obtain c w1 where c: "read_at h len off w = (c, w1)" by fastforce
    note same1 = read_at_same [OF c]
    show ?thesis
    proof (cases c)
      case (Inl e)
      with False c "1.prems" same1 show ?thesis by (auto simp: read_full.simps [of err h len off w])
    next
      case (Inr chunk)
      note data = read_at_data [OF c [unfolded Inr]]
      show ?thesis
      proof (cases "chunk = []")
        case True
        with False c Inr "1.prems" same1 show ?thesis
          by (auto simp: read_full.simps [of err h len off w])
      next
        case ne: False
        obtain r2 w2 where r2: "read_full err h (len - length chunk) (off + length chunk) w1 = (r2, w2)"
          by fastforce
        from "1.IH" [OF False c [symmetric] Inr ne r2]
        have IH: "same_but_tick w1 w2"
          "\<And>bs. r2 = Inr bs \<Longrightarrow> bs = bslice (off + length chunk) (len - length chunk) (file_data w1 h)
            \<and> length bs = len - length chunk" by auto
        have same2: "same_but_tick w w2" using same1 IH(1) by (rule same_but_tick_trans)
        have "r = (case r2 of Inl e \<Rightarrow> Inl e | Inr rest \<Rightarrow> Inr (chunk @ rest))" "w' = w2"
          using "1.prems" False c Inr ne r2
          by (auto simp: read_full.simps [of err h len off w] split: sum.splits)
        moreover have app: "chunk @ bslice (off + length chunk) (len - length chunk) (file_data w h) =
            bslice off len (file_data w h)"
          using data bslice_append [of off "length chunk" "file_data w h" "len - length chunk"] by simp
        moreover have "length (bslice off len (file_data w h)) = len"
          if "length (bslice (off + length chunk) (len - length chunk) (file_data w h)) = len - length chunk"
          using that data unfolding app [symmetric] by simp
        ultimately show ?thesis
          using IH(2) same1 same2 by (cases r2) (auto simp: same_but_tickD)
      qed
    qed
  qed
qed

text \<open>\<open>w'\<close> is \<open>w\<close> after the bytes \<open>src\<close> went into file \<open>h\<close> at \<open>off\<close>.\<close>

definition wrote :: "world \<Rightarrow> world \<Rightarrow> nat \<Rightarrow> nat \<Rightarrow> bytes \<Rightarrow> bool" where
  "wrote w w' h off src \<longleftrightarrow> (\<exists>t. w' = w\<lparr>w_tick := t, w_files :=
      (if src = [] then w_files w else (w_files w)(h \<mapsto> overwrite (file_data w h) off src))\<rparr>)"

lemma wrote_Nil: "wrote w w' h off [] \<longleftrightarrow> same_but_tick w w'"
  by (auto simp: wrote_def same_but_tick_def)

lemma wroteD:
  assumes "wrote w w' h off src"
  shows "w_next_inode w' = w_next_inode w" "w_names w' = w_names w" "w_answers w' = w_answers w"
    "h' \<noteq> h \<Longrightarrow> w_files w' h' = w_files w h'" "h' \<noteq> h \<Longrightarrow> file_data w' h' = file_data w h'"
    "src \<noteq> [] \<Longrightarrow> file_data w' h = overwrite (file_data w h) off src"
    "src = [] \<Longrightarrow> file_data w' = file_data w"
    "next_cache_page_id w' = next_cache_page_id w" "next_page_version w' = next_page_version w"
    "next_file_object_id w' = next_file_object_id w"
  using assms by (auto simp: wrote_def file_data_def fun_eq_iff)

lemma wrote_trans:
  assumes "wrote w w1 h off xs" "wrote w1 w2 h (off + length xs) ys" "xs \<noteq> []"
  shows "wrote w w2 h off (xs @ ys)"
  using assms overwrite_append [OF assms(3), of "file_data w h" off ys]
  by (cases w; cases "ys = []") (auto simp: wrote_def file_data_def)

lemma write_at_wrote:
  "write_at h buf off w = (r, w') \<Longrightarrow>
    (case r of Inl _ \<Rightarrow> same_but_tick w w' | Inr n \<Rightarrow> n \<le> length buf \<and> wrote w w' h off (take n buf))"
  by (cases w) (auto simp: write_at_def mbind_apply Let_def host_call_def wrote_def
      same_but_tick_def file_data_def min_def
      split: prod.splits sum.splits host_answer.splits if_splits)

text \<open>
  \<^verbatim>\<open>write_full\<close> writes a prefix of the buffer, and the whole of it when it reports success.
\<close>

lemma write_full_sound:
  "write_full err h buf off w = (r, w') \<Longrightarrow>
    \<exists>k \<le> length buf. wrote w w' h off (take k buf) \<and> (r = Inr () \<longrightarrow> k = length buf)"
proof (induction err h buf off w arbitrary: r w' rule: write_full.induct)
  case (1 err h buf off w)
  show ?case
  proof (cases "buf = []")
    case True
    with "1.prems" show ?thesis by (auto simp: write_full.simps wrote_Nil)
  next
    case False
    obtain c w1 where c: "write_at h buf off w = (c, w1)" by fastforce
    note w1 = write_at_wrote [OF c]
    show ?thesis
    proof (cases c)
      case (Inl e)
      with False c "1.prems" w1 show ?thesis
        by (auto simp: write_full.simps [of err h buf off w] wrote_Nil intro!: exI [of _ 0])
    next
      case (Inr n)
      show ?thesis
      proof (cases "n = 0")
        case True
        with False c Inr "1.prems" w1 show ?thesis
          by (auto simp: write_full.simps [of err h buf off w] intro!: exI [of _ 0])
      next
        case pos: False
        have rest: "write_full err h (drop n buf) (off + n) w1 = (r, w')"
          using "1.prems" False c Inr pos by (simp add: write_full.simps [of err h buf off w])
        from "1.IH" [OF False c [symmetric] Inr pos rest] obtain k where k:
          "k \<le> length (drop n buf)" "wrote w1 w' h (off + n) (take k (drop n buf))"
          "r = Inr () \<longrightarrow> k = length (drop n buf)" by blast
        have n: "n \<le> length buf" "wrote w w1 h off (take n buf)" using w1 Inr by auto
        have "wrote w w' h off (take n buf @ take k (drop n buf))"
          using n k(2) pos False by (intro wrote_trans [of w w1]) auto
        then have "wrote w w' h off (take (n + k) buf)" by (simp add: take_add)
        with k n show ?thesis by (intro exI [of _ "n + k"]) auto
      qed
    qed
  qed
qed

lemma write_full_ok:
  "write_full err h buf off w = (Inr (), w') \<Longrightarrow> wrote w w' h off buf"
  by (auto dest: write_full_sound)

section \<open>A host without faults\<close>

text \<open>Every host call is granted and moves at least one byte: then whole-buffer transfers succeed.\<close>

definition healthy :: "world \<Rightarrow> bool" where
  "healthy w \<longleftrightarrow> (\<forall>i. \<exists>n. w_answers w i = Grant (Suc n))"

lemma healthy_host_call:
  "healthy w \<Longrightarrow> \<exists>n. host_call w = (Inr (Suc n), w\<lparr>w_tick := Suc (w_tick w)\<rparr>)"
proof -
  assume "healthy w"
  then obtain n where "w_answers w (w_tick w) = Grant (Suc n)"
    unfolding healthy_def by blast
  then show ?thesis by (simp add: host_call_def)
qed

lemma healthy_cong: "w_answers w' = w_answers w \<Longrightarrow> healthy w' = healthy w"
  by (simp add: healthy_def)

lemma healthy_read_full:
  "healthy w \<Longrightarrow> off + len \<le> length (file_data w h) \<Longrightarrow> \<exists>bs w'. read_full err h len off w = (Inr bs, w')"
proof (induction err h len off w rule: read_full.induct)
  case (1 err h len off w)
  show ?case
  proof (cases "len = 0")
    case True
    then show ?thesis by (simp add: read_full.simps)
  next
    case False
    obtain n where n: "host_call w = (Inr (Suc n), w\<lparr>w_tick := Suc (w_tick w)\<rparr>)"
      using healthy_host_call "1.prems"(1) by blast
    let ?w1 = "w\<lparr>w_tick := Suc (w_tick w)\<rparr>"
    let ?c = "bslice off (min (Suc n) len) (file_data w h)"
    have c: "read_at h len off w = (Inr ?c, ?w1)"
      using n by (simp add: read_at_def mbind_apply file_data_def)
    have len: "length ?c = min (Suc n) len" using "1.prems"(2) by (simp add: bslice_def)
    then have ne: "?c \<noteq> []" using False by (metis Zero_not_Suc list.size(3) min_def)
    have fd: "file_data ?w1 = file_data w" by (simp add: file_data_def fun_eq_iff)
    have "healthy ?w1" using "1.prems"(1) by (simp add: healthy_def)
    moreover have "off + length ?c + (len - length ?c) \<le> length (file_data ?w1 h)"
      using "1.prems"(2) len unfolding fd by simp
    ultimately obtain bs w' where
      "read_full err h (len - length ?c) (off + length ?c) ?w1 = (Inr bs, w')"
      using "1.IH" [OF False c [symmetric] refl ne] by blast
    then show ?thesis using False c ne by (simp add: read_full.simps [of err h len off w])
  qed
qed

lemma healthy_write_full: "healthy w \<Longrightarrow> \<exists>w'. write_full err h buf off w = (Inr (), w')"
proof (induction err h buf off w rule: write_full.induct)
  case (1 err h buf off w)
  show ?case
  proof (cases "buf = []")
    case True
    then show ?thesis by (simp add: write_full.simps)
  next
    case False
    obtain n where n: "host_call w = (Inr (Suc n), w\<lparr>w_tick := Suc (w_tick w)\<rparr>)"
      using healthy_host_call "1.prems" by blast
    obtain w1 where c: "write_at h buf off w = (Inr (min (Suc n) (length buf)), w1)"
      using n by (simp add: write_at_def mbind_apply Let_def)
    have pos: "min (Suc n) (length buf) \<noteq> 0" using False by simp
    have "healthy w1"
      using write_at_wrote [OF c] "1.prems" by (auto simp: healthy_def dest: wroteD(3))
    then show ?thesis
      using "1.IH" [OF False c [symmetric] refl pos] False c pos
      by (simp add: write_full.simps [of err h buf off w])
  qed
qed

end
