(* ===== verification/CacheBase.thy ===== *)
theory CacheBase
  imports Host
begin

text \<open>
  Vocabulary of the cache crate (\<^verbatim>\<open>minidox-cache/src/lib.rs\<close>): node numbers, access flags, the
  error type, and the \<^verbatim>\<open>NodeStore\<close> and \<^verbatim>\<open>ForkableNodeStore\<close> traits. A trait is the record of its
  methods; the page cache takes it as an argument, as a generic Rust type takes its \<^verbatim>\<open>impl\<close>.
\<close>

unbundle bit_operations_syntax

type_synonym node_id = nat
type_synonym page_key = "node_id \<times> nat"

type_synonym map_flags = "8 word"

definition READ :: map_flags where "READ = 1"
definition WRITE :: map_flags where "WRITE = 2"

text \<open>\<open>contains\<close> and \<open>intersects\<close> of \<^verbatim>\<open>bitflags\<close>.\<close>

definition flags_contain :: "map_flags \<Rightarrow> map_flags \<Rightarrow> bool" where
  "flags_contain fs g \<longleftrightarrow> fs AND g = g"

definition flags_intersect :: "map_flags \<Rightarrow> map_flags \<Rightarrow> bool" where
  "flags_intersect fs g \<longleftrightarrow> fs AND g \<noteq> 0"

lemma flags_contain_self [simp]: "flags_contain WRITE WRITE" "flags_contain READ READ"
  "flags_contain (READ OR WRITE) WRITE" "flags_contain (READ OR WRITE) READ"
  "\<not> flags_contain READ WRITE"
  by (simp_all add: flags_contain_def READ_def WRITE_def)

lemma flags_intersect_rw [simp]: "flags_intersect READ (READ OR WRITE)"
  "flags_intersect WRITE (READ OR WRITE)" "flags_intersect (READ OR WRITE) (READ OR WRITE)"
  by (simp_all add: flags_intersect_def READ_def WRITE_def)

datatype cache_error =
    Io io_error
  | InvalidMapping string
  | NodeNotOpen node_id
  | BranchNotFound nat
  | StaleMapping
  | ActiveMappings
  | PageBusy

section \<open>The store traits\<close>

text \<open>
  A store method runs on the store and the world. \<open>ns_read_node\<close> is given the length of the
  buffer and returns the bytes it put at the front of it; its return value in the code is their
  number.
\<close>

type_synonym ('s, 'a) store_meth = "('s \<times> world, io_error, 'a) meth"

record 's node_store =
  ns_len :: "node_id \<Rightarrow> ('s, nat) store_meth"
  ns_read_node :: "node_id \<Rightarrow> nat \<Rightarrow> nat \<Rightarrow> ('s, bytes) store_meth"
  ns_write_node :: "node_id \<Rightarrow> nat \<Rightarrow> bytes \<Rightarrow> ('s, nat) store_meth"
  ns_on_open_node :: "node_id \<Rightarrow> ('s, unit) store_meth"
  ns_on_close_node :: "node_id \<Rightarrow> ('s, unit) store_meth"

record ('s, 'i) forkable_node_store = "'s node_store" +
  fs_page_identity :: "node_id \<Rightarrow> nat \<Rightarrow> ('s, 'i) store_meth"
  fs_prepare_page_write :: "node_id \<Rightarrow> nat \<Rightarrow> ('s, 'i) store_meth"
  fs_fork_store :: "('s, 's) store_meth"

text \<open>Run a method on a field of the state (\<^verbatim>\<open>&mut self.field\<close>), the world beside it.\<close>

definition on_part ::
  "('s \<Rightarrow> 'p) \<Rightarrow> ('p \<Rightarrow> 's \<Rightarrow> 's) \<Rightarrow> ('p \<times> 'w, 'e, 'a) meth \<Rightarrow> ('s \<times> 'w, 'e, 'a) meth" where
  "on_part get put m sw =
    (case m (get (fst sw), snd sw) of (r, p, w) \<Rightarrow> (r, put p (fst sw), w))"

text \<open>Run a method of the world alone.\<close>

definition on_world :: "('w, 'e, 'a) meth \<Rightarrow> ('s \<times> 'w, 'e, 'a) meth" where
  "on_world m sw = (case m (snd sw) of (r, w) \<Rightarrow> (r, fst sw, w))"

lemma keeps_pairI:
  assumes "\<And>s w r s' w'. P (s, w) \<Longrightarrow> m (s, w) = (r, (s', w')) \<Longrightarrow> P (s', w')"
  shows "keeps P m"
proof (rule keepsI)
  fix sw assume P: "P sw"
  obtain s w where sw: "sw = (s, w)" by (cases sw)
  obtain r s' w' where "m (s, w) = (r, (s', w'))" by (metis prod.exhaust)
  then show "P (snd (m sw))" using assms [of s w r s' w'] P sw by simp
qed

lemma on_world_apply [meth_simps]: "on_world m (s, w) = (case m w of (r, w') \<Rightarrow> (r, s, w'))"
  by (simp add: on_world_def)

lemma on_part_apply [meth_simps]:
  "on_part get put m (s, w) = (case m (get s, w) of (r, p, w') \<Rightarrow> (r, put p s, w'))"
  by (simp add: on_part_def)

end
