(* ===== verification/PageBranch.thy ===== *)
theory PageBranch
  imports Overlay CacheBase
begin

text \<open>
  \<^verbatim>\<open>PageGeneration\<close> and \<^verbatim>\<open>PageBranch\<close> of \<^verbatim>\<open>minidox-fork/src/lib.rs\<close>: branches of 4096-byte pages
  keyed by path and page number, on the generation chains of the theory Overlay. The lemmas relate
  the read and write loops to the bytes a branch shows at each offset.
\<close>

section \<open>Pages and branches\<close>

record page =
  page_id :: nat
  page_bytes :: bytes

type_synonym file_page = "string \<times> nat"
type_synonym page_generation = "(file_page, page) generation"
type_synonym page_branch = "(file_page, page) overlay"

datatype vm_id = VmId (vm_raw: nat)

instantiation vm_id :: linorder
begin

definition less_eq_vm_id :: "vm_id \<Rightarrow> vm_id \<Rightarrow> bool" where
  "less_eq_vm_id a b \<longleftrightarrow> vm_raw a \<le> vm_raw b"

definition less_vm_id :: "vm_id \<Rightarrow> vm_id \<Rightarrow> bool" where
  "less_vm_id a b \<longleftrightarrow> vm_raw a < vm_raw b"

instance
  by standard (auto simp: less_eq_vm_id_def less_vm_id_def vm_id.expand)

end

datatype fork_error =
    VmNotFound vm_id
  | RangeOverflow
  | PageIdOverflow
  | ForkIo io_error
  | ForkCache cache_error

definition page_branch_page :: "page_branch \<Rightarrow> file_page \<Rightarrow> page option" where
  "page_branch_page b key = ov_get b key"

definition page_branch_fork :: "page_branch \<Rightarrow> page_branch \<times> page_branch" where
  "page_branch_fork b = ov_fork b"

text \<open>The body of the write loop from \<open>cursor\<close> on; the state is the branch and \<open>next_page\<close>.\<close>

function page_branch_write_loop ::
  "string \<Rightarrow> nat \<Rightarrow> bytes \<Rightarrow> nat \<Rightarrow> (page_branch \<times> nat, fork_error, unit) meth" where
  "page_branch_write_loop path offset bytes cursor (b, next_page) =
    (if cursor < offset + length bytes then
       let page_number = cursor div PAGE_SIZE;
           page_offset = cursor mod PAGE_SIZE;
           count = min (PAGE_SIZE - page_offset) (offset + length bytes - cursor);
           key = (path, page_number);
           contents = (case page_branch_page b key of
               None \<Rightarrow> replicate PAGE_SIZE 0 | Some page \<Rightarrow> page_bytes page);
           source_offset = cursor - offset;
           contents' = copy_into contents page_offset (bslice source_offset count bytes);
           page = \<lparr>page_id = next_page, page_bytes = contents'\<rparr>
       in case checked_add next_page 1 of
           None \<Rightarrow> (Inl PageIdOverflow, (b, next_page))
         | Some next_page' \<Rightarrow>
             page_branch_write_loop path offset bytes (cursor + count) (ov_put key page b, next_page')
     else (Inr (), (b, next_page)))"
  by pat_completeness auto
termination
  by (relation "measure (\<lambda>(path, offset, bytes, cursor, s). offset + length bytes - cursor)") auto

definition page_branch_write ::
  "string \<Rightarrow> nat \<Rightarrow> bytes \<Rightarrow> (page_branch \<times> nat, fork_error, unit) meth" where
  "page_branch_write path offset bytes =
    (case checked_add offset (length bytes) of
      None \<Rightarrow> raise RangeOverflow
    | Some _ \<Rightarrow> page_branch_write_loop path offset bytes offset)"

function page_branch_read_loop ::
  "page_branch \<Rightarrow> string \<Rightarrow> nat \<Rightarrow> nat \<Rightarrow> nat \<Rightarrow> bytes \<Rightarrow> bytes" where
  "page_branch_read_loop b path offset end' cursor result =
    (if cursor < end' then
       let page_number = cursor div PAGE_SIZE;
           page_offset = cursor mod PAGE_SIZE;
           count = min (PAGE_SIZE - page_offset) (end' - cursor);
           result' = (case page_branch_page b (path, page_number) of
               Some page \<Rightarrow>
                 copy_into result (cursor - offset) (bslice page_offset count (page_bytes page))
             | None \<Rightarrow> result)
       in page_branch_read_loop b path offset end' (cursor + count) result'
     else result)"
  by pat_completeness auto
termination
  by (relation "measure (\<lambda>(b, path, offset, end', cursor, result). end' - cursor)") auto

definition page_branch_read :: "page_branch \<Rightarrow> string \<Rightarrow> nat \<Rightarrow> nat \<Rightarrow> fork_error + bytes" where
  "page_branch_read b path offset len =
    (case checked_add offset len of
      None \<Rightarrow> Inl RangeOverflow
    | Some end' \<Rightarrow> Inr (page_branch_read_loop b path offset end' offset (replicate len 0)))"

definition page_branch_visible_pages :: "page_branch \<Rightarrow> (file_page, page) bmap" where
  "page_branch_visible_pages b = ov_visible b"

definition page_branch_add_retained_page_ids :: "page_branch \<Rightarrow> nat list \<Rightarrow> nat list" where
  "page_branch_add_retained_page_ids b retained =
    fold insort_insert (map page_id (ov_retained b)) retained"

declare page_branch_write_loop.simps [simp del] page_branch_read_loop.simps [simp del]

text \<open>The page that one round of the write loop makes, and the loop in terms of it.\<close>

definition written_page :: "page_branch \<Rightarrow> nat \<Rightarrow> string \<Rightarrow> nat \<Rightarrow> bytes \<Rightarrow> nat \<Rightarrow> page" where
  "written_page b next_page path offset bytes cursor =
    \<lparr>page_id = next_page,
     page_bytes = copy_into
       (case page_branch_page b (path, cursor div PAGE_SIZE) of
         None \<Rightarrow> replicate PAGE_SIZE 0 | Some page \<Rightarrow> page_bytes page)
       (cursor mod PAGE_SIZE)
       (bslice (cursor - offset) (page_chunk cursor (offset + length bytes)) bytes)\<rparr>"

lemma page_id_written_page [simp]: "page_id (written_page b n path offset bytes cursor) = n"
  by (simp add: written_page_def)

lemma page_branch_write_loop_step:
  "page_branch_write_loop path offset bytes cursor (b, n) =
    (if cursor < offset + length bytes then
       if n + 1 < u64_bound then
         page_branch_write_loop path offset bytes
           (cursor + page_chunk cursor (offset + length bytes))
           (ov_put (path, cursor div PAGE_SIZE) (written_page b n path offset bytes cursor) b, n + 1)
       else (Inl PageIdOverflow, (b, n))
     else (Inr (), (b, n)))"
  by (simp add: page_branch_write_loop.simps [of path offset bytes cursor] written_page_def
      checked_add_def Let_def)

section \<open>The bytes of a branch\<close>

definition page_branch_byte :: "page_branch \<Rightarrow> string \<Rightarrow> nat \<Rightarrow> byte" where
  "page_branch_byte b path i =
    (case page_branch_page b (path, i div PAGE_SIZE) of
      None \<Rightarrow> 0 | Some page \<Rightarrow> page_bytes page ! (i mod PAGE_SIZE))"

definition page_branch_wf :: "page_branch \<Rightarrow> bool" where
  "page_branch_wf b \<longleftrightarrow> (\<forall>key page. page_branch_page b key = Some page \<longrightarrow> length (page_bytes page) = PAGE_SIZE)"

lemma page_branch_byte_put:
  "page_branch_byte (ov_put (path, p) page b) path' i =
    (if path' = path \<and> i div PAGE_SIZE = p then page_bytes page ! (i mod PAGE_SIZE)
     else page_branch_byte b path' i)"
  by (simp add: page_branch_byte_def page_branch_page_def)

lemma page_branch_byte_fork [simp]:
  "page_branch_byte (fst (page_branch_fork b)) = page_branch_byte b"
  "page_branch_byte (snd (page_branch_fork b)) = page_branch_byte b"
  by (simp_all add: page_branch_byte_def page_branch_fork_def page_branch_page_def fun_eq_iff)

lemma page_branch_wf_empty [simp]: "page_branch_wf ov_empty"
  by (simp add: page_branch_wf_def page_branch_page_def)

lemma page_branch_byte_empty [simp]: "page_branch_byte ov_empty path i = 0"
  by (simp add: page_branch_byte_def page_branch_page_def)

lemma page_branch_wf_fork [simp, intro]:
  "page_branch_wf b \<Longrightarrow> page_branch_wf (fst (page_branch_fork b))"
  "page_branch_wf b \<Longrightarrow> page_branch_wf (snd (page_branch_fork b))"
  by (simp_all add: page_branch_wf_def page_branch_fork_def page_branch_page_def)

text \<open>One round of the write loop: the bytes of the chunk are replaced, nothing else.\<close>

lemma page_branch_write_round:
  assumes wf: "page_branch_wf b" and cur: "offset \<le> cursor" "cursor < stop" "stop = offset + length bytes"
    and count: "count = page_chunk cursor stop"
    and b': "b' = ov_put (path, cursor div PAGE_SIZE) (written_page b n path offset bytes cursor) b"
  shows "page_branch_wf b'"
    "page_branch_byte b' path' i =
      (if path' = path \<and> cursor \<le> i \<and> i < cursor + count then bytes ! (i - offset)
       else page_branch_byte b path' i)"
proof -
  define contents where "contents = (case page_branch_page b (path, cursor div PAGE_SIZE) of
      None \<Rightarrow> replicate PAGE_SIZE 0 | Some page \<Rightarrow> page_bytes page)"
  have page: "page_bytes (written_page b n path offset bytes cursor) =
      copy_into contents (cursor mod PAGE_SIZE) (bslice (cursor - offset) count bytes)"
    by (simp add: written_page_def contents_def count cur(3))
  have len: "length contents = PAGE_SIZE"
    using wf by (auto simp: contents_def page_branch_wf_def split: option.splits)
  note bounds = page_chunk_bounds [OF cur(2), folded count]
  have chunk: "length (bslice (cursor - offset) count bytes) = count"
    using cur bounds(2) by simp
  have fits: "cursor mod PAGE_SIZE + length (bslice (cursor - offset) count bytes) \<le> length contents"
    using bounds(3) chunk len by simp
  show "page_branch_wf b'"
    using wf length_copy_into [OF fits] len
    by (simp add: b' page_branch_wf_def page_branch_page_def page)
  show "page_branch_byte b' path' i =
      (if path' = path \<and> cursor \<le> i \<and> i < cursor + count then bytes ! (i - offset)
       else page_branch_byte b path' i)"
  proof (cases "path' = path \<and> i div PAGE_SIZE = cursor div PAGE_SIZE")
    case False
    then have "\<not> (path' = path \<and> cursor \<le> i \<and> i < cursor + count)"
      using page_chunk_page(1) [of cursor i stop] by (auto simp: count)
    with False show ?thesis by (auto simp: b' page_branch_byte_put)
  next
    case True
    have old: "page_branch_byte b path i = contents ! (i mod PAGE_SIZE)"
      using True by (auto simp: page_branch_byte_def contents_def split: option.splits)
    have new: "page_branch_byte b' path' i = copy_into contents (cursor mod PAGE_SIZE)
        (bslice (cursor - offset) count bytes) ! (i mod PAGE_SIZE)"
      using True by (simp add: b' page_branch_byte_put page)
    have off: "cursor \<le> i \<and> i < cursor + count \<longleftrightarrow>
        cursor mod PAGE_SIZE \<le> i mod PAGE_SIZE \<and> i mod PAGE_SIZE < cursor mod PAGE_SIZE + count"
      "i mod PAGE_SIZE - cursor mod PAGE_SIZE = i - cursor"
      by (simp_all only: page_mod_offset [OF conjunct2 [OF True]])
    show ?thesis
    proof (cases "cursor \<le> i \<and> i < cursor + count")
      case inside: True
      have "bslice (cursor - offset) count bytes ! (i - cursor) = bytes ! (i - offset)"
        using inside cur bounds(2) by (subst nth_bslice) auto
      then show ?thesis
        using inside True new chunk off by (simp add: nth_copy_into [OF fits] len)
    next
      case False
      then show ?thesis using True new old chunk off by (auto simp: nth_copy_into [OF fits] len)
    qed
  qed
qed

text \<open>
  The write loop: it succeeds exactly when the page identities suffice; the bytes up to where it
  got are the given ones, all other bytes are unchanged.
\<close>

lemma page_branch_write_loop_spec:
  assumes "page_branch_write_loop path offset bytes cursor (b, n) = (r, (b', n'))"
    and "page_branch_wf b" "offset \<le> cursor" "cursor \<le> offset + length bytes" "n < u64_bound"
  shows "page_branch_wf b' \<and>
    (r = Inr () \<longleftrightarrow> n + pages_spanned cursor (offset + length bytes) < u64_bound) \<and>
    (r = Inr () \<longrightarrow> n' = n + pages_spanned cursor (offset + length bytes)) \<and> n' < u64_bound \<and>
    (r = Inr () \<or> r = Inl PageIdOverflow) \<and>
    (\<exists>stop. cursor \<le> stop \<and> stop \<le> offset + length bytes \<and>
      (r = Inr () \<longrightarrow> stop = offset + length bytes) \<and>
      (\<forall>path' i. page_branch_byte b' path' i =
        (if path' = path \<and> cursor \<le> i \<and> i < stop then bytes ! (i - offset)
         else page_branch_byte b path' i)))"
  using assms
proof (induction "offset + length bytes - cursor" arbitrary: cursor b n rule: less_induct)
  case less
  let ?E = "offset + length bytes"
  show ?case
  proof (cases "cursor < ?E")
    case False
    then have "(r, (b', n')) = (Inr (), (b, n))"
      using less.prems(1) by (simp add: page_branch_write_loop.simps)
    then show ?thesis using less.prems False by (auto intro!: exI [of _ ?E])
  next
    case True
    define count where "count = page_chunk cursor ?E"
    define b1 where
      "b1 = ov_put (path, cursor div PAGE_SIZE) (written_page b n path offset bytes cursor) b"
    note round = page_branch_write_round [OF less.prems(2,3) True refl count_def b1_def]
    note bounds = page_chunk_bounds [OF True, folded count_def]
    note span = pages_spanned_step [OF True, folded count_def]
    show ?thesis
    proof (cases "n + 1 < u64_bound")
      case False
      then have "(r, (b', n')) = (Inl PageIdOverflow, (b, n))"
        using less.prems(1) True by (simp add: page_branch_write_loop_step)
      then show ?thesis using less.prems False True span by (auto intro!: exI [of _ cursor])
    next
      case fits: True
      have rest: "page_branch_write_loop path offset bytes (cursor + count) (b1, n + 1) = (r, (b', n'))"
        using less.prems(1) True fits
        unfolding page_branch_write_loop_step [of path offset bytes cursor] count_def b1_def by simp
      have IH: "page_branch_wf b' \<and>
        (r = Inr () \<longleftrightarrow> n + 1 + pages_spanned (cursor + count) ?E < u64_bound) \<and>
        (r = Inr () \<longrightarrow> n' = n + 1 + pages_spanned (cursor + count) ?E) \<and> n' < u64_bound \<and>
        (r = Inr () \<or> r = Inl PageIdOverflow) \<and>
        (\<exists>stop. cursor + count \<le> stop \<and> stop \<le> ?E \<and> (r = Inr () \<longrightarrow> stop = ?E) \<and>
          (\<forall>path' i. page_branch_byte b' path' i =
            (if path' = path \<and> cursor + count \<le> i \<and> i < stop then bytes ! (i - offset)
             else page_branch_byte b1 path' i)))"
        by (rule less.hyps [OF _ rest round(1)]) (use less.prems(3) bounds True fits in auto)
      then obtain stop where stop: "cursor + count \<le> stop" "stop \<le> ?E" "r = Inr () \<longrightarrow> stop = ?E"
        "\<forall>path' i. page_branch_byte b' path' i =
            (if path' = path \<and> cursor + count \<le> i \<and> i < stop then bytes ! (i - offset)
             else page_branch_byte b1 path' i)" by blast
      have "\<forall>path' i. page_branch_byte b' path' i =
          (if path' = path \<and> cursor \<le> i \<and> i < stop then bytes ! (i - offset)
           else page_branch_byte b path' i)"
        using stop(1,4) round(2) by auto
      with IH stop span bounds show ?thesis by (intro conjI exI [of _ stop]) auto
    qed
  qed
qed

text \<open>One round of the read loop: the chunk is filled with the bytes of the branch.\<close>

lemma page_branch_read_round:
  assumes wf: "page_branch_wf b" and cur: "offset \<le> cursor" "cursor < stop" "length result = stop - offset"
    and zero: "\<And>j. cursor - offset \<le> j \<Longrightarrow> j < stop - offset \<Longrightarrow> result ! j = 0"
    and count: "count = page_chunk cursor stop"
    and result1: "result1 = (case page_branch_page b (path, cursor div PAGE_SIZE) of
        Some page \<Rightarrow> copy_into result (cursor - offset)
          (bslice (cursor mod PAGE_SIZE) count (page_bytes page))
      | None \<Rightarrow> result)"
  shows "length result1 = stop - offset"
    "j < stop - offset \<Longrightarrow> result1 ! j =
      (if cursor \<le> offset + j \<and> offset + j < cursor + count
       then page_branch_byte b path (offset + j) else result ! j)"
proof -
  note bounds = page_chunk_bounds [OF cur(2), folded count]
  have byte: "page_branch_byte b path i = (case page_branch_page b (path, cursor div PAGE_SIZE) of
      None \<Rightarrow> 0 | Some page \<Rightarrow> page_bytes page ! (cursor mod PAGE_SIZE + (i - cursor)))"
    if "cursor \<le> i" "i < cursor + count" for i
    using that page_chunk_page [of cursor i stop]
    by (simp add: page_branch_byte_def count split: option.splits)
  show "length result1 = stop - offset"
    using bounds cur wf by (auto simp: result1 page_branch_wf_def split: option.splits)
  assume j: "j < stop - offset"
  show "result1 ! j = (if cursor \<le> offset + j \<and> offset + j < cursor + count
      then page_branch_byte b path (offset + j) else result ! j)"
  proof (cases "page_branch_page b (path, cursor div PAGE_SIZE)")
    case None
    then show ?thesis using j byte cur(1) zero by (auto simp: result1)
  next
    case (Some page)
    then have full: "cursor mod PAGE_SIZE + count \<le> length (page_bytes page)"
      using wf bounds(3) by (auto simp: page_branch_wf_def)
    then have plen: "length (bslice (cursor mod PAGE_SIZE) count (page_bytes page)) = count"
      by simp
    with bounds(2) cur have fits:
      "cursor - offset + length (bslice (cursor mod PAGE_SIZE) count (page_bytes page)) \<le> length result"
      by simp
    have "bslice (cursor mod PAGE_SIZE) count (page_bytes page) ! (offset + j - cursor) =
        page_bytes page ! (cursor mod PAGE_SIZE + (offset + j - cursor))"
      if "cursor \<le> offset + j" "offset + j < cursor + count"
      using that full by (intro nth_bslice) auto
    moreover have "j - (cursor - offset) = offset + j - cursor" using cur(1) by simp
    ultimately show ?thesis
      using Some j byte [of "offset + j"] plen cur(1,3) nth_copy_into [OF fits, of j]
      by (auto simp: result1)
  qed
qed

lemma page_branch_read_loop_spec:
  assumes "page_branch_wf b" "offset \<le> cursor" "cursor \<le> stop" "length result = stop - offset"
    and "\<And>j. cursor - offset \<le> j \<Longrightarrow> j < stop - offset \<Longrightarrow> result ! j = 0"
  shows "length (page_branch_read_loop b path offset stop cursor result) = stop - offset \<and>
    (\<forall>j < stop - offset. page_branch_read_loop b path offset stop cursor result ! j =
      (if offset + j < cursor then result ! j else page_branch_byte b path (offset + j)))"
  using assms
proof (induction "stop - cursor" arbitrary: cursor result rule: less_induct)
  case less
  show ?case
  proof (cases "cursor < stop")
    case False
    then show ?thesis using less.prems by (auto simp: page_branch_read_loop.simps)
  next
    case True
    define count where "count = page_chunk cursor stop"
    define result1 where "result1 = (case page_branch_page b (path, cursor div PAGE_SIZE) of
        Some page \<Rightarrow> copy_into result (cursor - offset)
          (bslice (cursor mod PAGE_SIZE) count (page_bytes page))
      | None \<Rightarrow> result)"
    note bounds = page_chunk_bounds [OF True, folded count_def]
    note round = page_branch_read_round [OF less.prems(1,2) True less.prems(4,5) count_def result1_def]
    have unfold: "page_branch_read_loop b path offset stop cursor result =
        page_branch_read_loop b path offset stop (cursor + count) result1"
      using True by (simp add: page_branch_read_loop.simps [of b path offset stop cursor]
          Let_def count_def result1_def split: option.splits)
    have IH: "length (page_branch_read_loop b path offset stop (cursor + count) result1) = stop - offset \<and>
      (\<forall>j < stop - offset. page_branch_read_loop b path offset stop (cursor + count) result1 ! j =
        (if offset + j < cursor + count then result1 ! j else page_branch_byte b path (offset + j)))"
      by (rule less.hyps) (use less.prems bounds True round in auto)
    show ?thesis unfolding unfold using IH round(2) by auto
  qed
qed

lemma page_branch_read_spec:
  assumes "page_branch_wf b"
  shows "page_branch_read b path offset len =
    (if offset + len < u64_bound then Inr (map (page_branch_byte b path) [offset..<offset + len])
     else Inl RangeOverflow)"
proof (cases "offset + len < u64_bound")
  case True
  have "page_branch_read_loop b path offset (offset + len) offset (replicate len 0) =
      map (page_branch_byte b path) [offset..<offset + len]"
    using page_branch_read_loop_spec [OF assms, of offset offset "offset + len" "replicate len 0" path]
    by (intro nth_equalityI) auto
  then show ?thesis using True by (simp add: page_branch_read_def checked_add_def)
qed (simp add: page_branch_read_def checked_add_def)

lemma page_branch_write_spec:
  assumes "page_branch_wf b" "n < u64_bound"
  shows "page_branch_write path offset bytes (b, n) = (r, (b', n')) \<Longrightarrow>
      page_branch_wf b' \<and> n' < u64_bound"
    and "n + pages_spanned offset (offset + length bytes) < u64_bound \<Longrightarrow> offset + length bytes < u64_bound \<Longrightarrow>
      \<exists>b'. page_branch_write path offset bytes (b, n) =
          (Inr (), (b', n + pages_spanned offset (offset + length bytes))) \<and>
        page_branch_wf b' \<and>
        (\<forall>path' i. page_branch_byte b' path' i =
          (if path' = path \<and> offset \<le> i \<and> i < offset + length bytes then bytes ! (i - offset)
           else page_branch_byte b path' i))"
    and "u64_bound \<le> offset + length bytes \<Longrightarrow>
      page_branch_write path offset bytes (b, n) = (Inl RangeOverflow, (b, n))"
proof -
  obtain r0 b0 n0 where loop: "page_branch_write_loop path offset bytes offset (b, n) = (r0, (b0, n0))"
    by (metis prod.exhaust)
  note spec = page_branch_write_loop_spec [OF loop assms(1) _ _ assms(2)]
  show "page_branch_wf b' \<and> n' < u64_bound"
    if "page_branch_write path offset bytes (b, n) = (r, (b', n'))"
  proof (cases "offset + length bytes < u64_bound")
    case True
    then have "(r0, (b0, n0)) = (r, (b', n'))"
      using that loop by (simp add: page_branch_write_def checked_add_def)
    then show ?thesis using spec by simp
  next
    case False
    then show ?thesis using that assms by (simp add: page_branch_write_def checked_add_def)
  qed
  show "page_branch_write path offset bytes (b, n) = (Inl RangeOverflow, (b, n))"
    if "u64_bound \<le> offset + length bytes"
    using that by (simp add: page_branch_write_def checked_add_def)
  show "\<exists>b'. page_branch_write path offset bytes (b, n) =
          (Inr (), (b', n + pages_spanned offset (offset + length bytes))) \<and>
        page_branch_wf b' \<and>
        (\<forall>path' i. page_branch_byte b' path' i =
          (if path' = path \<and> offset \<le> i \<and> i < offset + length bytes then bytes ! (i - offset)
           else page_branch_byte b path' i))"
    if "n + pages_spanned offset (offset + length bytes) < u64_bound" "offset + length bytes < u64_bound"
  proof -
    have "page_branch_write path offset bytes (b, n) = (r0, (b0, n0))"
      using that(2) loop by (simp add: page_branch_write_def checked_add_def)
    then show ?thesis using spec that(1) by auto
  qed
qed

section \<open>Page identities of a branch\<close>

lemma page_branch_fork_parts:
  "ov_wf b \<Longrightarrow> ov_wf (fst (page_branch_fork b))" "ov_wf b \<Longrightarrow> ov_wf (snd (page_branch_fork b))"
  "ov_retained (fst (page_branch_fork b)) = ov_retained b"
  "ov_retained (snd (page_branch_fork b)) = ov_retained b"
  by (simp_all add: page_branch_fork_def)

text \<open>
  The pages a write adds carry identities from the counter on; identities are not reused, so a
  page identity names one page.
\<close>

definition pages_below :: "nat \<Rightarrow> page set \<Rightarrow> bool" where
  "pages_below n P \<longleftrightarrow> (\<forall>p \<in> P. page_id p < n) \<and> inj_on page_id P"

lemma pages_below_insert:
  "pages_below n P \<Longrightarrow> page_id p = n \<Longrightarrow> pages_below (n + 1) (insert p P)"
  unfolding pages_below_def by (subst inj_on_insert) (auto simp: less_Suc_eq)

lemma pages_below_subset: "pages_below n P \<Longrightarrow> Q \<subseteq> P \<Longrightarrow> pages_below n Q"
  by (auto simp: pages_below_def intro: inj_on_subset)

lemma page_branch_write_loop_pages:
  assumes "page_branch_write_loop path offset bytes cursor (b, n) = (r, (b', n'))"
    and "ov_wf b" "pages_below n (set (ov_retained b) \<union> P)"
  shows "ov_wf b' \<and> n \<le> n' \<and> pages_below n' (set (ov_retained b') \<union> P)"
  using assms
proof (induction "offset + length bytes - cursor" arbitrary: cursor b n rule: less_induct)
  case less
  show ?case
  proof (cases "cursor < offset + length bytes \<and> n + 1 < u64_bound")
    case False
    then show ?thesis
      using less.prems by (simp add: page_branch_write_loop_step split: if_splits)
  next
    case True
    let ?b = "ov_put (path, cursor div PAGE_SIZE) (written_page b n path offset bytes cursor) b"
    have rest: "page_branch_write_loop path offset bytes
        (cursor + page_chunk cursor (offset + length bytes)) (?b, n + 1) = (r, (b', n'))"
      using less.prems(1) True by (simp only: page_branch_write_loop_step [of _ _ _ cursor] if_True)
    have "set (ov_retained ?b) \<union> P \<subseteq>
        insert (written_page b n path offset bytes cursor) (set (ov_retained b) \<union> P)"
      using set_ov_retained_put by fastforce
    then have below: "pages_below (n + 1) (set (ov_retained ?b) \<union> P)"
      by (rule pages_below_subset [OF pages_below_insert [OF less.prems(3)], rotated]) simp
    have "ov_wf b' \<and> n + 1 \<le> n' \<and> pages_below n' (set (ov_retained b') \<union> P)"
      using True page_chunk_bounds [of cursor "offset + length bytes"] less.prems(2)
      by (intro less.hyps [OF _ rest _ below] diff_less_mono2) simp_all
    then show ?thesis by simp
  qed
qed

lemma page_branch_write_pages:
  assumes "page_branch_write path offset bytes (b, n) = (r, (b', n'))"
    and "ov_wf b" "pages_below n (set (ov_retained b) \<union> P)"
  shows "ov_wf b' \<and> n \<le> n' \<and> pages_below n' (set (ov_retained b') \<union> P)"
proof (cases "offset + length bytes < u64_bound")
  case True
  then show ?thesis
    using assms by (intro page_branch_write_loop_pages [of path offset bytes offset])
      (simp_all add: page_branch_write_def checked_add_def)
next
  case False
  then show ?thesis using assms by (simp add: page_branch_write_def checked_add_def)
qed

end
