(* ===== verification/ForkForest.thy ===== *)
theory ForkForest
  imports PageBranch
begin

text \<open>
  \<^verbatim>\<open>ForkForest\<close> of \<^verbatim>\<open>minidox-fork/src/lib.rs\<close>: VMs that own a memory and a filesystem branch,
  atomic forks of both, and page accounting. The forest refines a specification in which every
  VM owns private byte arrays and a fork copies them.
\<close>

section \<open>State and operations\<close>

record vm_state =
  vs_memory :: page_branch
  vs_filesystem :: page_branch

record fork_forest =
  ff_next_vm :: nat
  ff_next_page :: nat
  ff_vms :: "(vm_id, vm_state) bmap"

record space_accounting =
  resident_pages :: nat
  shared_pages :: nat

record forest_accounting =
  acc_memory :: space_accounting
  acc_filesystem :: space_accounting

definition forest_new :: fork_forest where
  "forest_new = \<lparr>ff_next_vm = 1, ff_next_page = 1, ff_vms = []\<rparr>"

definition forest_create_vm :: "fork_forest \<Rightarrow> vm_id \<times> fork_forest" where
  "forest_create_vm f =
    (let i = VmId (ff_next_vm f)
     in (i, f\<lparr>ff_next_vm := u64_succ (ff_next_vm f),
              ff_vms := bm_insert i \<lparr>vs_memory = ov_empty, vs_filesystem = ov_empty\<rparr> (ff_vms f)\<rparr>))"

definition forest_fork_vm :: "vm_id \<Rightarrow> (fork_forest, fork_error, vm_id) meth" where
  "forest_fork_vm source f =
    (case map_of (ff_vms f) source of
      None \<Rightarrow> (Inl (VmNotFound source), f)
    | Some source_vm \<Rightarrow>
        let (memory, child_memory) = page_branch_fork (vs_memory source_vm);
            (filesystem, child_filesystem) = page_branch_fork (vs_filesystem source_vm);
            child = VmId (ff_next_vm f)
        in (Inr child, f\<lparr>ff_next_vm := u64_succ (ff_next_vm f),
             ff_vms := bm_insert child \<lparr>vs_memory = child_memory, vs_filesystem = child_filesystem\<rparr>
               (bm_insert source \<lparr>vs_memory = memory, vs_filesystem = filesystem\<rparr> (ff_vms f))\<rparr>))"

definition forest_remove_vm :: "vm_id \<Rightarrow> (fork_forest, fork_error, unit) meth" where
  "forest_remove_vm vm f =
    (case map_of (ff_vms f) vm of
      None \<Rightarrow> (Inl (VmNotFound vm), f)
    | Some _ \<Rightarrow> (Inr (), f\<lparr>ff_vms := bm_remove vm (ff_vms f)\<rparr>))"

definition forest_write_file ::
  "vm_id \<Rightarrow> string \<Rightarrow> nat \<Rightarrow> bytes \<Rightarrow> (fork_forest, fork_error, unit) meth" where
  "forest_write_file vm path offset bytes f =
    (case map_of (ff_vms f) vm of
      None \<Rightarrow> (Inl (VmNotFound vm), f)
    | Some v \<Rightarrow>
        (case page_branch_write path offset bytes (vs_filesystem v, ff_next_page f) of
          (r, (b, next_page)) \<Rightarrow>
            (r, f\<lparr>ff_next_page := next_page,
                  ff_vms := bm_insert vm (v\<lparr>vs_filesystem := b\<rparr>) (ff_vms f)\<rparr>)))"

definition forest_read_file ::
  "fork_forest \<Rightarrow> vm_id \<Rightarrow> string \<Rightarrow> nat \<Rightarrow> nat \<Rightarrow> fork_error + bytes" where
  "forest_read_file f vm path offset len =
    (case map_of (ff_vms f) vm of
      None \<Rightarrow> Inl (VmNotFound vm)
    | Some v \<Rightarrow> page_branch_read (vs_filesystem v) path offset len)"

definition forest_write_memory ::
  "vm_id \<Rightarrow> nat \<Rightarrow> bytes \<Rightarrow> (fork_forest, fork_error, unit) meth" where
  "forest_write_memory vm guest_address bytes f =
    (case map_of (ff_vms f) vm of
      None \<Rightarrow> (Inl (VmNotFound vm), f)
    | Some v \<Rightarrow>
        (case page_branch_write '''' guest_address bytes (vs_memory v, ff_next_page f) of
          (r, (b, next_page)) \<Rightarrow>
            (r, f\<lparr>ff_next_page := next_page,
                  ff_vms := bm_insert vm (v\<lparr>vs_memory := b\<rparr>) (ff_vms f)\<rparr>)))"

definition forest_read_memory :: "fork_forest \<Rightarrow> vm_id \<Rightarrow> nat \<Rightarrow> nat \<Rightarrow> fork_error + bytes" where
  "forest_read_memory f vm guest_address len =
    (case map_of (ff_vms f) vm of
      None \<Rightarrow> Inl (VmNotFound vm)
    | Some v \<Rightarrow> page_branch_read (vs_memory v) '''' guest_address len)"

text \<open>
  The body of the inner loop of \<open>account_pages\<close>: the pages already met in this VM, and the
  number of VMs that see each page.
\<close>

fun account_visible :: "page \<Rightarrow> nat list \<times> (nat, nat) bmap \<Rightarrow> nat list \<times> (nat, nat) bmap" where
  "account_visible page (pages_in_vm, references) =
    (if page_id page \<in> set pages_in_vm then (pages_in_vm, references)
     else (insort_insert (page_id page) pages_in_vm, bm_incr (page_id page) references))"

definition account_branch :: "page_branch \<Rightarrow> nat list \<times> (nat, nat) bmap \<Rightarrow> nat list \<times> (nat, nat) bmap" where
  "account_branch b acc =
    (page_branch_add_retained_page_ids b (fst acc),
     snd (fold account_visible (bm_values (page_branch_visible_pages b)) ([], snd acc)))"

definition account_pages :: "page_branch list \<Rightarrow> space_accounting" where
  "account_pages branches =
    (let (resident, references) = fold account_branch branches ([], [])
     in \<lparr>resident_pages = length resident,
         shared_pages = length (filter (\<lambda>count. count > 1) (bm_values references))\<rparr>)"

definition forest_page_accounting :: "fork_forest \<Rightarrow> forest_accounting" where
  "forest_page_accounting f =
    \<lparr>acc_memory = account_pages (map vs_memory (bm_values (ff_vms f))),
     acc_filesystem = account_pages (map vs_filesystem (bm_values (ff_vms f)))\<rparr>"

section \<open>The invariant\<close>

definition forest_pages :: "fork_forest \<Rightarrow> page set" where
  "forest_pages f = (\<Union>v \<in> set (bm_values (ff_vms f)).
     set (ov_retained (vs_memory v)) \<union> set (ov_retained (vs_filesystem v)))"

definition vm_state_wf :: "vm_state \<Rightarrow> bool" where
  "vm_state_wf v \<longleftrightarrow> page_branch_wf (vs_memory v) \<and> ov_wf (vs_memory v) \<and>
     page_branch_wf (vs_filesystem v) \<and> ov_wf (vs_filesystem v)"

definition forest_wf :: "fork_forest \<Rightarrow> bool" where
  "forest_wf f \<longleftrightarrow> bm_wf (ff_vms f) \<and> ff_next_page f < u64_bound \<and>
     (\<forall>vm v. map_of (ff_vms f) vm = Some v \<longrightarrow> vm_raw vm < ff_next_vm f \<and> vm_state_wf v) \<and>
     pages_below (ff_next_page f) (forest_pages f)"

lemma forest_wf_new: "forest_wf forest_new"
  by (simp add: forest_wf_def forest_new_def forest_pages_def pages_below_def u64_bound_def)

lemma forest_pages_of:
  "bm_wf (ff_vms f) \<Longrightarrow> forest_pages f = (\<Union>v \<in> ran (map_of (ff_vms f)).
     set (ov_retained (vs_memory v)) \<union> set (ov_retained (vs_filesystem v)))"
  by (simp add: forest_pages_def bm_values_ran [symmetric])

lemma forest_wf_update:
  assumes "forest_wf f" "map_of (ff_vms f) vm = Some v" "vm_state_wf v'"
    and "n < u64_bound"
    and "pages_below n (set (ov_retained (vs_memory v')) \<union> set (ov_retained (vs_filesystem v')) \<union> forest_pages f)"
  shows "forest_wf (f\<lparr>ff_next_page := n, ff_vms := bm_insert vm v' (ff_vms f)\<rparr>)" (is "forest_wf ?f")
proof -
  have bm: "bm_wf (ff_vms f)" using assms(1) by (simp add: forest_wf_def)
  have "forest_pages ?f \<subseteq> set (ov_retained (vs_memory v')) \<union> set (ov_retained (vs_filesystem v')) \<union> forest_pages f"
    using bm by (auto simp: forest_pages_of ran_def split: if_splits)
  then have "pages_below n (forest_pages ?f)" by (rule pages_below_subset [OF assms(5)])
  with assms bm show ?thesis by (auto simp: forest_wf_def)
qed

section \<open>Calls, replies and the copying specification\<close>

datatype forest_call =
    CreateVm
  | ForkVm vm_id
  | RemoveVm vm_id
  | WriteFile vm_id string nat bytes
  | ReadFile vm_id string nat nat
  | WriteMemory vm_id nat bytes
  | ReadMemory vm_id nat nat

datatype forest_reply = NewVm vm_id | Done | Contents bytes | Failed fork_error

definition reply_of :: "('a \<Rightarrow> forest_reply) \<Rightarrow> fork_error + 'a \<Rightarrow> forest_reply" where
  "reply_of g r = (case r of Inl e \<Rightarrow> Failed e | Inr x \<Rightarrow> g x)"

fun forest_step :: "forest_call \<Rightarrow> fork_forest \<Rightarrow> forest_reply \<times> fork_forest" where
  "forest_step CreateVm f = map_prod NewVm id (forest_create_vm f)"
| "forest_step (ForkVm vm) f = map_prod (reply_of NewVm) id (forest_fork_vm vm f)"
| "forest_step (RemoveVm vm) f = map_prod (reply_of (\<lambda>_. Done)) id (forest_remove_vm vm f)"
| "forest_step (WriteFile vm path offset bytes) f =
    map_prod (reply_of (\<lambda>_. Done)) id (forest_write_file vm path offset bytes f)"
| "forest_step (ReadFile vm path offset len) f =
    (reply_of Contents (forest_read_file f vm path offset len), f)"
| "forest_step (WriteMemory vm guest_address bytes) f =
    map_prod (reply_of (\<lambda>_. Done)) id (forest_write_memory vm guest_address bytes f)"
| "forest_step (ReadMemory vm guest_address len) f =
    (reply_of Contents (forest_read_memory f vm guest_address len), f)"

fun forest_run :: "forest_call list \<Rightarrow> fork_forest \<Rightarrow> forest_reply list \<times> fork_forest" where
  "forest_run [] f = ([], f)"
| "forest_run (c # cs) f =
    (let (r, f') = forest_step c f; (rs, f'') = forest_run cs f' in (r # rs, f''))"

text \<open>
  The specification: a VM is two byte arrays, one for its memory and one per path, that nobody
  else has; a fork copies both.
\<close>

type_synonym private_vm = "(nat \<Rightarrow> byte) \<times> (string \<Rightarrow> nat \<Rightarrow> byte)"
type_synonym private_vms = "nat \<times> (vm_id \<rightharpoonup> private_vm)"

definition array_write :: "nat \<Rightarrow> bytes \<Rightarrow> (nat \<Rightarrow> byte) \<Rightarrow> nat \<Rightarrow> byte" where
  "array_write offset bytes a i =
    (if offset \<le> i \<and> i < offset + length bytes then bytes ! (i - offset) else a i)"

definition array_read :: "nat \<Rightarrow> nat \<Rightarrow> (nat \<Rightarrow> byte) \<Rightarrow> bytes" where
  "array_read offset len a = map a [offset..<offset + len]"

fun private_step :: "forest_call \<Rightarrow> private_vms \<Rightarrow> forest_reply \<times> private_vms" where
  "private_step CreateVm (n, vms) =
    (NewVm (VmId n), (n + 1, vms(VmId n \<mapsto> (\<lambda>_. 0, \<lambda>_ _. 0))))"
| "private_step (ForkVm vm) (n, vms) =
    (case vms vm of
      None \<Rightarrow> (Failed (VmNotFound vm), (n, vms))
    | Some v \<Rightarrow> (NewVm (VmId n), (n + 1, vms(VmId n \<mapsto> v))))"
| "private_step (RemoveVm vm) (n, vms) =
    (case vms vm of
      None \<Rightarrow> (Failed (VmNotFound vm), (n, vms))
    | Some _ \<Rightarrow> (Done, (n, vms(vm := None))))"
| "private_step (WriteFile vm path offset bytes) (n, vms) =
    (case vms vm of
      None \<Rightarrow> (Failed (VmNotFound vm), (n, vms))
    | Some (mem, files) \<Rightarrow>
        if offset + length bytes < u64_bound
        then (Done, (n, vms(vm \<mapsto> (mem, files(path := array_write offset bytes (files path))))))
        else (Failed RangeOverflow, (n, vms)))"
| "private_step (ReadFile vm path offset len) (n, vms) =
    (case vms vm of
      None \<Rightarrow> (Failed (VmNotFound vm), (n, vms))
    | Some (mem, files) \<Rightarrow>
        if offset + len < u64_bound then (Contents (array_read offset len (files path)), (n, vms))
        else (Failed RangeOverflow, (n, vms)))"
| "private_step (WriteMemory vm offset bytes) (n, vms) =
    (case vms vm of
      None \<Rightarrow> (Failed (VmNotFound vm), (n, vms))
    | Some (mem, files) \<Rightarrow>
        if offset + length bytes < u64_bound
        then (Done, (n, vms(vm \<mapsto> (array_write offset bytes mem, files))))
        else (Failed RangeOverflow, (n, vms)))"
| "private_step (ReadMemory vm offset len) (n, vms) =
    (case vms vm of
      None \<Rightarrow> (Failed (VmNotFound vm), (n, vms))
    | Some (mem, files) \<Rightarrow>
        if offset + len < u64_bound then (Contents (array_read offset len mem), (n, vms))
        else (Failed RangeOverflow, (n, vms)))"

fun private_run :: "forest_call list \<Rightarrow> private_vms \<Rightarrow> forest_reply list \<times> private_vms" where
  "private_run [] s = ([], s)"
| "private_run (c # cs) s =
    (let (r, s') = private_step c s; (rs, s'') = private_run cs s' in (r # rs, s''))"

definition vm_private :: "vm_state \<Rightarrow> private_vm" where
  "vm_private v = (page_branch_byte (vs_memory v) '''', page_branch_byte (vs_filesystem v))"

definition forest_private :: "fork_forest \<Rightarrow> private_vms" where
  "forest_private f = (ff_next_vm f, \<lambda>vm. map_option vm_private (map_of (ff_vms f) vm))"

text \<open>The page identities a call may use up.\<close>

fun call_pages :: "forest_call \<Rightarrow> nat" where
  "call_pages (WriteFile vm path offset bytes) = pages_spanned offset (offset + length bytes)"
| "call_pages (WriteMemory vm offset bytes) = pages_spanned offset (offset + length bytes)"
| "call_pages _ = 0"

section \<open>Refinement\<close>

lemma page_branch_writes_array:
  assumes "page_branch_wf b" "n + pages_spanned offset (offset + length bytes) < u64_bound"
    "offset + length bytes < u64_bound"
  obtains b' where "page_branch_write path offset bytes (b, n) =
      (Inr (), (b', n + pages_spanned offset (offset + length bytes)))"
    "page_branch_byte b' = (page_branch_byte b)(path := array_write offset bytes (page_branch_byte b path))"
proof -
  have "n < u64_bound" using assms(2) by simp
  with page_branch_write_spec(2) [of b n offset bytes path] assms obtain b' where
    "page_branch_write path offset bytes (b, n) =
      (Inr (), (b', n + pages_spanned offset (offset + length bytes)))"
    "\<forall>path' i. page_branch_byte b' path' i =
        (if path' = path \<and> offset \<le> i \<and> i < offset + length bytes then bytes ! (i - offset)
         else page_branch_byte b path' i)" by blast
  then show thesis by (intro that [of b']) (auto simp: fun_eq_iff array_write_def)
qed

lemma forest_wf_D:
  assumes "forest_wf f" "map_of (ff_vms f) vm = Some v"
  shows "page_branch_wf (vs_memory v)" "page_branch_wf (vs_filesystem v)" "ov_wf (vs_memory v)"
    "ov_wf (vs_filesystem v)" "vm_raw vm < ff_next_vm f" "ff_next_page f < u64_bound"
    "set (ov_retained (vs_memory v)) \<subseteq> forest_pages f"
    "set (ov_retained (vs_filesystem v)) \<subseteq> forest_pages f"
    "pages_below (ff_next_page f) (forest_pages f)"
  using assms unfolding forest_wf_def
  by (auto simp: vm_state_wf_def forest_pages_of ran_def)

lemma forest_step_write_file:
  assumes wf: "forest_wf f" and room: "ff_next_page f + pages_spanned offset (offset + length bytes) < u64_bound"
    and step: "forest_step (WriteFile vm path offset bytes) f = (r, f')"
  shows "private_step (WriteFile vm path offset bytes) (forest_private f) = (r, forest_private f')"
    "ff_next_page f' \<le> ff_next_page f + pages_spanned offset (offset + length bytes)"
proof -
  have "private_step (WriteFile vm path offset bytes) (forest_private f) = (r, forest_private f') \<and>
    ff_next_page f' \<le> ff_next_page f + pages_spanned offset (offset + length bytes)"
  proof (cases "map_of (ff_vms f) vm")
    case None
    then show ?thesis using step by (auto simp: forest_write_file_def forest_private_def reply_of_def)
  next
    case (Some v)
    note v = forest_wf_D [OF wf Some]
    show ?thesis
    proof (cases "offset + length bytes < u64_bound")
      case True
      obtain b' where b': "page_branch_write path offset bytes (vs_filesystem v, ff_next_page f) =
          (Inr (), (b', ff_next_page f + pages_spanned offset (offset + length bytes)))"
        "page_branch_byte b' = (page_branch_byte (vs_filesystem v))
           (path := array_write offset bytes (page_branch_byte (vs_filesystem v) path))"
        by (rule page_branch_writes_array [OF v(2) room True])
      then show ?thesis using Some True step
        by (auto simp: forest_write_file_def forest_private_def reply_of_def vm_private_def fun_eq_iff)
    next
      case False
      then show ?thesis using Some step page_branch_write_spec(3) [OF v(2) v(6), of offset bytes path]
        by (auto simp: forest_write_file_def forest_private_def reply_of_def vm_private_def fun_eq_iff)
    qed
  qed
  then show "private_step (WriteFile vm path offset bytes) (forest_private f) = (r, forest_private f')"
    "ff_next_page f' \<le> ff_next_page f + pages_spanned offset (offset + length bytes)" by blast+
qed

lemma forest_step_write_memory:
  assumes wf: "forest_wf f" and room: "ff_next_page f + pages_spanned offset (offset + length bytes) < u64_bound"
    and step: "forest_step (WriteMemory vm offset bytes) f = (r, f')"
  shows "private_step (WriteMemory vm offset bytes) (forest_private f) = (r, forest_private f')"
    "ff_next_page f' \<le> ff_next_page f + pages_spanned offset (offset + length bytes)"
proof -
  have "private_step (WriteMemory vm offset bytes) (forest_private f) = (r, forest_private f') \<and>
    ff_next_page f' \<le> ff_next_page f + pages_spanned offset (offset + length bytes)"
  proof (cases "map_of (ff_vms f) vm")
    case None
    then show ?thesis using step by (auto simp: forest_write_memory_def forest_private_def reply_of_def)
  next
    case (Some v)
    note v = forest_wf_D [OF wf Some]
    show ?thesis
    proof (cases "offset + length bytes < u64_bound")
      case True
      obtain b' where b': "page_branch_write '''' offset bytes (vs_memory v, ff_next_page f) =
          (Inr (), (b', ff_next_page f + pages_spanned offset (offset + length bytes)))"
        "page_branch_byte b' = (page_branch_byte (vs_memory v))
           ('''' := array_write offset bytes (page_branch_byte (vs_memory v) ''''))"
        by (rule page_branch_writes_array [OF v(1) room True])
      then show ?thesis using Some True step
        by (auto simp: forest_write_memory_def forest_private_def reply_of_def vm_private_def fun_eq_iff)
    next
      case False
      then show ?thesis using Some step page_branch_write_spec(3) [OF v(1) v(6), of offset bytes "''''"]
        by (auto simp: forest_write_memory_def forest_private_def reply_of_def vm_private_def fun_eq_iff)
    qed
  qed
  then show "private_step (WriteMemory vm offset bytes) (forest_private f) = (r, forest_private f')"
    "ff_next_page f' \<le> ff_next_page f + pages_spanned offset (offset + length bytes)" by blast+
qed

lemma vm_private_fork [simp]:
  "vm_private \<lparr>vs_memory = fst (page_branch_fork (vs_memory v)),
     vs_filesystem = fst (page_branch_fork (vs_filesystem v))\<rparr> = vm_private v"
  "vm_private \<lparr>vs_memory = snd (page_branch_fork (vs_memory v)),
     vs_filesystem = snd (page_branch_fork (vs_filesystem v))\<rparr> = vm_private v"
  by (simp_all add: vm_private_def)

lemma forest_step_refines:
  assumes "forest_wf f" "ff_next_vm f + 1 < u64_bound" "ff_next_page f + call_pages c < u64_bound"
    and "forest_step c f = (r, f')"
  shows "private_step c (forest_private f) = (r, forest_private f')"
proof (cases c)
  case (WriteFile vm path offset bytes)
  then show ?thesis using forest_step_write_file(1) assms by simp
next
  case (WriteMemory vm offset bytes)
  then show ?thesis using forest_step_write_memory(1) assms by simp
next
  case CreateVm
  then show ?thesis using assms
    by (auto simp: forest_create_vm_def forest_private_def Let_def u64_succ_small vm_private_def fun_eq_iff)
next
  case (ForkVm vm)
  then show ?thesis using assms
    by (auto simp: forest_fork_vm_def forest_private_def reply_of_def u64_succ_small split_beta Let_def
        fun_eq_iff split: option.splits)
next
  case (RemoveVm vm)
  then show ?thesis using assms
    by (auto simp: forest_remove_vm_def forest_private_def reply_of_def fun_eq_iff split: option.splits)
next
  case (ReadFile vm path offset len)
  then show ?thesis using assms forest_wf_D(2) [OF assms(1)]
    by (auto simp: forest_read_file_def forest_private_def reply_of_def page_branch_read_spec
        vm_private_def array_read_def split: option.splits)
next
  case (ReadMemory vm offset len)
  then show ?thesis using assms forest_wf_D(1) [OF assms(1)]
    by (auto simp: forest_read_memory_def forest_private_def reply_of_def page_branch_read_spec
        vm_private_def array_read_def split: option.splits)
qed

lemma vm_state_wf_empty: "vm_state_wf \<lparr>vs_memory = ov_empty, vs_filesystem = ov_empty\<rparr>"
  by (simp add: vm_state_wf_def)

lemma vm_state_wf_fork:
  assumes "vm_state_wf v"
  shows "vm_state_wf \<lparr>vs_memory = fst (page_branch_fork (vs_memory v)),
      vs_filesystem = fst (page_branch_fork (vs_filesystem v))\<rparr>"
    "vm_state_wf \<lparr>vs_memory = snd (page_branch_fork (vs_memory v)),
      vs_filesystem = snd (page_branch_fork (vs_filesystem v))\<rparr>"
  using assms by (simp_all add: vm_state_wf_def page_branch_fork_parts)

lemma forest_wf_write_file:
  assumes wf: "forest_wf f"
  shows "forest_wf (snd (forest_write_file vm path offset bytes f))"
proof (cases "map_of (ff_vms f) vm")
  case (Some v)
  note v = forest_wf_D [OF wf Some]
  obtain r b n where w: "page_branch_write path offset bytes (vs_filesystem v, ff_next_page f) = (r, (b, n))"
    by (metis prod.exhaust)
  have below: "pages_below (ff_next_page f) (set (ov_retained (vs_filesystem v)) \<union> forest_pages f)"
    using v(8,9) by (simp add: Un_absorb1)
  note pages = page_branch_write_pages [OF w v(4) below]
  have "pages_below n (set (ov_retained (vs_memory v)) \<union> set (ov_retained b) \<union> forest_pages f)"
    using pages v(7) by (elim conjE pages_below_subset) auto
  then have "forest_wf (f\<lparr>ff_next_page := n, ff_vms := bm_insert vm (v\<lparr>vs_filesystem := b\<rparr>) (ff_vms f)\<rparr>)"
    using page_branch_write_spec(1) [OF v(2,6) w] pages v
    by (intro forest_wf_update [OF wf Some]) (simp_all add: vm_state_wf_def)
  then show ?thesis using Some w by (simp add: forest_write_file_def)
qed (use wf in \<open>simp add: forest_write_file_def\<close>)

lemma forest_wf_write_memory:
  assumes wf: "forest_wf f"
  shows "forest_wf (snd (forest_write_memory vm offset bytes f))"
proof (cases "map_of (ff_vms f) vm")
  case (Some v)
  note v = forest_wf_D [OF wf Some]
  obtain r b n where w: "page_branch_write '''' offset bytes (vs_memory v, ff_next_page f) = (r, (b, n))"
    by (metis prod.exhaust)
  have below: "pages_below (ff_next_page f) (set (ov_retained (vs_memory v)) \<union> forest_pages f)"
    using v(7,9) by (simp add: Un_absorb1)
  note pages = page_branch_write_pages [OF w v(3) below]
  have "pages_below n (set (ov_retained b) \<union> set (ov_retained (vs_filesystem v)) \<union> forest_pages f)"
    using pages v(8) by (elim conjE pages_below_subset) auto
  then have "forest_wf (f\<lparr>ff_next_page := n, ff_vms := bm_insert vm (v\<lparr>vs_memory := b\<rparr>) (ff_vms f)\<rparr>)"
    using page_branch_write_spec(1) [OF v(1,6) w] pages v
    by (intro forest_wf_update [OF wf Some]) (simp_all add: vm_state_wf_def)
  then show ?thesis using Some w by (simp add: forest_write_memory_def)
qed (use wf in \<open>simp add: forest_write_memory_def\<close>)

text \<open>Adding a VM under the next identity, after possibly re-sealing existing branches.\<close>

lemma forest_wf_create:
  assumes wf: "forest_wf f" and "ff_next_vm f + 1 < u64_bound"
  shows "forest_wf (snd (forest_create_vm f))"
proof -
  let ?f = "snd (forest_create_vm f)"
  have vms: "ff_vms ?f = bm_insert (VmId (ff_next_vm f)) \<lparr>vs_memory = ov_empty, vs_filesystem = ov_empty\<rparr> (ff_vms f)"
    "ff_next_page ?f = ff_next_page f" "ff_next_vm ?f = ff_next_vm f + 1"
    using assms(2) by (simp_all add: forest_create_vm_def Let_def u64_succ_small)
  have bm: "bm_wf (ff_vms f)" using wf by (simp add: forest_wf_def)
  have "forest_pages ?f \<subseteq> forest_pages f"
    using bm by (auto simp: forest_pages_of vms ran_def ov_empty_def ov_retained_def gen_empty_def split: if_splits)
  then have "pages_below (ff_next_page ?f) (forest_pages ?f)"
    using wf by (auto simp: forest_wf_def vms elim: pages_below_subset)
  then show ?thesis
    using wf bm by (auto simp: forest_wf_def vms vm_state_wf_empty less_Suc_eq split: if_splits)
qed

lemma forest_wf_fork:
  assumes wf: "forest_wf f" and "ff_next_vm f + 1 < u64_bound"
  shows "forest_wf (snd (forest_fork_vm source f))"
proof (cases "map_of (ff_vms f) source")
  case (Some v)
  let ?f = "snd (forest_fork_vm source f)"
  let ?self = "\<lparr>vs_memory = fst (page_branch_fork (vs_memory v)), vs_filesystem = fst (page_branch_fork (vs_filesystem v))\<rparr>"
  let ?child = "\<lparr>vs_memory = snd (page_branch_fork (vs_memory v)), vs_filesystem = snd (page_branch_fork (vs_filesystem v))\<rparr>"
  note v = forest_wf_D [OF wf Some]
  have vms: "ff_vms ?f = bm_insert (VmId (ff_next_vm f)) ?child (bm_insert source ?self (ff_vms f))"
    "ff_next_page ?f = ff_next_page f" "ff_next_vm ?f = ff_next_vm f + 1"
    using assms(2) Some by (simp_all add: forest_fork_vm_def Let_def split_beta u64_succ_small)
  have bm: "bm_wf (ff_vms f)" using wf by (simp add: forest_wf_def)
  have "forest_pages ?f \<subseteq> forest_pages f"
    using bm v(7,8) by (auto simp: forest_pages_of vms ran_def page_branch_fork_parts split: if_splits)
  then have "pages_below (ff_next_page ?f) (forest_pages ?f)"
    using wf by (auto simp: forest_wf_def vms elim: pages_below_subset)
  moreover have "vm_state_wf v" using wf Some by (simp add: forest_wf_def)
  ultimately show ?thesis
    using wf bm v(5) by (auto simp: forest_wf_def vms vm_state_wf_fork less_Suc_eq split: if_splits)
qed (use wf in \<open>simp add: forest_fork_vm_def\<close>)

lemma forest_wf_remove:
  assumes wf: "forest_wf f"
  shows "forest_wf (snd (forest_remove_vm vm f))"
proof (cases "map_of (ff_vms f) vm")
  case (Some v)
  let ?f = "f\<lparr>ff_vms := bm_remove vm (ff_vms f)\<rparr>"
  have bm: "bm_wf (ff_vms f)" using wf by (simp add: forest_wf_def)
  have "forest_pages ?f \<subseteq> forest_pages f"
    using bm by (auto simp: forest_pages_of ran_def split: if_splits)
  then have "pages_below (ff_next_page ?f) (forest_pages ?f)"
    using wf by (auto simp: forest_wf_def elim: pages_below_subset)
  then show ?thesis using wf bm Some by (auto simp: forest_wf_def forest_remove_vm_def split: if_splits)
qed (use wf in \<open>simp add: forest_remove_vm_def\<close>)

lemma forest_wf_step:
  assumes "forest_wf f" "ff_next_vm f + 1 < u64_bound" "forest_step c f = (r, f')"
  shows "forest_wf f'"
proof -
  have "f' = snd (forest_step c f)" using assms(3) by simp
  then show ?thesis
    using assms(1,2)
    by (cases c) (simp_all add: forest_wf_create forest_wf_fork forest_wf_remove
        forest_wf_write_file forest_wf_write_memory)
qed

lemma forest_step_counters:
  assumes "forest_wf f" "ff_next_vm f + 1 < u64_bound" "ff_next_page f + call_pages c < u64_bound"
    and "forest_step c f = (r, f')"
  shows "ff_next_vm f' \<le> ff_next_vm f + 1" "ff_next_page f' \<le> ff_next_page f + call_pages c"
proof -
  have "ff_next_vm f' \<le> ff_next_vm f + 1 \<and> ff_next_page f' \<le> ff_next_page f + call_pages c"
  proof (cases c)
    case (WriteFile vm path offset bytes)
    then show ?thesis using forest_step_write_file(2) [OF assms(1)] assms(3,4)
      by (auto simp: forest_write_file_def split: option.splits prod.splits)
  next
    case (WriteMemory vm offset bytes)
    then show ?thesis using forest_step_write_memory(2) [OF assms(1)] assms(3,4)
      by (auto simp: forest_write_memory_def split: option.splits prod.splits)
  qed (use assms(2,4) in \<open>auto simp: forest_create_vm_def forest_fork_vm_def forest_remove_vm_def
      u64_succ_small split_beta Let_def split: option.splits\<close>)
  then show "ff_next_vm f' \<le> ff_next_vm f + 1" "ff_next_page f' \<le> ff_next_page f + call_pages c"
    by blast+
qed

lemma forest_run_refines:
  assumes "forest_wf f" "ff_next_vm f + length cs < u64_bound"
    "ff_next_page f + sum_list (map call_pages cs) < u64_bound"
    and "forest_run cs f = (rs, f')"
  shows "private_run cs (forest_private f) = (rs, forest_private f') \<and> forest_wf f'"
  using assms
proof (induction cs arbitrary: f rs)
  case (Cons c cs)
  obtain r f1 where step: "forest_step c f = (r, f1)" by (metis prod.exhaust)
  obtain rs1 where run: "forest_run cs f1 = (rs1, f')" and rs: "rs = r # rs1"
    using Cons.prems(4) step by (auto simp: Let_def split: prod.splits)
  have room: "ff_next_vm f + 1 < u64_bound" "ff_next_page f + call_pages c < u64_bound"
    using Cons.prems(2,3) by simp_all
  note counters = forest_step_counters [OF Cons.prems(1) room step]
  have "private_run cs (forest_private f1) = (rs1, forest_private f') \<and> forest_wf f'"
    by (rule Cons.IH [OF forest_wf_step [OF Cons.prems(1) room(1) step] _ _ run])
      (use counters Cons.prems(2,3) in simp_all)
  then show ?case
    using forest_step_refines [OF Cons.prems(1) room step] rs by simp
qed simp

section \<open>Accounting\<close>

abbreviation retained_ids :: "page_branch \<Rightarrow> nat set" where
  "retained_ids b \<equiv> page_id ` set (ov_retained b)"

abbreviation visible_ids :: "page_branch \<Rightarrow> nat set" where
  "visible_ids b \<equiv> page_id ` ran (page_branch_page b)"

lemma visible_ids_retained: "visible_ids b \<subseteq> retained_ids b"
  by (auto simp: ran_def page_branch_page_def dest!: ov_get_retained)

lemma account_visible_fold:
  assumes "fold account_visible ps (seen, refs) = (seen', refs')" "bm_wf refs"
  shows "bm_wf refs' \<and> bm_count refs' i =
    bm_count refs i + (if i \<in> page_id ` set ps - set seen then 1 else 0)"
  using assms
proof (induction ps arbitrary: seen refs)
  case (Cons p ps)
  show ?case
  proof (cases "page_id p \<in> set seen")
    case True
    then show ?thesis using Cons.IH [of seen refs] Cons.prems by auto
  next
    case False
    have inc: "bm_wf (bm_incr (page_id p) refs)" using Cons.prems(2) by (simp add: bm_incr_def)
    show ?thesis
      using Cons.IH [OF _ inc, of "insort_insert (page_id p) seen"] Cons.prems(1) False
      by (auto simp: set_insort_insert bm_count_def)
  qed
qed simp

lemma account_branch_fold:
  assumes "fold account_branch bs (res, refs) = (res', refs')" "bm_wf refs" "distinct res"
    and "\<forall>b \<in> set bs. ov_wf b"
  shows "distinct res' \<and> set res' = set res \<union> (\<Union>b \<in> set bs. retained_ids b) \<and> bm_wf refs' \<and>
    bm_count refs' i = bm_count refs i + length (filter (\<lambda>b. i \<in> visible_ids b) bs)"
  using assms
proof (induction bs arbitrary: res refs)
  case (Cons b bs)
  obtain seen refs1 where fold1: "fold account_visible (bm_values (ov_visible b)) ([], refs) = (seen, refs1)"
    by (metis prod.exhaust)
  note one = account_visible_fold [OF fold1 Cons.prems(2), of i]
  have vis: "page_id ` set (bm_values (ov_visible b)) = visible_ids b"
    using Cons.prems(4) by (subst bm_values_ran) (auto simp: bm_wf_ov_visible map_of_ov_visible page_branch_page_def [abs_def])
  let ?res = "page_branch_add_retained_page_ids b res"
  have res: "distinct ?res" "set ?res = retained_ids b \<union> set res"
    using Cons.prems(3)
    by (simp_all add: page_branch_add_retained_page_ids_def set_fold_insort_insert distinct_fold_insort_insert)
  have "fold account_branch bs (?res, refs1) = (res', refs')"
    using Cons.prems(1) fold1 account_branch_def [of b "(res, refs)"]
    by (simp add: page_branch_visible_pages_def)
  from Cons.IH [OF this conjunct1 [OF one] res(1)] Cons.prems(4) one res(2) show ?case
    unfolding vis by auto
qed simp

lemma account_pages_spec:
  assumes "\<forall>b \<in> set bs. ov_wf b"
  shows "resident_pages (account_pages bs) = card (\<Union>b \<in> set bs. retained_ids b)"
    "shared_pages (account_pages bs) = card {i. 1 < length (filter (\<lambda>b. i \<in> visible_ids b) bs)}"
proof -
  obtain res refs where run: "fold account_branch bs ([], []) = (res, refs)" by (metis prod.exhaust)
  note spec = account_branch_fold [OF run _ _ assms]
  have "length res = card (\<Union>b \<in> set bs. retained_ids b)"
    using spec distinct_card [of res] by simp
  then show "resident_pages (account_pages bs) = card (\<Union>b \<in> set bs. retained_ids b)"
    using run by (simp add: account_pages_def)
  have count: "1 < length (filter (\<lambda>b. i \<in> visible_ids b) bs) \<longleftrightarrow> (\<exists>v. map_of refs i = Some v \<and> 1 < v)" for i
    using spec [of i] by (auto simp: bm_count_def split: option.splits)
  show "shared_pages (account_pages bs) = card {i. 1 < length (filter (\<lambda>b. i \<in> visible_ids b) bs)}"
    unfolding count using run spec bm_filter_card [of refs "\<lambda>n. 1 < n"] by (simp add: account_pages_def)
qed

text \<open>The pages of one address space that two VMs see.\<close>

definition pages_of_two :: "(vm_state \<Rightarrow> page_branch) \<Rightarrow> fork_forest \<Rightarrow> nat set" where
  "pages_of_two br f = {i. \<exists>vm vm' v v'. vm \<noteq> vm' \<and> map_of (ff_vms f) vm = Some v \<and>
     map_of (ff_vms f) vm' = Some v' \<and> i \<in> visible_ids (br v) \<and> i \<in> visible_ids (br v')}"

lemma forest_accounting_spec:
  assumes "forest_wf f" and br: "br = vs_memory \<or> br = vs_filesystem"
  shows "resident_pages (account_pages (map br (bm_values (ff_vms f)))) =
      card (\<Union>v \<in> ran (map_of (ff_vms f)). retained_ids (br v))"
    "shared_pages (account_pages (map br (bm_values (ff_vms f)))) =
      card (pages_of_two br f)"
proof -
  let ?m = "ff_vms f"
  have bm: "bm_wf ?m" using assms(1) by (simp add: forest_wf_def)
  have wf: "\<forall>b \<in> set (map br (bm_values ?m)). ov_wf b"
    using bm br forest_wf_D(3,4) [OF assms(1)] by (fastforce simp: bm_wf_entries)
  show "resident_pages (account_pages (map br (bm_values ?m))) = card (\<Union>v \<in> ran (map_of ?m). retained_ids (br v))"
    using account_pages_spec(1) [OF wf] by (simp only: list.set_map bm_values_ran [OF bm, unfolded list.set_map] image_image)
  have count: "1 < length (filter (\<lambda>b. i \<in> visible_ids b) (map br (bm_values ?m))) \<longleftrightarrow>
      (\<exists>vm vm' v v'. vm \<noteq> vm' \<and> map_of ?m vm = Some v \<and> map_of ?m vm' = Some v' \<and>
        i \<in> visible_ids (br v) \<and> i \<in> visible_ids (br v'))" for i
  proof -
    let ?S = "{vm. \<exists>v. map_of ?m vm = Some v \<and> i \<in> visible_ids (br v)}"
    have fin: "finite ?S" by (rule finite_subset [OF _ finite_dom_map_of [of ?m]]) auto
    have "length (filter (\<lambda>b. i \<in> visible_ids b) (map br (bm_values ?m))) = card ?S"
      using bm_filter_card [OF bm, of "\<lambda>v. i \<in> visible_ids (br v)"] by (simp add: filter_map comp_def)
    moreover have "1 < card ?S \<longleftrightarrow> (\<exists>vm \<in> ?S. \<exists>vm' \<in> ?S. vm \<noteq> vm')"
      using card_le_Suc0_iff_eq [OF fin] by (simp add: not_le [symmetric])
    ultimately show ?thesis by (simp only:) blast
  qed
  show "shared_pages (account_pages (map br (bm_values ?m))) = card (pages_of_two br f)"
    using account_pages_spec(2) [OF wf] unfolding count pages_of_two_def .
qed

section \<open>Properties\<close>

text \<open>
  C1. A fork forest is indistinguishable from private copies: every sequence of create, fork,
  remove, read and write calls on a new forest gets the replies (new identities, contents, errors)
  that it would get if each VM owned its own byte arrays and a fork copied both of them, as long
  as the 64-bit VM and page counters do not run out.
\<close>

theorem forest_refines_private_copies:
  assumes "1 + length calls < u64_bound" "1 + sum_list (map call_pages calls) < u64_bound"
  shows "fst (forest_run calls forest_new) = fst (private_run calls (1, Map.empty))"
proof -
  obtain rs f' where run: "forest_run calls forest_new = (rs, f')" by (metis prod.exhaust)
  have "private_run calls (forest_private forest_new) = (rs, forest_private f')"
    using forest_run_refines [OF forest_wf_new _ _ run] assms by (simp add: forest_new_def)
  moreover have "forest_private forest_new = (1, Map.empty)"
    by (simp add: forest_private_def forest_new_def)
  ultimately show ?thesis using run by simp
qed

text \<open>A child overwrites a byte at a page boundary; its parent keeps the old one.\<close>

theorem forest_refines_private_copies_witness:
  "fst (forest_run [CreateVm, WriteMemory (VmId 1) 4095 [7, 8], ForkVm (VmId 1),
      WriteMemory (VmId 2) 4095 [9], ReadMemory (VmId 1) 4095 2, ReadMemory (VmId 2) 4095 2,
      ForkVm (VmId 5)] forest_new) =
    [NewVm (VmId 1), Done, NewVm (VmId 2), Done, Contents [7, 8], Contents [9, 8],
      Failed (VmNotFound (VmId 5))]"
  by (subst forest_refines_private_copies)
    (simp_all add: u64_bound_def pages_spanned_def array_read_def array_write_def
      upt_rec [of 4095] upt_rec [of 4096])



text \<open>
  C14. A fork copies nothing: forking a live VM leaves the number of resident pages of both address
  spaces as it was, and every page that the source sees is counted as shared afterwards.
\<close>

theorem forest_fork_allocates_nothing:
  assumes "forest_wf f" "ff_next_vm f + 1 < u64_bound" "map_of (ff_vms f) source = Some v"
    and "forest_fork_vm source f = (Inr child, f')"
  shows "resident_pages (acc_memory (forest_page_accounting f')) =
      resident_pages (acc_memory (forest_page_accounting f)) \<and>
    resident_pages (acc_filesystem (forest_page_accounting f')) =
      resident_pages (acc_filesystem (forest_page_accounting f)) \<and>
    visible_ids (vs_memory v) \<subseteq> pages_of_two vs_memory f' \<and>
    visible_ids (vs_filesystem v) \<subseteq> pages_of_two vs_filesystem f'"
proof -
  have wf': "forest_wf f'" using forest_wf_fork [OF assms(1,2)] assms(4) by (metis snd_conv)
  let ?self = "\<lparr>vs_memory = fst (page_branch_fork (vs_memory v)), vs_filesystem = fst (page_branch_fork (vs_filesystem v))\<rparr>"
  let ?child = "\<lparr>vs_memory = snd (page_branch_fork (vs_memory v)), vs_filesystem = snd (page_branch_fork (vs_filesystem v))\<rparr>"
  have vms: "map_of (ff_vms f') = (map_of (ff_vms f))(source \<mapsto> ?self, VmId (ff_next_vm f) \<mapsto> ?child)"
    using assms(3,4) by (auto simp: forest_fork_vm_def Let_def split_beta)
  have fresh: "map_of (ff_vms f) (VmId (ff_next_vm f)) = None" "source \<noteq> VmId (ff_next_vm f)"
    using forest_wf_D(5) [OF assms(1), of "VmId (ff_next_vm f)"] assms(3)
    by (cases "map_of (ff_vms f) (VmId (ff_next_vm f))"; auto)+
  have same: "ov_retained (br ?self) = ov_retained (br v)" "ov_retained (br ?child) = ov_retained (br v)"
    "page_branch_page (br ?self) = page_branch_page (br v)" "page_branch_page (br ?child) = page_branch_page (br v)"
    if "br = vs_memory \<or> br = vs_filesystem" for br
    using that by (auto simp: page_branch_fork_def page_branch_page_def fun_eq_iff)
  have res: "(\<Union>v \<in> ran (map_of (ff_vms f')). retained_ids (br v)) = (\<Union>v \<in> ran (map_of (ff_vms f)). retained_ids (br v))"
    if br: "br = vs_memory \<or> br = vs_filesystem" for br
  proof (rule ran_UN_cong)
    fix vm w assume "map_of (ff_vms f) vm = Some w"
    then show "\<exists>vm' w'. map_of (ff_vms f') vm' = Some w' \<and> retained_ids (br w) = retained_ids (br w')"
      using fresh assms(3) same(1) [OF br] by (intro exI [of _ vm]) (auto simp: vms)
  next
    fix vm w assume "map_of (ff_vms f') vm = Some w"
    then show "\<exists>vm' w'. map_of (ff_vms f) vm' = Some w' \<and> retained_ids (br w) = retained_ids (br w')"
      using assms(3) same(1,2) [OF br] by (auto simp: vms split: if_splits)
  qed
  have two: "visible_ids (br v) \<subseteq> pages_of_two br f'" if br: "br = vs_memory \<or> br = vs_filesystem" for br
  proof
    fix i assume "i \<in> visible_ids (br v)"
    then have "i \<in> visible_ids (br ?self)" "i \<in> visible_ids (br ?child)" using same(3,4) [OF br] by simp_all
    moreover have "map_of (ff_vms f') source = Some ?self" "map_of (ff_vms f') (VmId (ff_next_vm f)) = Some ?child"
      using fresh(2) by (simp_all add: vms)
    ultimately show "i \<in> pages_of_two br f'" unfolding pages_of_two_def using fresh(2) by blast
  qed
  show ?thesis
    using two res by (simp add: forest_page_accounting_def forest_accounting_spec(1) [OF wf']
        forest_accounting_spec(1) [OF assms(1)] del: map_map)
qed

text \<open>The fork of a VM that has written one page.\<close>

theorem forest_fork_allocates_nothing_witness:
  "let f = \<lparr>ff_next_vm = 2, ff_next_page = 2,
       ff_vms = [(VmId 1, \<lparr>vs_memory = ov_put ('''', 3) \<lparr>page_id = 1, page_bytes = replicate 4096 7\<rparr> ov_empty,
         vs_filesystem = ov_empty\<rparr>)]\<rparr>;
       f' = snd (forest_fork_vm (VmId 1) f)
   in resident_pages (acc_memory (forest_page_accounting f')) =
      resident_pages (acc_memory (forest_page_accounting f)) \<and> 1 \<in> pages_of_two vs_memory f'"
proof -
  let ?p = "\<lparr>page_id = 1, page_bytes = replicate 4096 7\<rparr>"
  let ?v = "\<lparr>vs_memory = ov_put ('''', 3) ?p ov_empty, vs_filesystem = ov_empty\<rparr>"
  let ?f = "\<lparr>ff_next_vm = 2, ff_next_page = 2, ff_vms = [(VmId 1, ?v)]\<rparr>"
  have wf: "forest_wf ?f"
    by (auto simp: forest_wf_def vm_state_wf_def page_branch_wf_def page_branch_page_def forest_pages_def
        pages_below_def u64_bound_def ov_retained_def ov_put_def ov_empty_def ov_get_def ov_wf_def gen_empty_def
        split: if_splits)
  obtain child f' where fork: "forest_fork_vm (VmId 1) ?f = (Inr child, f')"
    by (simp add: forest_fork_vm_def split_beta Let_def)
  have "1 \<in> visible_ids (vs_memory ?v)"
    by (auto simp: page_branch_page_def [abs_def] image_iff ran_def intro!: exI [of _ ?p])
  with forest_fork_allocates_nothing [OF wf _ _ fork, of ?v] fork show ?thesis
    by (auto simp: u64_bound_def Let_def)
qed

end
