(* ===== verification/SharedCache.thy ===== *)
theory SharedCache
  imports Overlay CacheBase
begin

text \<open>
  \<^verbatim>\<open>SharedPageCache\<close> of \<^verbatim>\<open>minidox-cache/src/branching.rs\<close>: one page cache for all branches of a
  filesystem lineage. Pages are keyed by the identity that the store gives to a branch's version
  of a page, so branches that see the same version share one backing file; a write mapping first
  gives the branch a version of its own.

  Every method is atomic, as its code holds the state's mutex; \<open>cache_read\<close> and \<open>cache_write\<close>
  are sequences of such methods, as theirs take the mutex page by page. Reference counts of
  mappings are unbounded numbers here.
\<close>

section \<open>State\<close>

record cache_page =
  cp_id :: nat
  cp_backing :: nat

datatype cache_branch_id = CacheBranchId (cb_raw: nat)

instantiation cache_branch_id :: linorder
begin

definition less_eq_cache_branch_id :: "cache_branch_id \<Rightarrow> cache_branch_id \<Rightarrow> bool" where
  "less_eq_cache_branch_id a b \<longleftrightarrow> cb_raw a \<le> cb_raw b"

definition less_cache_branch_id :: "cache_branch_id \<Rightarrow> cache_branch_id \<Rightarrow> bool" where
  "less_cache_branch_id a b \<longleftrightarrow> cb_raw a < cb_raw b"

instance
  by standard (auto simp: less_eq_cache_branch_id_def less_cache_branch_id_def cache_branch_id.expand)

end

record dax_page_mapping =
  dm_cache_id :: nat
  dm_branch :: cache_branch_id
  dm_key :: page_key
  dm_flags :: map_flags
  dm_page :: cache_page

record page_accounting =
  cpa_resident_pages :: nat
  cpa_shared_pages :: nat

type_synonym dirty_branch = "(page_key, bool) overlay"

record 's cache_branch =
  cb_store :: 's
  cb_open_nodes :: "(node_id, nat) bmap"
  cb_active_pages :: "(nat, nat) bmap"
  cb_exclusive_pages :: "page_key set"
  cb_dirty_pages :: dirty_branch

record ('s, 'i) cache_state =
  cs_id :: nat
  cs_next_branch :: nat
  cs_branches :: "(cache_branch_id, 's cache_branch) bmap"
  cs_pages :: "('i, cache_page) bmap"
  cs_known_pages :: "page_key list"

type_synonym ('s, 'i, 'a) cache_meth = "(('s, 'i) cache_state \<times> world, cache_error, 'a) meth"

section \<open>Cached pages\<close>

definition page_from_bytes :: "bytes \<Rightarrow> (world, io_error, cache_page) meth" where
  "page_from_bytes bytes =
    mbind tempfile (\<lambda>backing.
    mbind (set_len backing PAGE_SIZE) (\<lambda>_.
    mbind (write_all_at backing bytes 0) (\<lambda>_ w.
      (Inr \<lparr>cp_id = next_cache_page_id w, cp_backing = backing\<rparr>,
       w\<lparr>next_cache_page_id := u64_succ (next_cache_page_id w)\<rparr>))))"

definition page_duplicate :: "cache_page \<Rightarrow> (world, io_error, cache_page) meth" where
  "page_duplicate page =
    mbind (read_exact_at (cp_backing page) PAGE_SIZE 0) (\<lambda>bytes. page_from_bytes bytes)"

section \<open>Dirty pages\<close>

definition dirty_new :: dirty_branch where
  "dirty_new = ov_empty"

definition dirty_fork :: "dirty_branch \<Rightarrow> dirty_branch \<times> dirty_branch" where
  "dirty_fork d = ov_fork d"

definition mark_dirty :: "page_key \<Rightarrow> dirty_branch \<Rightarrow> dirty_branch" where
  "mark_dirty key d = ov_put key True d"

definition mark_clean :: "page_key \<Rightarrow> dirty_branch \<Rightarrow> dirty_branch" where
  "mark_clean key d = ov_put key False d"

text \<open>The walk over the generations that keeps only the keys of one node.\<close>

fun dirty_collect_node ::
  "node_id \<Rightarrow> (page_key, bool) generation \<Rightarrow> (page_key, bool) bmap \<Rightarrow> (page_key, bool) bmap" where
  "dirty_collect_node node (Generation par changes) visible =
    (let visible' = bm_or_extend visible (filter (\<lambda>e. fst (fst e) = node) changes)
     in case par of None \<Rightarrow> visible' | Some g \<Rightarrow> dirty_collect_node node g visible')"

definition dirty_pages_for_node :: "dirty_branch \<Rightarrow> node_id \<Rightarrow> page_key list" where
  "dirty_pages_for_node d node =
    map fst (filter snd (dirty_collect_node node (ov_base d)
      (bm_extend [] (filter (\<lambda>e. fst (fst e) = node) (ov_writes d)))))"

definition dirty_pages :: "dirty_branch \<Rightarrow> page_key list" where
  "dirty_pages d = map fst (filter snd (gen_collect (ov_base d) (ov_writes d)))"

section \<open>Creation\<close>

definition fresh_branch :: "'s \<Rightarrow> dirty_branch \<Rightarrow> 's cache_branch" where
  "fresh_branch store dirty = \<lparr>cb_store = store, cb_open_nodes = [], cb_active_pages = [],
     cb_exclusive_pages = {}, cb_dirty_pages = dirty\<rparr>"

definition cache_new :: "'s \<Rightarrow> world \<Rightarrow> (('s, 'i) cache_state \<times> cache_branch_id) \<times> world" where
  "cache_new store w =
    (let branch = CacheBranchId 1
     in ((\<lparr>cs_id = next_cache_id w, cs_next_branch = 2,
           cs_branches = bm_insert branch (fresh_branch store dirty_new) [],
           cs_pages = [], cs_known_pages = []\<rparr>, branch),
         w\<lparr>next_cache_id := u64_succ (next_cache_id w)\<rparr>))"

definition cache_restore ::
  "'s list \<Rightarrow> (world, cache_error, ('s, 'i) cache_state \<times> cache_branch_id list) meth" where
  "cache_restore stores =
    (if stores = [] then raise (InvalidMapping ''a filesystem lineage must contain at least one branch'')
     else
       let ids = map (\<lambda>index. CacheBranchId (index + 1)) [0..<length stores];
           branches = fold (\<lambda>(i, store). bm_insert i (fresh_branch store dirty_new)) (zip ids stores) []
       in mbind (ok_or (checked_add (length branches) 1) (InvalidMapping ''cache branch identity overflow''))
         (\<lambda>next_branch w.
           (Inr (\<lparr>cs_id = next_cache_id w, cs_next_branch = next_branch, cs_branches = branches,
                  cs_pages = [], cs_known_pages = []\<rparr>, ids),
            w\<lparr>next_cache_id := u64_succ (next_cache_id w)\<rparr>)))"

section \<open>Branches\<close>

fun branch_mut :: "cache_branch_id \<Rightarrow> ('s, 'i, 's cache_branch) cache_meth" where
  "branch_mut b (cs, w) =
    (case map_of (cs_branches cs) b of
      None \<Rightarrow> (Inl (BranchNotFound (cb_raw b)), (cs, w))
    | Some br \<Rightarrow> (Inr br, (cs, w)))"

definition put_branch :: "cache_branch_id \<Rightarrow> 's cache_branch \<Rightarrow> ('s, 'i, unit) cache_meth" where
  "put_branch b br = modify (\<lambda>(cs, w). (cs\<lparr>cs_branches := bm_insert b br (cs_branches cs)\<rparr>, w))"

definition update_branch ::
  "cache_branch_id \<Rightarrow> ('s cache_branch \<Rightarrow> 's cache_branch) \<Rightarrow> ('s, 'i, unit) cache_meth" where
  "update_branch b f = mbind (branch_mut b) (\<lambda>br. put_branch b (f br))"

text \<open>A call on the store of a branch; the branch keeps the store it leaves, error or not.\<close>

fun on_store :: "cache_branch_id \<Rightarrow> ('s, 'a) store_meth \<Rightarrow> ('s, 'i, 'a) cache_meth" where
  "on_store b m (cs, w) =
    (case map_of (cs_branches cs) b of
      None \<Rightarrow> (Inl (BranchNotFound (cb_raw b)), (cs, w))
    | Some br \<Rightarrow>
        (case m (cb_store br, w) of (r, (store, w')) \<Rightarrow>
          (map_sum Io id r,
           (cs\<lparr>cs_branches := bm_insert b (br\<lparr>cb_store := store\<rparr>) (cs_branches cs)\<rparr>, w'))))"

declare on_store.simps [simp del]

definition with_store_mut :: "cache_branch_id \<Rightarrow> ('s, 'a) store_meth \<Rightarrow> ('s, 'i, 'a) cache_meth" where
  "with_store_mut = on_store"

text \<open>
  The source branch is checked and forked first; the identity of the child is drawn afterwards.
\<close>

definition cache_fork ::
  "('s, 'i::linorder) forkable_node_store \<Rightarrow> cache_branch_id \<Rightarrow> ('s, 'i, cache_branch_id) cache_meth" where
  "cache_fork st source =
    mbind (branch_mut source) (\<lambda>source_branch.
    if cb_active_pages source_branch \<noteq> [] then raise ActiveMappings
    else
      mbind (on_store source (fs_fork_store st)) (\<lambda>child_store.
      mbind (branch_mut source) (\<lambda>source_branch.
      let (dirty, child_dirty) = dirty_fork (cb_dirty_pages source_branch) in
      mbind (put_branch source (source_branch\<lparr>cb_dirty_pages := dirty, cb_exclusive_pages := {}\<rparr>)) (\<lambda>_.
      mbind (gets (\<lambda>(cs, w). cs_next_branch cs)) (\<lambda>next_branch.
      mbind (ok_or (checked_add next_branch 1) (InvalidMapping ''cache branch identity overflow'')) (\<lambda>next_branch'.
      mbind (modify (\<lambda>(cs, w). (cs\<lparr>cs_next_branch := next_branch'\<rparr>, w))) (\<lambda>_.
      mbind (put_branch (CacheBranchId next_branch) (fresh_branch child_store child_dirty)) (\<lambda>_.
      ok (CacheBranchId next_branch)))))))))"

text \<open>The identities of one known page over the given branches, gathered into a set.\<close>

fun page_identities ::
  "('s, 'i::linorder) forkable_node_store \<Rightarrow> page_key \<Rightarrow> cache_branch_id list \<Rightarrow> 'i set \<Rightarrow> ('s, 'i, 'i set) cache_meth" where
  "page_identities st key [] visible = ok visible"
| "page_identities st key (b # bs) visible =
    mattempt (on_store b (fs_page_identity st (fst key) (snd key))) (\<lambda>r.
      page_identities st key bs (case r of Inl _ \<Rightarrow> visible | Inr identity \<Rightarrow> insert identity visible))"

fun visible_identities ::
  "('s, 'i::linorder) forkable_node_store \<Rightarrow> page_key list \<Rightarrow> 'i set \<Rightarrow> ('s, 'i, 'i set) cache_meth" where
  "visible_identities st [] visible = ok visible"
| "visible_identities st (key # keys) visible =
    mbind (gets (\<lambda>(cs, w). bm_keys (cs_branches cs))) (\<lambda>ids.
    mbind (page_identities st key ids visible) (\<lambda>visible'.
    visible_identities st keys visible'))"

definition remove_branch ::
  "('s, 'i::linorder) forkable_node_store \<Rightarrow> cache_branch_id \<Rightarrow> ('s, 'i, unit) cache_meth" where
  "remove_branch st branch =
    mbind (branch_mut branch) (\<lambda>branch_state.
    if cb_active_pages branch_state \<noteq> [] then raise ActiveMappings
    else
      mbind (modify (\<lambda>(cs, w). (cs\<lparr>cs_branches := bm_remove branch (cs_branches cs)\<rparr>, w))) (\<lambda>_.
      mbind (gets (\<lambda>(cs, w). cs_known_pages cs)) (\<lambda>known_pages.
      mbind (visible_identities st known_pages {}) (\<lambda>visible.
      modify (\<lambda>(cs, w). (cs\<lparr>cs_pages := bm_retain (\<lambda>i. i \<in> visible) (cs_pages cs)\<rparr>, w))))))"

section \<open>Opening and closing nodes\<close>

definition cache_open ::
  "('s, 'i::linorder) forkable_node_store \<Rightarrow> cache_branch_id \<Rightarrow> node_id \<Rightarrow> ('s, 'i, unit) cache_meth" where
  "cache_open st branch node =
    mbind (update_branch branch (\<lambda>br. br\<lparr>cb_open_nodes := bm_or_insert node 0 (cb_open_nodes br)\<rparr>)) (\<lambda>_.
    mbind (branch_mut branch) (\<lambda>br.
    let count = the (map_of (cb_open_nodes br) node) in
    mbind (if count = 0 then on_store branch (ns_on_open_node st node) else ok ()) (\<lambda>_.
    mbind (ok_or (checked_add count 1) (InvalidMapping ''open reference count overflow'')) (\<lambda>count'.
    update_branch branch (\<lambda>br. br\<lparr>cb_open_nodes := bm_insert node count' (cb_open_nodes br)\<rparr>)))))"

definition cache_close ::
  "('s, 'i::linorder) forkable_node_store \<Rightarrow> cache_branch_id \<Rightarrow> node_id \<Rightarrow> ('s, 'i, unit) cache_meth" where
  "cache_close st branch node =
    mbind (branch_mut branch) (\<lambda>br.
    mbind (ok_or (map_of (cb_open_nodes br) node) (NodeNotOpen node)) (\<lambda>count.
    mbind (ok_or (checked_sub count 1) (InvalidMapping ''node is not open'')) (\<lambda>count'.
    mbind (update_branch branch (\<lambda>br. br\<lparr>cb_open_nodes := bm_insert node count' (cb_open_nodes br)\<rparr>)) (\<lambda>_.
    if count' = 0 then on_store branch (ns_on_close_node st node) else ok ()))))"

section \<open>Mapping pages\<close>

definition load_page ::
  "('s, 'i::linorder) forkable_node_store \<Rightarrow> cache_branch_id \<Rightarrow> 'i \<Rightarrow> node_id \<Rightarrow> nat \<Rightarrow> ('s, 'i, cache_page) cache_meth" where
  "load_page st branch identity node offset =
    mbind (gets (\<lambda>(cs, w). map_of (cs_pages cs) identity)) (\<lambda>resident.
    case resident of
      Some page \<Rightarrow> ok page
    | None \<Rightarrow>
        mbind (on_store branch (ns_read_node st node offset PAGE_SIZE)) (\<lambda>bytes.
        mbind (map_err Io (on_world (page_from_bytes (resize PAGE_SIZE bytes)))) (\<lambda>page.
        mbind (modify (\<lambda>(cs, w). (cs\<lparr>cs_pages := bm_insert identity page (cs_pages cs)\<rparr>, w))) (\<lambda>_.
        ok page))))"

text \<open>\<^verbatim>\<open>branches.values_mut().any(..)\<close>: stops at the first branch that sees the identity.\<close>

fun any_sees_identity ::
  "('s, 'i::linorder) forkable_node_store \<Rightarrow> 'i \<Rightarrow> node_id \<Rightarrow> nat \<Rightarrow> cache_branch_id list \<Rightarrow> ('s, 'i, bool) cache_meth" where
  "any_sees_identity st identity node offset [] = ok False"
| "any_sees_identity st identity node offset (b # bs) =
    mattempt (on_store b (fs_page_identity st node offset)) (\<lambda>r.
      if r = Inr identity then ok True else any_sees_identity st identity node offset bs)"

text \<open>The copy-on-write part of \<^verbatim>\<open>map_page\<close>: a private version of the page for the branch.\<close>

definition map_page_copy ::
  "('s, 'i::linorder) forkable_node_store \<Rightarrow> cache_branch_id \<Rightarrow> 'i \<Rightarrow> cache_page \<Rightarrow> node_id \<Rightarrow> nat \<Rightarrow>
    ('s, 'i, cache_page) cache_meth" where
  "map_page_copy st branch identity page node offset =
    mbind (map_err Io (on_world (page_duplicate page))) (\<lambda>new_page.
    mbind (on_store branch (fs_prepare_page_write st node offset)) (\<lambda>new_identity.
    mbind (modify (\<lambda>(cs, w). (cs\<lparr>cs_pages := bm_insert new_identity new_page (cs_pages cs)\<rparr>, w))) (\<lambda>_.
    mbind (gets (\<lambda>(cs, w). bm_keys (cs_branches cs))) (\<lambda>ids.
    mbind (any_sees_identity st identity node offset ids) (\<lambda>old_identity_is_visible.
    mbind (if \<not> old_identity_is_visible
        then modify (\<lambda>(cs, w). (cs\<lparr>cs_pages := bm_remove identity (cs_pages cs)\<rparr>, w)) else ok ()) (\<lambda>_.
    mbind (update_branch branch (\<lambda>br. br\<lparr>cb_exclusive_pages := insert (node, offset) (cb_exclusive_pages br)\<rparr>)) (\<lambda>_.
    ok new_page)))))))"

text \<open>The end of \<^verbatim>\<open>map_page\<close>: the page is noted as known and as used by the branch.\<close>

definition map_page_hold ::
  "cache_branch_id \<Rightarrow> page_key \<Rightarrow> map_flags \<Rightarrow> cache_page \<Rightarrow> ('s, 'i::linorder, dax_page_mapping) cache_meth" where
  "map_page_hold branch key flags page =
    mbind (modify (\<lambda>(cs, w). (cs\<lparr>cs_known_pages := insort_insert key (cs_known_pages cs)\<rparr>, w))) (\<lambda>_.
    mbind (update_branch branch (\<lambda>br. br\<lparr>cb_active_pages := bm_incr (cp_id page) (cb_active_pages br)\<rparr>)) (\<lambda>_.
    gets (\<lambda>(cs, w). \<lparr>dm_cache_id = cs_id cs, dm_branch = branch, dm_key = key, dm_flags = flags, dm_page = page\<rparr>)))"

text \<open>From the loaded page on: whether the branch needs a version of its own.\<close>

definition map_page_loaded ::
  "('s, 'i::linorder) forkable_node_store \<Rightarrow> cache_branch_id \<Rightarrow> node_id \<Rightarrow> nat \<Rightarrow> map_flags \<Rightarrow> 'i \<Rightarrow> cache_page \<Rightarrow>
    ('s, 'i, dax_page_mapping) cache_meth" where
  "map_page_loaded st branch node offset flags identity page =
    mbind (branch_mut branch) (\<lambda>br.
    let copy_on_write = flags_contain flags WRITE \<and> (node, offset) \<notin> cb_exclusive_pages br in
    if copy_on_write \<and> bm_count (cb_active_pages br) (cp_id page) > 0 then raise PageBusy
    else
      mbind (if copy_on_write then map_page_copy st branch identity page node offset else ok page) (\<lambda>page.
      map_page_hold branch (node, offset) flags page))"

definition map_page ::
  "('s, 'i::linorder) forkable_node_store \<Rightarrow> cache_branch_id \<Rightarrow> node_id \<Rightarrow> nat \<Rightarrow> map_flags \<Rightarrow>
    ('s, 'i, dax_page_mapping) cache_meth" where
  "map_page st branch node offset flags =
    (if offset mod PAGE_SIZE \<noteq> 0 then raise (InvalidMapping ''mapping offset must be page aligned'')
     else if \<not> flags_intersect flags (READ OR WRITE)
     then raise (InvalidMapping ''mapping must be readable or writable'')
     else
       mbind (branch_mut branch) (\<lambda>br.
       if bm_count (cb_open_nodes br) node = 0 then raise (NodeNotOpen node)
       else
         mbind (on_store branch (fs_page_identity st node offset)) (\<lambda>identity.
         mbind (load_page st branch identity node offset) (\<lambda>page.
         map_page_loaded st branch node offset flags identity page))))"

definition unmap ::
  "cache_branch_id \<Rightarrow> dax_page_mapping \<Rightarrow> ('s, 'i::linorder, unit) cache_meth" where
  "unmap branch mapping =
    mbind (gets (\<lambda>(cs, w). cs_id cs)) (\<lambda>cache_id.
    if dm_cache_id mapping \<noteq> cache_id \<or> dm_branch mapping \<noteq> branch then raise StaleMapping
    else
      mbind (branch_mut branch) (\<lambda>br.
      mbind (ok_or (map_of (cb_active_pages br) (cp_id (dm_page mapping))) StaleMapping) (\<lambda>count.
      mbind (ok_or (checked_sub count 1) StaleMapping) (\<lambda>count'.
      update_branch branch (\<lambda>br.
        let br = br\<lparr>cb_active_pages :=
          (if count' = 0 then bm_remove (cp_id (dm_page mapping)) (cb_active_pages br)
           else bm_insert (cp_id (dm_page mapping)) count' (cb_active_pages br))\<rparr>
        in if flags_contain (dm_flags mapping) WRITE
           then br\<lparr>cb_dirty_pages := mark_dirty (dm_key mapping) (cb_dirty_pages br)\<rparr> else br)))))"

section \<open>Reads and writes through mappings\<close>

text \<open>The read loop from \<open>cursor\<close> on; \<open>acc\<close> holds the bytes copied so far, in order.\<close>

function cache_read_loop ::
  "('s, 'i::linorder) forkable_node_store \<Rightarrow> cache_branch_id \<Rightarrow> node_id \<Rightarrow> nat \<Rightarrow> nat \<Rightarrow> bytes \<Rightarrow>
    ('s, 'i, bytes) cache_meth" where
  "cache_read_loop st branch node end' cursor acc s =
    (if cursor < end' then
       let page_offset = cursor div PAGE_SIZE * PAGE_SIZE;
           within_page = cursor - page_offset;
           chunk_len = min (PAGE_SIZE - within_page) (end' - cursor)
       in mbind (map_page st branch node page_offset READ) (\<lambda>mapping.
          mbind (map_err Io (on_world (std_read_exact_at (cp_backing (dm_page mapping)) chunk_len within_page))) (\<lambda>chunk.
          mbind (unmap branch mapping) (\<lambda>_.
          cache_read_loop st branch node end' (cursor + chunk_len) (acc @ chunk)))) s
     else (Inr acc, s))"
  by pat_completeness auto
termination
proof (relation "measure (\<lambda>(st, branch, node, end', cursor, acc, s). end' - cursor)")
  show "((st, branch, node, end', cursor + cl, acc', s'), st, branch, node, end', cursor, acc, s)
      \<in> measure (\<lambda>(st, branch, node, end', cursor, acc, s). end' - cursor)"
    if "cursor < end'" "po = cursor div PAGE_SIZE * PAGE_SIZE" "wp = cursor - po"
      "cl = min (PAGE_SIZE - wp) (end' - cursor)" for st :: "('s, 'i::linorder) forkable_node_store"
      and branch node end' cursor acc s po wp cl acc' s'
    using that page_chunk_measure [of cursor end'] by (simp add: minus_div_mult_eq_mod)
qed simp

function cache_write_loop ::
  "('s, 'i::linorder) forkable_node_store \<Rightarrow> cache_branch_id \<Rightarrow> node_id \<Rightarrow> nat \<Rightarrow> bytes \<Rightarrow> nat \<Rightarrow>
    ('s, 'i, unit) cache_meth" where
  "cache_write_loop st branch node offset buf cursor s =
    (if cursor < offset + length buf then
       let page_offset = cursor div PAGE_SIZE * PAGE_SIZE;
           within_page = cursor - page_offset;
           chunk_len = min (PAGE_SIZE - within_page) (offset + length buf - cursor);
           source_offset = cursor - offset
       in mbind (map_page st branch node page_offset (READ OR WRITE)) (\<lambda>mapping.
          mbind (map_err Io (on_world (std_write_all_at (cp_backing (dm_page mapping))
            (bslice source_offset chunk_len buf) within_page))) (\<lambda>_.
          mbind (unmap branch mapping) (\<lambda>_.
          cache_write_loop st branch node offset buf (cursor + chunk_len)))) s
     else (Inr (), s))"
  by pat_completeness auto
termination
proof (relation "measure (\<lambda>(st, branch, node, offset, buf, cursor, s). offset + length buf - cursor)")
  show "((st, branch, node, offset, buf, cursor + cl, s'), st, branch, node, offset, buf, cursor, s)
      \<in> measure (\<lambda>(st, branch, node, offset, buf, cursor, s). offset + length buf - cursor)"
    if "cursor < offset + length buf" "po = cursor div PAGE_SIZE * PAGE_SIZE" "wp = cursor - po"
      "cl = min (PAGE_SIZE - wp) (offset + length buf - cursor)" for st :: "('s, 'i::linorder) forkable_node_store"
      and branch node and offset :: nat and buf :: bytes and cursor s po wp cl s'
    using that page_chunk_measure [of cursor "offset + length buf"] by (simp add: minus_div_mult_eq_mod)
qed simp

declare cache_read_loop.simps [simp del] cache_write_loop.simps [simp del]

text \<open>The bytes put at the front of the caller's buffer; the code returns their number.\<close>

definition cache_read ::
  "('s, 'i::linorder) forkable_node_store \<Rightarrow> cache_branch_id \<Rightarrow> node_id \<Rightarrow> nat \<Rightarrow> nat \<Rightarrow> ('s, 'i, bytes) cache_meth" where
  "cache_read st branch node offset len =
    mbind (with_store_mut branch (ns_len st node)) (\<lambda>file_len.
    if offset \<ge> file_len \<or> len = 0 then ok []
    else
      let count = min (file_len - offset) len in
      mbind (ok_or (checked_add offset count) (InvalidMapping ''read range overflow'')) (\<lambda>end'.
      cache_read_loop st branch node end' offset []))"

definition cache_write ::
  "('s, 'i::linorder) forkable_node_store \<Rightarrow> cache_branch_id \<Rightarrow> node_id \<Rightarrow> nat \<Rightarrow> bytes \<Rightarrow> ('s, 'i, nat) cache_meth" where
  "cache_write st branch node offset buf =
    mbind (ok_or (checked_add offset (length buf)) (InvalidMapping ''write range overflow'')) (\<lambda>end'.
    mbind (with_store_mut branch (ns_len st node)) (\<lambda>file_len.
    if end' > file_len then raise (InvalidMapping ''write extends beyond file'')
    else
      mbind (cache_write_loop st branch node offset buf offset) (\<lambda>_.
      ok (length buf))))"

section \<open>Writing dirty pages back\<close>

fun sync_pages ::
  "('s, 'i::linorder) forkable_node_store \<Rightarrow> cache_branch_id \<Rightarrow> page_key list \<Rightarrow> ('s, 'i, unit) cache_meth" where
  "sync_pages st branch [] = mbind (branch_mut branch) (\<lambda>_. ok ())"
| "sync_pages st branch (key # keys) =
    mbind (on_store branch (ns_len st (fst key))) (\<lambda>file_len.
    if snd key \<ge> file_len then
      mbind (update_branch branch (\<lambda>br. br\<lparr>cb_dirty_pages := mark_clean key (cb_dirty_pages br)\<rparr>)) (\<lambda>_.
      sync_pages st branch keys)
    else
      mbind (on_store branch (fs_page_identity st (fst key) (snd key))) (\<lambda>identity.
      mbind (gets (\<lambda>(cs, w). map_of (cs_pages cs) identity)) (\<lambda>resident.
      mbind (ok_or resident StaleMapping) (\<lambda>page.
      let count = min (file_len - snd key) PAGE_SIZE in
      mbind (map_err Io (on_world (read_exact_at (cp_backing page) count 0))) (\<lambda>bytes.
      mbind (on_store branch (ns_write_node st (fst key) (snd key) bytes)) (\<lambda>written.
      if written \<noteq> count then raise (Io (IoError WriteZero ''short filesystem write''))
      else
        mbind (update_branch branch (\<lambda>br. br\<lparr>cb_dirty_pages := mark_clean key (cb_dirty_pages br)\<rparr>)) (\<lambda>_.
        sync_pages st branch keys)))))))"

definition cache_sync ::
  "('s, 'i::linorder) forkable_node_store \<Rightarrow> cache_branch_id \<Rightarrow> node_id \<Rightarrow> ('s, 'i, unit) cache_meth" where
  "cache_sync st branch node =
    mbind (branch_mut branch) (\<lambda>br. sync_pages st branch (dirty_pages_for_node (cb_dirty_pages br) node))"

definition cache_sync_all ::
  "('s, 'i::linorder) forkable_node_store \<Rightarrow> cache_branch_id \<Rightarrow> ('s, 'i, unit) cache_meth" where
  "cache_sync_all st branch =
    mbind (branch_mut branch) (\<lambda>br. sync_pages st branch (dirty_pages (cb_dirty_pages br)))"

section \<open>Accounting\<close>

fun pages_in_branch ::
  "('s, 'i::linorder) forkable_node_store \<Rightarrow> cache_branch_id \<Rightarrow> page_key list \<Rightarrow> nat list \<Rightarrow> ('s, 'i, nat list) cache_meth" where
  "pages_in_branch st branch [] found = ok found"
| "pages_in_branch st branch (key # keys) found =
    mattempt (on_store branch (fs_page_identity st (fst key) (snd key))) (\<lambda>r.
    mbind (gets (\<lambda>(cs, w). case r of Inl _ \<Rightarrow> None | Inr identity \<Rightarrow> map_of (cs_pages cs) identity)) (\<lambda>resident.
    pages_in_branch st branch keys
      (case resident of None \<Rightarrow> found | Some page \<Rightarrow> insort_insert (cp_id page) found)))"

fun count_references ::
  "('s, 'i::linorder) forkable_node_store \<Rightarrow> cache_branch_id list \<Rightarrow> (nat, nat) bmap \<Rightarrow> ('s, 'i, (nat, nat) bmap) cache_meth" where
  "count_references st [] references = ok references"
| "count_references st (b # bs) references =
    mbind (branch_mut b) (\<lambda>_.
    mbind (gets (\<lambda>(cs, w). cs_known_pages cs)) (\<lambda>known_pages.
    mbind (pages_in_branch st b known_pages []) (\<lambda>found.
    count_references st bs (fold bm_incr found references))))"

definition cache_page_accounting ::
  "('s, 'i::linorder) forkable_node_store \<Rightarrow> cache_branch_id list \<Rightarrow> ('s, 'i, page_accounting) cache_meth" where
  "cache_page_accounting st requested =
    mbind (count_references st requested []) (\<lambda>references.
    ok \<lparr>cpa_resident_pages = length references,
        cpa_shared_pages = length (filter (\<lambda>count. count > 1) (bm_values references))\<rparr>)"

section \<open>What making a page does to the world\<close>

lemma tempfile_spec:
  assumes "tempfile w = (r, w')"
  shows "case r of
      Inl e \<Rightarrow> same_but_tick w w'
    | Inr h \<Rightarrow> h = w_next_inode w \<and> (\<exists>t. w' = w\<lparr>w_tick := t, w_files := (w_files w)(h \<mapsto> []),
        w_next_inode := Suc h\<rparr>)"
  using assms by (auto simp: tempfile_def mbind_apply host_call_def same_but_tick_def split: host_answer.splits)

lemma set_len_spec:
  assumes "set_len h n w = (r, w')"
  shows "case r of
      Inl e \<Rightarrow> same_but_tick w w'
    | Inr _ \<Rightarrow> \<exists>t. w' = w\<lparr>w_tick := t, w_files := (w_files w)(h \<mapsto> resize n (file_data w h))\<rparr>"
  using assms
  by (auto simp: set_len_def mbind_apply host_call_def same_but_tick_def file_data_def split: host_answer.splits)

text \<open>Files that existed before are not changed, and the identity counters move only for a page.\<close>

definition makes_page :: "world \<Rightarrow> world \<Rightarrow> io_error + cache_page \<Rightarrow> bytes \<Rightarrow> bool" where
  "makes_page w w' r bytes \<longleftrightarrow> w_next_inode w \<le> w_next_inode w' \<and>
     next_page_version w' = next_page_version w \<and> next_file_object_id w' = next_file_object_id w \<and>
     w_answers w' = w_answers w \<and> (\<forall>h < w_next_inode w. w_files w' h = w_files w h) \<and>
     (case r of
        Inl _ \<Rightarrow> next_cache_page_id w' = next_cache_page_id w
      | Inr p \<Rightarrow> p = \<lparr>cp_id = next_cache_page_id w, cp_backing = w_next_inode w\<rparr> \<and>
          w_next_inode w' = Suc (w_next_inode w) \<and>
          next_cache_page_id w' = u64_succ (next_cache_page_id w) \<and>
          (length bytes = PAGE_SIZE \<longrightarrow> file_data w' (cp_backing p) = bytes))"

lemma page_from_bytes_makes:
  assumes "page_from_bytes bytes w = (r, w')"
  shows "makes_page w w' r bytes"
proof -
  obtain rt w1 where t: "tempfile w = (rt, w1)" by (metis prod.exhaust)
  note t_spec = tempfile_spec [OF t]
  show ?thesis
  proof (cases rt)
    case (Inl e)
    then show ?thesis
      using assms t t_spec by (auto simp: page_from_bytes_def mbind_apply makes_page_def dest: same_but_tickD)
  next
    case h: (Inr h)
    obtain rs w2 where s: "set_len h PAGE_SIZE w1 = (rs, w2)" by (metis prod.exhaust)
    note s_spec = set_len_spec [OF s]
    show ?thesis
    proof (cases rs)
      case (Inl e)
      then show ?thesis
        using assms t t_spec h s s_spec
        by (auto simp: page_from_bytes_def mbind_apply makes_page_def dest: same_but_tickD)
    next
      case (Inr u)
      obtain rw w3 where wr: "write_all_at h bytes 0 w2 = (rw, w3)" by (metis prod.exhaust)
      obtain k where k: "wrote w2 w3 h 0 (take k bytes)" "rw = Inr () \<longrightarrow> k = length bytes"
        using write_full_sound [OF wr [unfolded write_all_at_def]] by blast
      have w2: "h = w_next_inode w" "w_next_inode w2 = Suc h" "next_page_version w2 = next_page_version w"
        "next_file_object_id w2 = next_file_object_id w" "next_cache_page_id w2 = next_cache_page_id w" "w_answers w2 = w_answers w"
        "\<forall>h' < h. w_files w2 h' = w_files w h'" "file_data w2 h = replicate PAGE_SIZE 0"
        using t_spec s_spec h Inr by (auto simp: file_data_def resize_def)
      have w3: "\<forall>h' < h. w_files w3 h' = w_files w h'" using w2(7) wroteD(4) [OF k(1)] by simp
      have data: "file_data w3 h = bytes" if "rw = Inr ()" "length bytes = PAGE_SIZE"
      proof -
        have "bytes \<noteq> []" using that(2) by auto
        then have "file_data w3 h = overwrite (replicate PAGE_SIZE 0) 0 bytes"
          using wroteD(6) [OF k(1)] k(2) that(1) w2(8) by simp
        then show ?thesis using that(2) by (simp add: overwrite_inside copy_into_all)
      qed
      show ?thesis
      proof (cases rw)
        case (Inl e)
        then show ?thesis
          using assms t h s Inr wr w2 w3 wroteD [OF k(1)]
          by (auto simp: page_from_bytes_def mbind_apply makes_page_def)
      next
        case (Inr u')
        then have "r = Inr \<lparr>cp_id = next_cache_page_id w3, cp_backing = h\<rparr>"
          "w' = w3\<lparr>next_cache_page_id := u64_succ (next_cache_page_id w3)\<rparr>"
          using assms t h s \<open>rs = Inr u\<close> wr by (auto simp: page_from_bytes_def mbind_apply)
        then show ?thesis
          using w2 w3 wroteD [OF k(1)] data Inr by (auto simp: makes_page_def file_data_def)
      qed
    qed
  qed
qed

lemma page_duplicate_makes:
  assumes "page_duplicate page w = (r, w')"
  shows "makes_page w w' r (file_data w (cp_backing page))"
proof -
  obtain rr w1 where rd: "read_exact_at (cp_backing page) PAGE_SIZE 0 w = (rr, w1)" by (metis prod.exhaust)
  note sound = read_full_sound [OF rd [unfolded read_exact_at_def]]
  show ?thesis
  proof (cases rr)
    case (Inl e)
    then show ?thesis
      using assms rd sound same_but_tickD [of w w1]
      by (auto simp: page_duplicate_def mbind_apply makes_page_def)
  next
    case (Inr bytes)
    then have "makes_page w1 w' r bytes"
      using assms rd by (intro page_from_bytes_makes) (simp add: page_duplicate_def mbind_apply)
    moreover have "bytes = file_data w (cp_backing page)" if "length (file_data w (cp_backing page)) = PAGE_SIZE"
      using sound Inr that by (simp add: bslice_def)
    ultimately show ?thesis
      using sound same_but_tickD [of w w1] Inr by (auto simp: makes_page_def split: sum.splits)
  qed
qed

text \<open>A duplicate holds the first page of the file it was taken from.\<close>

lemma page_duplicate_data:
  assumes "page_duplicate page w = (Inr p, w')"
  shows "file_data w' (cp_backing p) = take PAGE_SIZE (file_data w (cp_backing page))"
proof -
  obtain rr w1 where rd: "read_exact_at (cp_backing page) PAGE_SIZE 0 w = (rr, w1)" by (metis prod.exhaust)
  note sound = read_full_sound [OF rd [unfolded read_exact_at_def]]
  obtain bytes where b: "rr = Inr bytes" using assms rd by (cases rr) (auto simp: page_duplicate_def mbind_apply)
  then have "makes_page w1 w' (Inr p) bytes"
    using assms rd by (intro page_from_bytes_makes) (simp add: page_duplicate_def mbind_apply)
  then show ?thesis using sound b by (auto simp: makes_page_def bslice_def)
qed

end
