(* ===== verification/CacheContract.thy ===== *)
theory CacheContract
  imports SharedCache
begin

text \<open>
  What the shared cache relies on in its store, as the locale \<^verbatim>\<open>forkable_store\<close>: page identities
  are a function of the store's state, a prepared write gets an identity that was never handed out
  before, a fork keeps every identity on both sides, and no call touches host files that belong to
  the cache. Inside the locale, the invariant of the cache is kept by each of its methods, on
  success and on error.
\<close>

text \<open>Identities that the counters can still hand out: one round of \<^verbatim>\<open>map_page\<close> takes at most two
  cache page numbers and one page version.\<close>

definition room :: "nat \<Rightarrow> world \<Rightarrow> bool" where
  "room k w \<longleftrightarrow> next_cache_page_id w + 2 * k < u64_bound \<and> next_page_version w + k < u64_bound"

lemma room_mono: "room k w \<Longrightarrow> j \<le> k \<Longrightarrow> room j w"
  by (auto simp: room_def)

text \<open>What a store call may do to the world: it writes only files that the store owns or makes.\<close>

definition calm :: "('s \<Rightarrow> nat set) \<Rightarrow> 's \<Rightarrow> world \<Rightarrow> 's \<Rightarrow> world \<Rightarrow> bool" where
  "calm owned s w s' w' \<longleftrightarrow>
     w_next_inode w \<le> w_next_inode w' \<and>
     next_cache_page_id w' = next_cache_page_id w \<and> next_file_object_id w' = next_file_object_id w \<and>
     (\<forall>h. h < w_next_inode w \<longrightarrow> h \<notin> owned s \<longrightarrow> w_files w' h = w_files w h) \<and>
     owned s' \<subseteq> owned s \<union> {w_next_inode w..<w_next_inode w'}"

lemma calm_refl [simp]: "calm owned s w s w"
  by (simp add: calm_def)

lemma calm_trans:
  assumes "calm owned s w s1 w1" "calm owned s1 w1 s2 w2"
  shows "calm owned s w s2 w2"
proof -
  have "w_files w2 h = w_files w h" if "h < w_next_inode w" "h \<notin> owned s" for h
  proof -
    have "h \<notin> owned s1" using assms(1) that by (auto simp: calm_def)
    then show ?thesis using assms that by (simp add: calm_def)
  qed
  moreover have "owned s2 \<subseteq> owned s \<union> {w_next_inode w..<w_next_inode w2}"
    using assms by (fastforce simp: calm_def)
  ultimately show ?thesis using assms by (simp add: calm_def)
qed

lemma below_trans: "A \<subseteq> {..<m} \<Longrightarrow> m \<le> n \<Longrightarrow> A \<subseteq> {..<n}" for m :: nat
  by auto

lemma calm_owned:
  assumes "calm owned s w s' w'" "owned s \<subseteq> {..<w_next_inode w}"
  shows "owned s' \<subseteq> {..<w_next_inode w'}"
proof -
  have "owned s' \<subseteq> {..<w_next_inode w} \<union> {w_next_inode w..<w_next_inode w'}"
    using assms by (auto simp: calm_def)
  also have "\<dots> = {..<w_next_inode w'}"
    using assms(1) by (intro ivl_disj_un_one(2)) (simp add: calm_def)
  finally show ?thesis .
qed

locale forkable_store =
  fixes st :: "('s, 'i::linorder) forkable_node_store"
    and ident :: "'s \<Rightarrow> node_id \<Rightarrow> nat \<Rightarrow> 'i option"
    and issued :: "nat \<Rightarrow> nat \<Rightarrow> 'i set"
    and owned :: "'s \<Rightarrow> nat set"
  assumes page_identity_law: "fs_page_identity st node offset (s, w) =
      (case ident s node (offset div PAGE_SIZE) of None \<Rightarrow> Inl (OsError EIO) | Some i \<Rightarrow> Inr i, (s, w))"
    and prepare_law: "ident s node (offset div PAGE_SIZE) = Some old \<Longrightarrow>
      old \<in> issued (next_file_object_id w) (next_page_version w) \<Longrightarrow> next_page_version w + 1 < u64_bound \<Longrightarrow>
      \<exists>i s' w'. fs_prepare_page_write st node offset (s, w) = (Inr i, (s', w')) \<and>
        i \<notin> issued (next_file_object_id w) (next_page_version w) \<and> i \<in> issued (next_file_object_id w') (next_page_version w') \<and>
        ident s' = (\<lambda>n p. if n = node \<and> p = offset div PAGE_SIZE then Some i else ident s n p) \<and>
        calm owned s w s' w' \<and> next_page_version w' = next_page_version w + 1"
    and issued_mono: "f \<le> f' \<Longrightarrow> k \<le> k' \<Longrightarrow> issued f k \<subseteq> issued f' k'"
    and fork_law: "fs_fork_store st (s, w) = (r, (s', w')) \<Longrightarrow>
      ident s' = ident s \<and> calm owned s w s' w' \<and> next_page_version w' = next_page_version w \<and>
      (\<forall>c. r = Inr c \<longrightarrow> ident c = ident s \<and> owned c \<subseteq> {w_next_inode w..<w_next_inode w'})"
    and len_law: "ns_len st node (s, w) = (rl, (s', w')) \<Longrightarrow>
      ident s' = ident s \<and> calm owned s w s' w' \<and> next_page_version w' = next_page_version w"
    and read_law: "ns_read_node st node offset len (s, w) = (rr, (s', w')) \<Longrightarrow>
      ident s' = ident s \<and> calm owned s w s' w' \<and> next_page_version w' = next_page_version w"
    and write_law: "ns_write_node st node offset buf (s, w) = (rw, (s', w')) \<Longrightarrow>
      ident s' = ident s \<and> calm owned s w s' w' \<and> next_page_version w' = next_page_version w"
    and open_law: "ns_on_open_node st node (s, w) = (ro, (s', w')) \<Longrightarrow>
      ident s' = ident s \<and> calm owned s w s' w' \<and> next_page_version w' = next_page_version w"
    and close_law: "ns_on_close_node st node (s, w) = (rc, (s', w')) \<Longrightarrow>
      ident s' = ident s \<and> calm owned s w s' w' \<and> next_page_version w' = next_page_version w"
begin

text \<open>The version of a page that a branch sees, and the cached page behind it.\<close>

definition sees :: "'s cache_branch \<Rightarrow> page_key \<Rightarrow> 'i option" where
  "sees br key = ident (cb_store br) (fst key) (snd key div PAGE_SIZE)"

text \<open>Cached pages: issued identities, and no two of them share a number or a backing file.\<close>

definition pages_ok :: "('s, 'i) cache_state \<Rightarrow> world \<Rightarrow> bool" where
  "pages_ok cs w \<longleftrightarrow> bm_wf (cs_pages cs) \<and>
     (\<forall>i p. map_of (cs_pages cs) i = Some p \<longrightarrow> i \<in> issued (next_file_object_id w) (next_page_version w) \<and>
        cp_id p < next_cache_page_id w \<and> cp_backing p < w_next_inode w) \<and>
     (\<forall>i j p q. map_of (cs_pages cs) i = Some p \<longrightarrow> map_of (cs_pages cs) j = Some q \<longrightarrow>
        cp_id p = cp_id q \<or> cp_backing p = cp_backing q \<longrightarrow> i = j)"

definition branches_ok :: "('s, 'i) cache_state \<Rightarrow> world \<Rightarrow> bool" where
  "branches_ok cs w \<longleftrightarrow> bm_wf (cs_branches cs) \<and>
     (\<forall>b br. map_of (cs_branches cs) b = Some br \<longrightarrow> cb_raw b < cs_next_branch cs \<and>
        owned (cb_store br) \<subseteq> {..<w_next_inode w} \<and>
        (\<forall>n p i. ident (cb_store br) n p = Some i \<longrightarrow> i \<in> issued (next_file_object_id w) (next_page_version w)) \<and>
        (\<forall>i p. map_of (cs_pages cs) i = Some p \<longrightarrow> cp_backing p \<notin> owned (cb_store br)))"

text \<open>In one lineage, an identity belongs to one page of one node.\<close>

definition keys_ok :: "('s, 'i) cache_state \<Rightarrow> bool" where
  "keys_ok cs \<longleftrightarrow> (\<forall>b br b' br' n p n' p' i. map_of (cs_branches cs) b = Some br \<longrightarrow>
     map_of (cs_branches cs) b' = Some br' \<longrightarrow> ident (cb_store br) n p = Some i \<longrightarrow>
     ident (cb_store br') n' p' = Some i \<longrightarrow> n = n' \<and> p = p')"

text \<open>The version of an exclusive page is seen by no other branch.\<close>

definition exclusive_ok :: "('s, 'i) cache_state \<Rightarrow> bool" where
  "exclusive_ok cs \<longleftrightarrow> (\<forall>b br key i. map_of (cs_branches cs) b = Some br \<longrightarrow>
     key \<in> cb_exclusive_pages br \<longrightarrow> sees br key = Some i \<longrightarrow>
     (\<forall>b' br'. b' \<noteq> b \<longrightarrow> map_of (cs_branches cs) b' = Some br' \<longrightarrow> sees br' key \<noteq> Some i))"

text \<open>Dirty pages are known, and the version the branch sees is cached.\<close>

definition dirty_ok :: "('s, 'i) cache_state \<Rightarrow> bool" where
  "dirty_ok cs \<longleftrightarrow> (\<forall>b br key. map_of (cs_branches cs) b = Some br \<longrightarrow>
     ov_wf (cb_dirty_pages br) \<and>
     (ov_get (cb_dirty_pages br) key = Some True \<longrightarrow>
       key \<in> set (cs_known_pages cs) \<and> sees br key \<noteq> None \<and>
       (\<forall>i. sees br key = Some i \<longrightarrow> map_of (cs_pages cs) i \<noteq> None)))"

text \<open>The mappings that clients hold.\<close>

definition mapping_ok :: "('s, 'i) cache_state \<Rightarrow> dax_page_mapping \<Rightarrow> bool" where
  "mapping_ok cs m \<longleftrightarrow> dm_cache_id m = cs_id cs \<and>
     dm_key m \<in> set (cs_known_pages cs) \<and>
     (\<exists>br i. map_of (cs_branches cs) (dm_branch m) = Some br \<and> sees br (dm_key m) = Some i \<and>
        map_of (cs_pages cs) i = Some (dm_page m) \<and>
        (flags_contain (dm_flags m) WRITE \<longrightarrow> dm_key m \<in> cb_exclusive_pages br))"

definition held :: "dax_page_mapping list \<Rightarrow> cache_branch_id \<Rightarrow> nat \<Rightarrow> nat" where
  "held live b p = length (filter (\<lambda>m. dm_branch m = b \<and> cp_id (dm_page m) = p) live)"

definition live_ok :: "dax_page_mapping list \<Rightarrow> ('s, 'i) cache_state \<Rightarrow> bool" where
  "live_ok live cs \<longleftrightarrow> (\<forall>m \<in> set live. mapping_ok cs m) \<and>
     (\<forall>b br p. map_of (cs_branches cs) b = Some br \<longrightarrow> held live b p \<le> bm_count (cb_active_pages br) p)"

definition cache_inv :: "dax_page_mapping list \<Rightarrow> ('s, 'i) cache_state \<times> world \<Rightarrow> bool" where
  "cache_inv live = (\<lambda>(cs, w). pages_ok cs w \<and> branches_ok cs w \<and> keys_ok cs \<and> exclusive_ok cs \<and>
     dirty_ok cs \<and> live_ok live cs)"


text \<open>Branches that differ only in what the invariant does not look at.\<close>

definition alike :: "'s cache_branch \<Rightarrow> 's cache_branch \<Rightarrow> bool" where
  "alike br br' \<longleftrightarrow> ident (cb_store br') = ident (cb_store br) \<and>
     cb_exclusive_pages br' = cb_exclusive_pages br \<and> cb_dirty_pages br' = cb_dirty_pages br \<and>
     cb_active_pages br' = cb_active_pages br"

lemma alike_refl [simp]: "alike br br"
  by (simp add: alike_def)

lemma alike_sees: "alike br br' \<Longrightarrow> sees br' = sees br"
  by (simp add: alike_def sees_def fun_eq_iff)

lemma keys_okD:
  "keys_ok cs \<Longrightarrow> map_of (cs_branches cs) b = Some br \<Longrightarrow> map_of (cs_branches cs) b' = Some br' \<Longrightarrow>
    ident (cb_store br) n p = Some i \<Longrightarrow> ident (cb_store br') n' p' = Some i \<Longrightarrow> n = n' \<and> p = p'"
  unfolding keys_ok_def by blast

lemma exclusive_okD:
  "exclusive_ok cs \<Longrightarrow> map_of (cs_branches cs) b = Some br \<Longrightarrow> key \<in> cb_exclusive_pages br \<Longrightarrow>
    sees br key = Some i \<Longrightarrow> b' \<noteq> b \<Longrightarrow> map_of (cs_branches cs) b' = Some br' \<Longrightarrow> sees br' key \<noteq> Some i"
  unfolding exclusive_ok_def by blast

lemma dirty_okD:
  "dirty_ok cs \<Longrightarrow> map_of (cs_branches cs) b = Some br \<Longrightarrow> ov_wf (cb_dirty_pages br)"
  "dirty_ok cs \<Longrightarrow> map_of (cs_branches cs) b = Some br \<Longrightarrow> ov_get (cb_dirty_pages br) key = Some True \<Longrightarrow>
    key \<in> set (cs_known_pages cs)"
  "dirty_ok cs \<Longrightarrow> map_of (cs_branches cs) b = Some br \<Longrightarrow> ov_get (cb_dirty_pages br) key = Some True \<Longrightarrow>
    sees br key = Some i \<Longrightarrow> map_of (cs_pages cs) i \<noteq> None"
  "dirty_ok cs \<Longrightarrow> map_of (cs_branches cs) b = Some br \<Longrightarrow> ov_get (cb_dirty_pages br) key = Some True \<Longrightarrow>
    sees br key \<noteq> None"
  unfolding dirty_ok_def by blast+

lemma alike_mapping:
  assumes "mapping_ok cs m" "map_of (cs_branches cs) (dm_branch m) = Some br"
    "map_of (cs_branches cs') (dm_branch m) = Some br'" "alike br br'"
    and "cs_pages cs' = cs_pages cs" "cs_known_pages cs' = cs_known_pages cs" "cs_id cs' = cs_id cs"
  shows "mapping_ok cs' m"
  using assms alike_sees [OF assms(4)] by (auto simp: mapping_ok_def alike_def)

lemma alike_views:
  assumes old: "keys_ok cs" "exclusive_ok cs" "dirty_ok cs" "live_ok live cs"
    and same: "cs_pages cs' = cs_pages cs" "cs_known_pages cs' = cs_known_pages cs" "cs_id cs' = cs_id cs"
    and bwd: "\<And>b br'. map_of (cs_branches cs') b = Some br' \<Longrightarrow>
      \<exists>br. map_of (cs_branches cs) b = Some br \<and> alike br br'"
    and fwd: "\<And>b br. map_of (cs_branches cs) b = Some br \<Longrightarrow>
      \<exists>br'. map_of (cs_branches cs') b = Some br' \<and> alike br br'"
  shows "keys_ok cs'" "exclusive_ok cs'" "dirty_ok cs'" "live_ok live cs'"
proof -
  show "keys_ok cs'" unfolding keys_ok_def
  proof (intro allI impI)
    fix b br b' br' n p n' p' i
    assume a: "map_of (cs_branches cs') b = Some br" "map_of (cs_branches cs') b' = Some br'"
      "ident (cb_store br) n p = Some i" "ident (cb_store br') n' p' = Some i"
    obtain br0 where br0: "map_of (cs_branches cs) b = Some br0" "alike br0 br" using bwd [OF a(1)] by blast
    obtain br1 where br1: "map_of (cs_branches cs) b' = Some br1" "alike br1 br'" using bwd [OF a(2)] by blast
    show "n = n' \<and> p = p'"
      using keys_okD [OF old(1) br0(1) br1(1)] a(3,4) br0(2) br1(2) by (simp add: alike_def)
  qed
  show "exclusive_ok cs'" unfolding exclusive_ok_def
  proof (intro allI impI)
    fix b br key i b' br'
    assume a: "map_of (cs_branches cs') b = Some br" "key \<in> cb_exclusive_pages br" "sees br key = Some i"
      "b' \<noteq> b" "map_of (cs_branches cs') b' = Some br'"
    obtain br0 where br0: "map_of (cs_branches cs) b = Some br0" "alike br0 br" using bwd [OF a(1)] by blast
    obtain br1 where br1: "map_of (cs_branches cs) b' = Some br1" "alike br1 br'" using bwd [OF a(5)] by blast
    have "key \<in> cb_exclusive_pages br0" "sees br0 key = Some i"
      using a(2,3) br0(2) alike_sees [OF br0(2)] by (simp_all add: alike_def)
    from exclusive_okD [OF old(2) br0(1) this a(4) br1(1)] show "sees br' key \<noteq> Some i"
      using alike_sees [OF br1(2)] by simp
  qed
  show "dirty_ok cs'" unfolding dirty_ok_def
  proof (intro allI impI)
    fix b br key assume "map_of (cs_branches cs') b = Some br"
    from bwd [OF this] obtain br0 where br0: "map_of (cs_branches cs) b = Some br0" "alike br0 br" by blast
    from dirty_okD [OF old(3) br0(1)] alike_sees [OF br0(2)] br0(2)
    show "ov_wf (cb_dirty_pages br) \<and> (ov_get (cb_dirty_pages br) key = Some True \<longrightarrow>
        key \<in> set (cs_known_pages cs') \<and> sees br key \<noteq> None \<and> (\<forall>i. sees br key = Some i \<longrightarrow> map_of (cs_pages cs') i \<noteq> None))"
      unfolding same by (simp add: alike_def)
  qed
  have "mapping_ok cs' m" if m: "mapping_ok cs m" for m
  proof -
    obtain br where br: "map_of (cs_branches cs) (dm_branch m) = Some br" using m by (auto simp: mapping_ok_def)
    obtain br' where "map_of (cs_branches cs') (dm_branch m) = Some br'" "alike br br'" using fwd [OF br] by blast
    then show ?thesis by (rule alike_mapping [OF m br _ _ same])
  qed
  moreover have "held live b p \<le> bm_count (cb_active_pages br) p"
    if "map_of (cs_branches cs') b = Some br" for b br p
    using bwd [OF that] old(4) by (auto simp: live_ok_def alike_def)
  ultimately show "live_ok live cs'" using old(4) by (simp add: live_ok_def)
qed

lemma pages_ok_grow:
  assumes "pages_ok cs w" "w_next_inode w \<le> w_next_inode w'"
    "next_cache_page_id w \<le> next_cache_page_id w'" "next_page_version w' = next_page_version w"
    "next_file_object_id w' = next_file_object_id w"
    and "cs_pages cs' = cs_pages cs"
  shows "pages_ok cs' w'"
  using assms(1) unfolding pages_ok_def assms(4,5,6)
  by (auto intro: order_less_le_trans [OF _ assms(2)] order_less_le_trans [OF _ assms(3)])

lemma branches_okD:
  assumes "branches_ok cs w" "map_of (cs_branches cs) b = Some br"
  shows "cb_raw b < cs_next_branch cs" "owned (cb_store br) \<subseteq> {..<w_next_inode w}"
    "ident (cb_store br) n p = Some i \<Longrightarrow> i \<in> issued (next_file_object_id w) (next_page_version w)"
    "map_of (cs_pages cs) i = Some pg \<Longrightarrow> cp_backing pg \<notin> owned (cb_store br)"
  using assms unfolding branches_ok_def by blast+

lemma pages_okD:
  assumes "pages_ok cs w" "map_of (cs_pages cs) i = Some p"
  shows "i \<in> issued (next_file_object_id w) (next_page_version w)" "cp_id p < next_cache_page_id w" "cp_backing p < w_next_inode w"
    "map_of (cs_pages cs) j = Some q \<Longrightarrow> cp_id p = cp_id q \<Longrightarrow> i = j"
    "map_of (cs_pages cs) j = Some q \<Longrightarrow> cp_backing p = cp_backing q \<Longrightarrow> i = j"
  using assms unfolding pages_ok_def by blast+

lemma inv_store_call:
  assumes inv: "cache_inv live (cs, w)" and b: "map_of (cs_branches cs) b = Some br"
    and s': "ident s' = ident (cb_store br)" "calm owned (cb_store br) w s' w'"
      "next_page_version w' = next_page_version w"
  shows "cache_inv live (cs\<lparr>cs_branches := bm_insert b (br\<lparr>cb_store := s'\<rparr>) (cs_branches cs)\<rparr>, w')"
    (is "cache_inv live (?cs, w')")
proof -
  have inv': "pages_ok cs w" "branches_ok cs w" "keys_ok cs" "exclusive_ok cs" "dirty_ok cs" "live_ok live cs"
    using inv by (simp_all add: cache_inv_def)
  have grow: "w_next_inode w \<le> w_next_inode w'" using s'(2) by (simp add: calm_def)
  have pages: "pages_ok ?cs w'"
    by (rule pages_ok_grow [OF inv'(1) grow]) (use s' in \<open>simp_all add: calm_def\<close>)
  have own: "cp_backing p \<notin> owned s'" if "map_of (cs_pages cs) i = Some p" for i p
    using pages_okD(3) [OF inv'(1) that] branches_okD(4) [OF inv'(2) b that] s'(2) by (auto simp: calm_def)
  have own': "owned s' \<subseteq> {..<w_next_inode w'}"
    by (rule calm_owned [OF s'(2) branches_okD(2) [OF inv'(2) b]])
  have "branches_ok ?cs w'" unfolding branches_ok_def
  proof (intro conjI allI impI)
    show "bm_wf (cs_branches ?cs)" using inv'(2) by (simp add: branches_ok_def)
    fix c brc assume c: "map_of (cs_branches ?cs) c = Some brc"
    obtain br0 where br0: "map_of (cs_branches cs) c = Some br0" "ident (cb_store brc) = ident (cb_store br0)"
      "c = b \<and> cb_store brc = s' \<or> brc = br0"
      using c b s'(1) by (cases "c = b") auto
    note D = branches_okD [OF inv'(2) br0(1)]
    show "cb_raw c < cs_next_branch ?cs" using D(1) by simp
    show "owned (cb_store brc) \<subseteq> {..<w_next_inode w'}"
      using br0(3) own' below_trans [OF D(2) grow] by blast
    show "i \<in> issued (next_file_object_id w') (next_page_version w')" if "ident (cb_store brc) n p = Some i" for n p i
      using that D(3) br0(2) s'(2,3) by (simp add: calm_def)
    show "cp_backing p \<notin> owned (cb_store brc)" if "map_of (cs_pages ?cs) i = Some p" for i p
      using that own D(4) br0(3) by auto
  qed
  moreover have "keys_ok ?cs \<and> exclusive_ok ?cs \<and> dirty_ok ?cs \<and> live_ok live ?cs"
    using b s'(1) by (intro conjI alike_views [OF inv'(3-6), of ?cs]) (auto simp: alike_def split: if_splits)
  ultimately show ?thesis using pages by (simp add: cache_inv_def)
qed

text \<open>A step of the world alone: files below the old inode limit, identities and numbers stay.\<close>

definition world_grows :: "world \<Rightarrow> world \<Rightarrow> bool" where
  "world_grows w w' \<longleftrightarrow> w_next_inode w \<le> w_next_inode w' \<and>
     next_cache_page_id w \<le> next_cache_page_id w' \<and> next_page_version w' = next_page_version w \<and>
     next_file_object_id w' = next_file_object_id w"

lemma inv_world:
  assumes "cache_inv live (cs, w)" "world_grows w w'"
  shows "cache_inv live (cs, w')"
proof -
  have "pages_ok cs w'"
    using assms by (intro pages_ok_grow [of cs w w' cs]) (simp_all add: cache_inv_def world_grows_def)
  moreover have "branches_ok cs w'" unfolding branches_ok_def
  proof (intro conjI allI impI)
    have D: "branches_ok cs w" using assms(1) by (simp add: cache_inv_def)
    show "bm_wf (cs_branches cs)" using D by (simp add: branches_ok_def)
    fix b br assume b: "map_of (cs_branches cs) b = Some br"
    show "cb_raw b < cs_next_branch cs" using branches_okD(1) [OF D b] .
    show "owned (cb_store br) \<subseteq> {..<w_next_inode w'}"
      by (rule below_trans [OF branches_okD(2) [OF D b]]) (use assms(2) in \<open>simp add: world_grows_def\<close>)
    show "i \<in> issued (next_file_object_id w') (next_page_version w')" if "ident (cb_store br) n p = Some i" for n p i
      using branches_okD(3) [OF D b that] assms(2) by (simp add: world_grows_def)
    show "cp_backing p \<notin> owned (cb_store br)" if "map_of (cs_pages cs) i = Some p" for i p
      using branches_okD(4) [OF D b that] .
  qed
  ultimately show ?thesis using assms(1) by (simp add: cache_inv_def)
qed

end

section \<open>Identity look-ups\<close>

lemma bex_keys:
  "(\<exists>k \<in> set (bm_keys m). \<exists>v. map_of m k = Some v \<and> P v) \<longleftrightarrow> (\<exists>k v. map_of m k = Some v \<and> P v)"
proof
  assume "\<exists>k v. map_of m k = Some v \<and> P v"
  then obtain k v where "map_of m k = Some v" "P v" by blast
  moreover from this(1) have "k \<in> set (bm_keys m)" unfolding list.set_map by (rule dom_map_of_fst)
  ultimately show "\<exists>k \<in> set (bm_keys m). \<exists>v. map_of m k = Some v \<and> P v" by blast
qed blast

context forkable_store
begin

lemma identity_call:
  assumes "bm_wf (cs_branches cs)"
  shows "on_store b (fs_page_identity st n off) (cs, w) =
    (case map_of (cs_branches cs) b of
       None \<Rightarrow> Inl (BranchNotFound (cb_raw b))
     | Some br \<Rightarrow> (case sees br (n, off) of None \<Rightarrow> Inl (Io (OsError EIO)) | Some i \<Rightarrow> Inr i), (cs, w))"
  using assms by (auto simp: on_store.simps page_identity_law sees_def bm_insert_same split: option.splits)

lemma any_sees_call:
  assumes "bm_wf (cs_branches cs)"
  shows "any_sees_identity st i n off bs (cs, w) =
    (Inr (\<exists>b \<in> set bs. \<exists>br. map_of (cs_branches cs) b = Some br \<and> sees br (n, off) = Some i), (cs, w))"
proof (induction bs)
  case (Cons b bs)
  then show ?case
    using identity_call [OF assms, of b n off w]
    by (auto simp: mattempt_apply split: option.splits)
qed simp

lemma page_identities_call:
  assumes "bm_wf (cs_branches cs)"
  shows "page_identities st key bs vis (cs, w) =
    (Inr (vis \<union> {i. \<exists>b \<in> set bs. \<exists>br. map_of (cs_branches cs) b = Some br \<and> sees br key = Some i}), (cs, w))"
proof (induction bs arbitrary: vis)
  case (Cons b bs)
  then show ?case
    using identity_call [OF assms, of b "fst key" "snd key" w]
    by (auto simp: mattempt_apply split: option.splits)
qed simp

lemma visible_identities_call:
  assumes "bm_wf (cs_branches cs)"
  shows "visible_identities st keys vis (cs, w) =
    (Inr (vis \<union> {i. \<exists>key \<in> set keys. \<exists>b br. map_of (cs_branches cs) b = Some br \<and> sees br key = Some i}), (cs, w))"
proof (induction keys arbitrary: vis)
  case (Cons key keys)
  let ?vis = "\<lambda>key. {i. \<exists>b br. map_of (cs_branches cs) b = Some br \<and> sees br key = Some i}"
  have "{i. \<exists>b \<in> set (bm_keys (cs_branches cs)). \<exists>br. map_of (cs_branches cs) b = Some br \<and> sees br key = Some i} = ?vis key"
    unfolding bex_keys ..
  then have one: "page_identities st key (bm_keys (cs_branches cs)) vis (cs, w) = (Inr (vis \<union> ?vis key), (cs, w))"
    unfolding page_identities_call [OF assms] by (simp only:)
  have "vis \<union> ?vis key \<union> {i. \<exists>k \<in> set keys. i \<in> ?vis k} = vis \<union> {i. \<exists>k \<in> set (key # keys). i \<in> ?vis k}"
    by auto
  then show ?case
    by (simp only: visible_identities.simps mbind_apply gets_apply case_prod_conv prod.case sum.case one
        Cons.IH mem_Collect_eq)
qed simp

lemma mapping_okE:
  assumes "mapping_ok cs m"
  obtains br i where "dm_cache_id m = cs_id cs" "dm_key m \<in> set (cs_known_pages cs)"
    "map_of (cs_branches cs) (dm_branch m) = Some br" "sees br (dm_key m) = Some i"
    "map_of (cs_pages cs) i = Some (dm_page m)"
    "flags_contain (dm_flags m) WRITE \<longrightarrow> dm_key m \<in> cb_exclusive_pages br"
  using assms by (auto simp: mapping_ok_def)

lemma mapping_okI:
  assumes "dm_cache_id m = cs_id cs" "dm_key m \<in> set (cs_known_pages cs)"
    "map_of (cs_branches cs) (dm_branch m) = Some br" "sees br (dm_key m) = Some i"
    "map_of (cs_pages cs) i = Some (dm_page m)"
    "flags_contain (dm_flags m) WRITE \<longrightarrow> dm_key m \<in> cb_exclusive_pages br"
  shows "mapping_ok cs m"
  using assms by (auto simp: mapping_ok_def)

lemma cache_invD:
  assumes "cache_inv live (cs, w)"
  shows "pages_ok cs w" "branches_ok cs w" "keys_ok cs" "exclusive_ok cs" "dirty_ok cs" "live_ok live cs"
    "bm_wf (cs_branches cs)" "bm_wf (cs_pages cs)"
  using assms by (simp_all add: cache_inv_def branches_ok_def pages_ok_def)

lemma cache_invI:
  "pages_ok cs w \<Longrightarrow> branches_ok cs w \<Longrightarrow> keys_ok cs \<Longrightarrow> exclusive_ok cs \<Longrightarrow> dirty_ok cs \<Longrightarrow>
    live_ok live cs \<Longrightarrow> cache_inv live (cs, w)"
  by (simp add: cache_inv_def)

section \<open>Pages enter the cache\<close>

text \<open>A page that no cached page shares a number or a file with, and that no store owns.\<close>

definition new_page :: "('s, 'i) cache_state \<Rightarrow> world \<Rightarrow> cache_page \<Rightarrow> bool" where
  "new_page cs w p \<longleftrightarrow> cp_id p < next_cache_page_id w \<and> cp_backing p < w_next_inode w \<and>
     (\<forall>j q. map_of (cs_pages cs) j = Some q \<longrightarrow> cp_id q \<noteq> cp_id p \<and> cp_backing q \<noteq> cp_backing p) \<and>
     (\<forall>b br. map_of (cs_branches cs) b = Some br \<longrightarrow> cp_backing p \<notin> owned (cb_store br))"

lemma makes_new_page:
  assumes "cache_inv live (cs, w)" "makes_page w w' (Inr p) bytes" "next_cache_page_id w + 1 < u64_bound"
  shows "new_page cs w' p" "cache_inv live (cs, w')"
proof -
  have p: "cp_id p = next_cache_page_id w" "cp_backing p = w_next_inode w"
    "next_cache_page_id w' = next_cache_page_id w + 1" "w_next_inode w' = Suc (w_next_inode w)"
    "next_page_version w' = next_page_version w" "next_file_object_id w' = next_file_object_id w"
    using assms(2,3) by (auto simp: makes_page_def u64_succ_small)
  have "cp_id q \<noteq> cp_id p \<and> cp_backing q \<noteq> cp_backing p" if "map_of (cs_pages cs) j = Some q" for j q
    using cache_invD(1) [OF assms(1)] that p by (fastforce simp: pages_ok_def)
  moreover have "cp_backing p \<notin> owned (cb_store br)" if "map_of (cs_branches cs) b = Some br" for b br
    using cache_invD(2) [OF assms(1)] that p by (fastforce simp: branches_ok_def)
  ultimately show "new_page cs w' p" using p by (simp add: new_page_def)
  show "cache_inv live (cs, w')" using p by (intro inv_world [OF assms(1)]) (simp add: world_grows_def)
qed

lemma inv_insert_page:
  assumes inv: "cache_inv live (cs, w)" and new: "new_page cs w p"
    and i: "map_of (cs_pages cs) i = None" "i \<in> issued (next_file_object_id w) (next_page_version w)"
  shows "cache_inv live (cs\<lparr>cs_pages := bm_insert i p (cs_pages cs)\<rparr>, w)" (is "cache_inv live (?cs, w)")
proof (rule cache_invI)
  note D = cache_invD [OF inv]
  show "pages_ok ?cs w" unfolding pages_ok_def
  proof (intro conjI allI impI)
    show "bm_wf (cs_pages ?cs)" using D(8) by simp
    show "j \<in> issued (next_file_object_id w) (next_page_version w)" "cp_id q < next_cache_page_id w" "cp_backing q < w_next_inode w"
      if "map_of (cs_pages ?cs) j = Some q" for j q
      using that D(1) new i by (auto simp: pages_ok_def new_page_def split: if_splits)
    show "j = k" if "map_of (cs_pages ?cs) j = Some q" "map_of (cs_pages ?cs) k = Some q'"
      "cp_id q = cp_id q' \<or> cp_backing q = cp_backing q'" for j k q q'
      using that D(1) new by (fastforce simp: pages_ok_def new_page_def split: if_splits)
  qed
  show "branches_ok ?cs w" using D(2) new by (auto simp: branches_ok_def new_page_def)
  show "keys_ok ?cs" "exclusive_ok ?cs" using D(3,4) by (simp_all add: keys_ok_def exclusive_ok_def)
  show "dirty_ok ?cs" using D(5) by (auto simp: dirty_ok_def)
  have "mapping_ok ?cs m" if "mapping_ok cs m" for m
  proof (rule mapping_okE [OF that])
    fix br j
    assume "dm_cache_id m = cs_id cs" "dm_key m \<in> set (cs_known_pages cs)"
      "map_of (cs_branches cs) (dm_branch m) = Some br" "sees br (dm_key m) = Some j"
      "map_of (cs_pages cs) j = Some (dm_page m)"
      "flags_contain (dm_flags m) WRITE \<longrightarrow> dm_key m \<in> cb_exclusive_pages br"
    then show ?thesis using i(1) by (intro mapping_okI [of m _ br j]) auto
  qed
  then show "live_ok live ?cs" using D(6) by (simp add: live_ok_def)
qed

end

section \<open>Calls that change no view\<close>

context forkable_store
begin

definition quiet :: "('s, 'a) store_meth \<Rightarrow> bool" where
  "quiet m \<longleftrightarrow> (\<forall>s w r s' w'. m (s, w) = (r, (s', w')) \<longrightarrow> ident s' = ident s \<and>
     calm owned s w s' w' \<and> next_page_version w' = next_page_version w)"

lemma quietI:
  assumes "\<And>s w r s' w'. m (s, w) = (r, (s', w')) \<Longrightarrow>
    ident s' = ident s \<and> calm owned s w s' w' \<and> next_page_version w' = next_page_version w"
  shows "quiet m"
  using assms by (simp add: quiet_def)

lemma quiet_laws:
  "quiet (ns_len st node)" "quiet (ns_read_node st node offset len)"
  "quiet (ns_write_node st node offset buf)" "quiet (ns_on_open_node st node)"
  "quiet (ns_on_close_node st node)"
  by (rule quietI, erule len_law read_law write_law open_law close_law)+

lemma quiet_fork: "quiet (fs_fork_store st)"
  by (rule quietI, drule fork_law, simp)

text \<open>What stays over such calls: the shape of every branch, and the cached pages with their data.\<close>

definition kept :: "('s, 'i) cache_state \<Rightarrow> world \<Rightarrow> ('s, 'i) cache_state \<Rightarrow> world \<Rightarrow> bool" where
  "kept cs w cs' w' \<longleftrightarrow> cs_id cs' = cs_id cs \<and> cs_next_branch cs' = cs_next_branch cs \<and>
     cs_known_pages cs' = cs_known_pages cs \<and>
     (\<forall>b. rel_option alike (map_of (cs_branches cs) b) (map_of (cs_branches cs') b)) \<and>
     (\<forall>i p. map_of (cs_pages cs) i = Some p \<longrightarrow> map_of (cs_pages cs') i = Some p \<and>
        w_files w' (cp_backing p) = w_files w (cp_backing p)) \<and>
     next_page_version w' = next_page_version w \<and> next_file_object_id w' = next_file_object_id w"

lemma alike_trans: "alike a b \<Longrightarrow> alike b c \<Longrightarrow> alike a c"
  by (simp add: alike_def)

lemma kept_refl [simp]: "kept cs w cs w"
  by (simp add: kept_def option.rel_refl)

lemma kept_branch:
  assumes "kept cs w cs' w'" "map_of (cs_branches cs) b = Some br"
  obtains br' where "map_of (cs_branches cs') b = Some br'" "alike br br'"
proof -
  have "rel_option alike (Some br) (map_of (cs_branches cs') b)"
    using assms by (metis kept_def)
  then show thesis using that by (cases "map_of (cs_branches cs') b") auto
qed

lemma kept_page:
  assumes "kept cs w cs' w'" "map_of (cs_pages cs) i = Some p"
  shows "map_of (cs_pages cs') i = Some p" "w_files w' (cp_backing p) = w_files w (cp_backing p)"
  using assms unfolding kept_def by blast+

lemma kept_trans:
  assumes "kept cs w cs1 w1" "kept cs1 w1 cs2 w2"
  shows "kept cs w cs2 w2"
proof -
  have "rel_option alike (map_of (cs_branches cs) b) (map_of (cs_branches cs2) b)" for b
  proof -
    have "rel_option alike (map_of (cs_branches cs) b) (map_of (cs_branches cs1) b)"
      "rel_option alike (map_of (cs_branches cs1) b) (map_of (cs_branches cs2) b)"
      using assms by (simp_all add: kept_def)
    then show ?thesis by (auto simp: option.rel_sel elim: alike_trans)
  qed
  moreover have "map_of (cs_pages cs2) i = Some p \<and> w_files w2 (cp_backing p) = w_files w (cp_backing p)"
    if "map_of (cs_pages cs) i = Some p" for i p
    using kept_page [OF assms(1) that] kept_page [OF assms(2), of i p] by simp
  ultimately show ?thesis using assms(1,2) unfolding kept_def by simp
qed

lemma on_store_quiet:
  assumes inv: "cache_inv live (cs, w)" and m: "quiet m" and call: "on_store b m (cs, w) = (r, (cs', w'))"
  shows "cache_inv live (cs', w')" "kept cs w cs' w'" "cs_pages cs' = cs_pages cs"
    "next_cache_page_id w' = next_cache_page_id w"
proof -
  have "cache_inv live (cs', w') \<and> kept cs w cs' w' \<and> cs_pages cs' = cs_pages cs \<and>
    next_cache_page_id w' = next_cache_page_id w"
  proof (cases "map_of (cs_branches cs) b")
    case None
    then show ?thesis using call inv by (simp add: on_store.simps)
  next
    case (Some br)
    obtain r0 s' where s': "m (cb_store br, w) = (r0, (s', w'))"
      "cs' = cs\<lparr>cs_branches := bm_insert b (br\<lparr>cb_store := s'\<rparr>) (cs_branches cs)\<rparr>"
      using call Some by (auto simp: on_store.simps split: prod.splits)
    have q: "ident s' = ident (cb_store br)" "calm owned (cb_store br) w s' w'"
      "next_page_version w' = next_page_version w"
      using m s'(1) unfolding quiet_def by blast+
    have "w_files w' (cp_backing p) = w_files w (cp_backing p)" if "map_of (cs_pages cs) i = Some p" for i p
      using pages_okD(3) [OF cache_invD(1) [OF inv] that] branches_okD(4) [OF cache_invD(2) [OF inv] Some that] q(2)
      by (simp add: calm_def)
    then have "kept cs w cs' w'"
      using Some q by (auto simp: kept_def s'(2) option.rel_refl alike_def calm_def)
    then show ?thesis
      using inv_store_call [OF inv Some q] q(2) by (simp add: s'(2) calm_def)
  qed
  then show "cache_inv live (cs', w')" "kept cs w cs' w'" "cs_pages cs' = cs_pages cs"
    "next_cache_page_id w' = next_cache_page_id w" by blast+
qed

lemma load_page_inv:
  assumes inv: "cache_inv live (cs, w)" and b: "map_of (cs_branches cs) b = Some br" "sees br (n, off) = Some i"
    and room: "next_cache_page_id w + 1 < u64_bound"
    and call: "load_page st b i n off (cs, w) = (r, (cs', w'))"
  shows "cache_inv live (cs', w') \<and> kept cs w cs' w' \<and> next_cache_page_id w' \<le> next_cache_page_id w + 1 \<and>
    (\<forall>p. r = Inr p \<longrightarrow> map_of (cs_pages cs') i = Some p)"
proof (cases "map_of (cs_pages cs) i")
  case (Some p)
  then show ?thesis using call inv by (auto simp: load_page_def mbind_apply)
next
  case None
  obtain r1 cs1 w1 where rd: "on_store b (ns_read_node st n off PAGE_SIZE) (cs, w) = (r1, (cs1, w1))"
    by (metis prod.exhaust)
  note rd1 = on_store_quiet [OF inv quiet_laws(2) rd]
  show ?thesis
  proof (cases r1)
    case (Inl e)
    then show ?thesis using call None rd rd1 by (auto simp: load_page_def mbind_apply)
  next
    case (Inr bytes)
    obtain r2 w2 where mk: "page_from_bytes (resize PAGE_SIZE bytes) w1 = (r2, w2)" by (metis prod.exhaust)
    note made = page_from_bytes_makes [OF mk]
    have grows: "world_grows w1 w2"
      using made room rd1(4) by (auto simp: makes_page_def world_grows_def u64_succ_small split: sum.splits)
    have kept2: "kept cs1 w1 cs1 w2"
      using made pages_okD(3) [OF cache_invD(1) [OF rd1(1)]] by (auto simp: kept_def option.rel_refl makes_page_def)
    note inv2 = inv_world [OF rd1(1) grows] and kept12 = kept_trans [OF rd1(2) kept2]
    show ?thesis
    proof (cases r2)
      case (Inl e)
      then have "cs' = cs1" "w' = w2" "r = Inl (Io e)"
        using call None rd Inr mk by (auto simp: load_page_def mbind_apply map_err_apply on_world_apply)
      then show ?thesis using inv2 kept12 made Inl rd1(4) by (simp add: makes_page_def)
    next
      case (Inr p)
      have res: "cs' = cs1\<lparr>cs_pages := bm_insert i p (cs_pages cs1)\<rparr>" "w' = w2" "r = Inr p"
        using call None rd \<open>r1 = Inr bytes\<close> mk Inr by (auto simp: load_page_def mbind_apply map_err_apply on_world_apply)
      have fresh: "map_of (cs_pages cs1) i = None" using None rd1(3) by simp
      have "i \<in> issued (next_file_object_id w2) (next_page_version w2)"
        using branches_okD(3) [OF cache_invD(2) [OF inv] b(1)] b(2) kept12 by (simp add: sees_def kept_def)
      then have "cache_inv live (cs', w')" unfolding res
        using makes_new_page(1) [OF rd1(1) made [unfolded Inr]] room rd1(4) fresh by (intro inv_insert_page [OF inv2]) simp_all
      moreover have "kept cs1 w2 cs' w'" using fresh by (auto simp: kept_def res option.rel_refl)
      ultimately show ?thesis
        using kept_trans [OF kept12] made Inr rd1(4) room by (auto simp: res makes_page_def u64_succ_small)
    qed
  qed
qed

end

end
