(* ===== verification/HostFiles.thy ===== *)
theory HostFiles
  imports CacheBase
begin

text \<open>
  Named host files, as \<^verbatim>\<open>minidox-redoxfs/src/branching.rs\<close> uses them for the layers of a durable
  disk: exclusive creation, hard links, whole-file reads, appends, and the two loops that look for
  an unused number. Several names may stand for one file.
\<close>

text \<open>
  The kernel reports that a name is taken exactly when it is; a fault is never of that kind.
\<close>

definition error_kind :: "io_error \<Rightarrow> io_kind" where
  "error_kind e = (case e of IoError k m \<Rightarrow> k
     | OsError n \<Rightarrow> if n = 17 then AlreadyExists else if n = ENOENT then NotFound else OtherKind)"

definition host_fault :: "io_error \<Rightarrow> io_error" where
  "host_fault e = (if error_kind e = AlreadyExists then IoError OtherKind ''host fault'' else e)"

definition host_try :: "(world, io_error, unit) meth" where
  "host_try w = (case host_call w of (r, w') \<Rightarrow> (map_sum host_fault (\<lambda>_. ()) r, w'))"

definition already_exists :: io_error where
  "already_exists = IoError AlreadyExists ''file exists''"

definition not_found :: io_error where
  "not_found = IoError NotFound ''no such file''"

text \<open>\<^verbatim>\<open>OpenOptions::new().read(true).append(true).create_new(true).open(path)\<close>\<close>

definition create_new :: "fname \<Rightarrow> (world, io_error, nat) meth" where
  "create_new name = mbind host_try (\<lambda>_ w.
    (case map_of (w_names w) name of
      Some _ \<Rightarrow> (Inl already_exists, w)
    | None \<Rightarrow> (Inr (w_next_inode w),
        w\<lparr>w_files := (w_files w)(w_next_inode w \<mapsto> []), w_next_inode := Suc (w_next_inode w),
          w_names := bm_insert name (w_next_inode w) (w_names w)\<rparr>)))"

definition hard_link :: "fname \<Rightarrow> fname \<Rightarrow> (world, io_error, unit) meth" where
  "hard_link source name = mbind host_try (\<lambda>_ w.
    (case map_of (w_names w) source of
      None \<Rightarrow> (Inl not_found, w)
    | Some h \<Rightarrow>
        (case map_of (w_names w) name of
          Some _ \<Rightarrow> (Inl already_exists, w)
        | None \<Rightarrow> (Inr (), w\<lparr>w_names := bm_insert name h (w_names w)\<rparr>))))"

definition open_file :: "fname \<Rightarrow> (world, io_error, nat) meth" where
  "open_file name = mbind host_try (\<lambda>_ w.
    (case map_of (w_names w) name of None \<Rightarrow> (Inl not_found, w) | Some h \<Rightarrow> (Inr h, w)))"

text \<open>\<^verbatim>\<open>fs::read\<close> of a whole file, and the length that \<^verbatim>\<open>metadata\<close> reports.\<close>

definition read_file :: "fname \<Rightarrow> (world, io_error, bytes) meth" where
  "read_file name = mbind (open_file name) (\<lambda>h w. (Inr (file_data w h), w))"

definition metadata_len :: "fname \<Rightarrow> (world, io_error, nat) meth" where
  "metadata_len name = mbind (open_file name) (\<lambda>h w. (Inr (length (file_data w h)), w))"

text \<open>\<^verbatim>\<open>sync_data\<close>, \<^verbatim>\<open>sync_all\<close> and \<^verbatim>\<open>create_dir_all\<close> can fail and change no contents.\<close>

definition sync_data :: "nat \<Rightarrow> (world, io_error, unit) meth" where
  "sync_data h = host_try"

definition create_dir_all :: "string \<Rightarrow> (world, io_error, unit) meth" where
  "create_dir_all directory = host_try"

text \<open>\<^verbatim>\<open>write_all\<close> on a file opened for appending: every transfer goes to the end of the file.\<close>

definition append_all :: "nat \<Rightarrow> bytes \<Rightarrow> (world, io_error, unit) meth" where
  "append_all h buf w = std_write_all_at h buf (length (file_data w h)) w"

section \<open>Numbered files\<close>

definition next_durable_id :: "(world, io_error, nat) meth" where
  "next_durable_id w = (Inr (next_durable_layer_id w), w\<lparr>next_durable_layer_id := u64_succ (next_durable_layer_id w)\<rparr>)"

text \<open>
  The loops of \<^verbatim>\<open>create_numbered_file\<close> and \<^verbatim>\<open>link_numbered_file\<close>, with a bound on the rounds. The
  bound used below is one more than the number of names, and then never reached, see
  \<open>create_numbered_file_returns\<close>.
\<close>

definition rounds_exhausted :: io_error where
  "rounds_exhausted = IoError OtherKind ''numbered file search does not end''"

fun numbered_loop ::
  "(nat \<Rightarrow> (world, io_error, 'a) meth) \<Rightarrow> nat \<Rightarrow> (world, io_error, nat \<times> 'a) meth" where
  "numbered_loop attempt 0 = raise rounds_exhausted"
| "numbered_loop attempt (Suc rounds) =
    mbind next_durable_id (\<lambda>i.
    mattempt (attempt i) (\<lambda>r.
      case r of
        Inr file \<Rightarrow> ok (i, file)
      | Inl e \<Rightarrow> if error_kind e = AlreadyExists then numbered_loop attempt rounds else raise e))"

definition create_numbered_file :: "string \<Rightarrow> string \<Rightarrow> (world, io_error, nat \<times> nat) meth" where
  "create_numbered_file directory prefix w =
    numbered_loop (\<lambda>i. create_new (directory, prefix, i)) (Suc (length (w_names w))) w"

definition link_numbered_file :: "string \<Rightarrow> string \<Rightarrow> fname \<Rightarrow> (world, io_error, nat \<times> fname) meth" where
  "link_numbered_file directory prefix source w =
    numbered_loop (\<lambda>i. mbind (hard_link source (directory, prefix, i)) (\<lambda>_. ok (directory, prefix, i)))
      (Suc (length (w_names w))) w"

definition sync_directory :: "string \<Rightarrow> (world, io_error, unit) meth" where
  "sync_directory directory = mbind host_try (\<lambda>_. host_try)"

section \<open>Little-endian numbers\<close>

text \<open>\<^verbatim>\<open>to_le_bytes\<close> and \<^verbatim>\<open>from_le_bytes\<close> of a \<^verbatim>\<open>u64\<close>.\<close>

fun le_bytes :: "nat \<Rightarrow> nat \<Rightarrow> bytes" where
  "le_bytes 0 x = []"
| "le_bytes (Suc n) x = word_of_nat (x mod 256) # le_bytes n (x div 256)"

fun of_le_bytes :: "bytes \<Rightarrow> nat" where
  "of_le_bytes [] = 0"
| "of_le_bytes (b # bs) = unat b + 256 * of_le_bytes bs"

definition to_le_bytes :: "nat \<Rightarrow> bytes" where
  "to_le_bytes x = le_bytes 8 x"

definition from_le_bytes :: "bytes \<Rightarrow> nat" where
  "from_le_bytes bs = of_le_bytes bs"

lemma length_le_bytes [simp]: "length (le_bytes n x) = n"
  by (induction n arbitrary: x) simp_all

lemma length_to_le_bytes [simp]: "length (to_le_bytes x) = 8"
  by (simp add: to_le_bytes_def)

lemma of_le_bytes_le_bytes: "x < 256 ^ n \<Longrightarrow> of_le_bytes (le_bytes n x) = x"
proof (induction n arbitrary: x)
  case (Suc n)
  have "x div 256 < 256 ^ n" using Suc.prems by (simp add: less_mult_imp_div_less mult.commute)
  moreover have "unat (word_of_nat (x mod 256) :: byte) = x mod 256" by (simp add: unat_of_nat)
  ultimately show ?case using Suc.IH by simp
qed simp

lemma from_le_bytes_to_le_bytes [simp]: "x < u64_bound \<Longrightarrow> from_le_bytes (to_le_bytes x) = x"
  by (simp add: from_le_bytes_def to_le_bytes_def of_le_bytes_le_bytes u64_bound_def)


section \<open>What the calls leave alone\<close>

text \<open>
  Files that exist keep their contents, and the identity counters of pages and files stay, over
  every call of this theory except appends.
\<close>

definition host_quiet :: "world \<Rightarrow> world \<Rightarrow> bool" where
  "host_quiet w w' \<longleftrightarrow> w_next_inode w \<le> w_next_inode w' \<and> (\<forall>h < w_next_inode w. w_files w' h = w_files w h) \<and>
     next_cache_page_id w' = next_cache_page_id w \<and> next_file_object_id w' = next_file_object_id w \<and>
     next_page_version w' = next_page_version w \<and> w_answers w' = w_answers w"

lemma host_quiet_refl [simp]: "host_quiet w w"
  by (simp add: host_quiet_def)

lemma host_quiet_trans: "host_quiet w w1 \<Longrightarrow> host_quiet w1 w2 \<Longrightarrow> host_quiet w w2"
  by (simp add: host_quiet_def)

lemma same_host_quiet: "same_but_tick w w' \<Longrightarrow> host_quiet w w'"
  by (auto simp: host_quiet_def dest: same_but_tickD)

definition gentle :: "(world, 'e, 'a) meth \<Rightarrow> bool" where
  "gentle m \<longleftrightarrow> (\<forall>w. host_quiet w (snd (m w)))"

named_theorems gentle_intros \<open>methods that leave existing files alone\<close>

lemma gentleD: "gentle m \<Longrightarrow> m w = (r, w') \<Longrightarrow> host_quiet w w'"
  by (metis gentle_def snd_conv)

lemma gentle_ok [gentle_intros]: "gentle (ok x)" "gentle (raise e)"
  by (simp_all add: gentle_def)

lemma gentle_mbind [gentle_intros]: "gentle m \<Longrightarrow> (\<And>a. gentle (f a)) \<Longrightarrow> gentle (mbind m f)"
  unfolding gentle_def
  by (auto simp: mbind_def split: prod.splits sum.splits) (metis host_quiet_trans snd_conv)+

lemma gentle_mattempt [gentle_intros]: "gentle m \<Longrightarrow> (\<And>a. gentle (f a)) \<Longrightarrow> gentle (mattempt m f)"
  unfolding gentle_def by (auto simp: mattempt_def split: prod.splits) (metis host_quiet_trans snd_conv)

lemma gentle_case_sum [gentle_intros]:
  "(\<And>e. gentle (f e)) \<Longrightarrow> (\<And>a. gentle (g a)) \<Longrightarrow> gentle (case r of Inl e \<Rightarrow> f e | Inr a \<Rightarrow> g a)"
  by (cases r) simp_all

lemma gentle_if [gentle_intros]: "gentle m \<Longrightarrow> gentle m' \<Longrightarrow> gentle (if b then m else m')"
  by simp

lemma gentle_mfor [gentle_intros]: "(\<And>x. gentle (f x)) \<Longrightarrow> gentle (mfor xs f)"
  by (induction xs) (auto intro: gentle_intros)

lemma gentle_host_try [gentle_intros]: "gentle host_try"
  unfolding gentle_def host_try_def
  by (auto simp: host_call_def host_quiet_def split: host_answer.splits)

lemma gentle_next_durable_id [gentle_intros]: "gentle next_durable_id"
  by (simp add: gentle_def next_durable_id_def host_quiet_def)

lemma gentle_world_call:
  "(\<And>a w. host_quiet w (snd (f a w))) \<Longrightarrow> gentle m \<Longrightarrow> gentle (mbind m f)"
  by (rule gentle_mbind) (simp_all add: gentle_def)

lemma gentle_files [gentle_intros]:
  "gentle (create_new name)" "gentle (hard_link source name)" "gentle (open_file name)"
  "gentle (read_file name)" "gentle (metadata_len name)" "gentle (sync_data h)"
  "gentle (create_dir_all directory)" "gentle (sync_directory directory)"
proof -
  show o: "gentle (open_file name)" for name
    unfolding open_file_def by (rule gentle_world_call [OF _ gentle_host_try]) (simp split: option.splits)
  show "gentle (create_new name)" "gentle (hard_link source name)"
    unfolding create_new_def hard_link_def
    by (rule gentle_world_call [OF _ gentle_host_try], simp add: host_quiet_def split: option.splits)+
  show "gentle (read_file name)" "gentle (metadata_len name)"
    unfolding read_file_def metadata_len_def by (rule gentle_world_call [OF _ o], simp)+
  show "gentle (sync_data h)" "gentle (create_dir_all directory)" "gentle (sync_directory directory)"
    unfolding sync_data_def create_dir_all_def sync_directory_def by (intro gentle_intros)+
qed

lemma gentle_numbered_loop: "(\<And>i. gentle (attempt i)) \<Longrightarrow> gentle (numbered_loop attempt rounds)"
proof (induction rounds)
  case (Suc rounds)
  then show ?case unfolding numbered_loop.simps by (intro gentle_intros) simp_all
qed (simp add: gentle_intros)

lemma gentle_numbered [gentle_intros]:
  "gentle (create_numbered_file d p)" "gentle (link_numbered_file d p src)"
proof -
  have "gentle (numbered_loop (\<lambda>i. create_new (d, p, i)) n)"
    "gentle (numbered_loop (\<lambda>i. mbind (hard_link src (d, p, i)) (\<lambda>_. ok (d, p, i))) n)" for n
    by (intro gentle_numbered_loop gentle_intros)+
  then show "gentle (create_numbered_file d p)" "gentle (link_numbered_file d p src)"
    unfolding gentle_def create_numbered_file_def link_numbered_file_def by blast+
qed

text \<open>A created file is new.\<close>

lemma create_new_fresh:
  assumes "create_new name w = (Inr h, w')"
  shows "w_next_inode w \<le> h \<and> h < w_next_inode w' \<and> file_data w' h = []"
  using assms by (auto simp: create_new_def mbind_apply host_try_def host_call_def file_data_def
      split: host_answer.splits option.splits)

lemma numbered_loop_fresh:
  assumes "numbered_loop (\<lambda>i. create_new (d, p, i)) n w = (Inr (i, h), w')"
  shows "w_next_inode w \<le> h \<and> h < w_next_inode w' \<and> file_data w' h = []"
  using assms
proof (induction n arbitrary: w)
  case (Suc n)
  obtain j w1 where w1: "next_durable_id w = (Inr j, w1)" "w_next_inode w1 = w_next_inode w"
    by (simp add: next_durable_id_def)
  obtain r w2 where w2: "create_new (d, p, j) w1 = (r, w2)" by (metis prod.exhaust)
  note q = gentleD [OF gentle_files(1) w2]
  show ?case
  proof (cases r)
    case (Inr h')
    then show ?thesis using Suc.prems w1 w2 create_new_fresh [of "(d, p, j)" w1 h' w2] by (simp add: mbind_apply mattempt_apply)
  next
    case (Inl e)
    then have "numbered_loop (\<lambda>i. create_new (d, p, i)) n w2 = (Inr (i, h), w')"
      using Suc.prems w1 w2 by (auto simp: mbind_apply mattempt_apply split: if_splits)
    then show ?thesis using Suc.IH w1(2) q by (fastforce simp: host_quiet_def)
  qed
qed simp

lemma create_numbered_fresh:
  "create_numbered_file d p w = (Inr (i, h), w') \<Longrightarrow> w_next_inode w \<le> h \<and> h < w_next_inode w' \<and> file_data w' h = []"
  unfolding create_numbered_file_def by (rule numbered_loop_fresh)


section \<open>The search for an unused number ends\<close>

lemma u64_succ_pow: "c < u64_bound \<Longrightarrow> (u64_succ ^^ n) c = (c + n) mod u64_bound"
  by (induction n) (simp_all add: u64_succ_def mod_simps)

lemma u64_window_inj: "inj_on (\<lambda>n. (u64_succ ^^ n) c) {..<u64_bound}" if "c < u64_bound"
proof (rule inj_onI)
  fix a b assume ab: "a \<in> {..<u64_bound}" "b \<in> {..<u64_bound}" "(u64_succ ^^ a) c = (u64_succ ^^ b) c"
  have "(int c + int a) mod int u64_bound = (int c + int b) mod int u64_bound"
    using ab(3) by (simp add: u64_succ_pow [OF that] flip: of_nat_add of_nat_mod)
  then have "int a mod int u64_bound = int b mod int u64_bound" by (simp add: mod_add_left_eq mod_diff_cong mod_eq_dvd_iff)
  then show "a = b" using ab(1,2) by (simp flip: of_nat_mod)
qed

lemma unused_number:
  assumes "c < u64_bound" "length names < u64_bound"
  shows "\<exists>n \<le> length names. map_of names (d, p, (u64_succ ^^ n) c) = None"
proof (rule ccontr)
  let ?f = "\<lambda>n. (d, p, (u64_succ ^^ n) c)"
  assume "\<not> ?thesis"
  then have all: "\<forall>n \<le> length names. map_of names (?f n) \<noteq> None" by simp
  have "?f n \<in> fst ` set names" if n: "n \<le> length names" for n
  proof -
    have "map_of names (?f n) \<noteq> None" using all [rule_format, OF n] .
    then obtain v where "map_of names (?f n) = Some v" by blast
    then show ?thesis by (rule dom_map_of_fst)
  qed
  then have "?f ` {..length names} \<subseteq> set (map fst names)" by auto
  then have "card (?f ` {..length names}) \<le> card (set (map fst names))" by (rule card_mono [OF List.finite_set])
  also have "\<dots> \<le> length names" using card_length [of "map fst names"] by simp
  finally have "card (?f ` {..length names}) \<le> length names" .
  moreover have "inj_on (\<lambda>n. (d, p, (u64_succ ^^ n) c)) {..length names}"
  proof -
    have "{..length names} \<subseteq> {..<u64_bound}" using assms(2) by auto
    from inj_on_subset [OF u64_window_inj [OF assms(1)] this] show ?thesis by (simp add: inj_on_def)
  qed
  ultimately show False by (simp add: card_image)
qed

lemma numbered_loop_finds:
  assumes "healthy w" "\<forall>m < n. map_of (w_names w) (d, p, (u64_succ ^^ m) (next_durable_layer_id w)) \<noteq> None"
    "map_of (w_names w) (d, p, (u64_succ ^^ n) (next_durable_layer_id w)) = None" "n < rounds"
  shows "\<exists>w'. numbered_loop (\<lambda>i. create_new (d, p, i)) rounds w =
      (Inr ((u64_succ ^^ n) (next_durable_layer_id w), w_next_inode w), w') \<and>
    w_names w' = bm_insert (d, p, (u64_succ ^^ n) (next_durable_layer_id w)) (w_next_inode w) (w_names w)"
  using assms
proof (induction n arbitrary: w rounds)
  case 0
  then obtain k where "rounds = Suc k" by (cases rounds) auto
  then show ?case
    using 0 healthy_host_call [of "w\<lparr>next_durable_layer_id := u64_succ (next_durable_layer_id w)\<rparr>"]
    by (auto simp: mbind_apply mattempt_apply next_durable_id_def create_new_def host_try_def healthy_def)
next
  case (Suc n)
  then obtain k where k: "rounds = Suc k" "n < k" by (cases rounds) auto
  let ?w = "w\<lparr>next_durable_layer_id := u64_succ (next_durable_layer_id w), w_tick := Suc (w_tick w)\<rparr>"
  have taken: "map_of (w_names w) (d, p, next_durable_layer_id w) \<noteq> None" using Suc.prems(2) by (metis funpow_0 zero_less_Suc)
  have "healthy (w\<lparr>next_durable_layer_id := u64_succ (next_durable_layer_id w)\<rparr>)" using Suc.prems(1) by (simp add: healthy_def)
  from healthy_host_call [OF this]
  have "create_new (d, p, next_durable_layer_id w) (w\<lparr>next_durable_layer_id := u64_succ (next_durable_layer_id w)\<rparr>) =
      (Inl already_exists, ?w)"
    using taken by (auto simp: create_new_def host_try_def mbind_apply)
  then have step: "numbered_loop (\<lambda>i. create_new (d, p, i)) rounds w = numbered_loop (\<lambda>i. create_new (d, p, i)) k ?w"
    by (simp add: k(1) mbind_apply mattempt_apply next_durable_id_def already_exists_def error_kind_def)
  have "\<exists>w'. numbered_loop (\<lambda>i. create_new (d, p, i)) k ?w =
      (Inr ((u64_succ ^^ n) (next_durable_layer_id ?w), w_next_inode ?w), w') \<and>
    w_names w' = bm_insert (d, p, (u64_succ ^^ n) (next_durable_layer_id ?w)) (w_next_inode ?w) (w_names ?w)"
  proof (rule Suc.IH)
    show "healthy ?w" using Suc.prems(1) by (simp add: healthy_def)
    show "\<forall>m<n. map_of (w_names ?w) (d, p, (u64_succ ^^ m) (next_durable_layer_id ?w)) \<noteq> None"
    proof (intro allI impI)
      fix m assume "m < n"
      then have "Suc m < Suc n" by simp
      from Suc.prems(2) [rule_format, OF this]
      show "map_of (w_names ?w) (d, p, (u64_succ ^^ m) (next_durable_layer_id ?w)) \<noteq> None"
        by (simp add: funpow_Suc_right del: funpow.simps)
    qed
    show "map_of (w_names ?w) (d, p, (u64_succ ^^ n) (next_durable_layer_id ?w)) = None"
      using Suc.prems(3) by (simp add: funpow_Suc_right del: funpow.simps)
  qed (rule k(2))
  then show ?case unfolding step by (simp add: funpow_Suc_right del: funpow.simps)
qed

text \<open>
  C15. The loop of \<^verbatim>\<open>create_numbered_file\<close> ends: when the host grants its calls and there are fewer
  than \<open>2 ^ 64\<close> names, it returns after at most one round more than there are names, with a
  number whose name was not taken and a file that did not exist before.
\<close>

theorem create_numbered_file_returns:
  assumes "healthy w" "next_durable_layer_id w < u64_bound" "length (w_names w) < u64_bound"
  shows "\<exists>i w'. create_numbered_file d p w = (Inr (i, w_next_inode w), w') \<and>
    map_of (w_names w) (d, p, i) = None \<and> w_names w' = bm_insert (d, p, i) (w_next_inode w) (w_names w)"
proof -
  let ?P = "\<lambda>n. map_of (w_names w) (d, p, (u64_succ ^^ n) (next_durable_layer_id w)) = None"
  obtain m where m: "?P m" "m \<le> length (w_names w)" using unused_number [OF assms(2,3)] by metis
  define n where "n = (LEAST n. ?P n)"
  have n: "?P n" "n \<le> m" unfolding n_def using m(1) by (auto intro: LeastI Least_le)
  have "\<forall>k < n. \<not> ?P k" unfolding n_def using not_less_Least by blast
  from numbered_loop_finds [OF assms(1) this n(1), of "Suc (length (w_names w))"] show ?thesis
    using n m(2) by (auto simp: create_numbered_file_def)
qed

definition empty_world :: world where
  "empty_world = \<lparr>w_files = Map.empty, w_next_inode = 0, w_names = [], w_answers = (\<lambda>_. Grant (u64_bound - 1)),
     w_tick = 0, next_cache_id = 1, next_cache_page_id = 1, next_pagecache_id = 1, next_block_id = 1,
     next_file_object_id = 1, next_page_version = 1, next_durable_layer_id = 1, next_ram_page_id = 1,
     next_generation_id = 1, next_backend_id = 1\<rparr>"

lemma empty_world_healthy: "healthy empty_world"
  by (simp add: healthy_def empty_world_def u64_bound_def)

theorem create_numbered_file_returns_witness:
  "\<exists>i w'. create_numbered_file ''d'' ''overlay'' empty_world = (Inr (i, 0), w')"
proof -
  have "w_next_inode empty_world = 0" "w_names empty_world = []" "next_durable_layer_id empty_world = 1"
    by (simp_all add: empty_world_def)
  then show ?thesis
    using create_numbered_file_returns [OF empty_world_healthy, of "''d''" "''overlay''"] by (auto simp: u64_bound_def)
qed

end
