(* ===== verification/CowDisk.thy ===== *)
theory CowDisk
  imports Overlay HostFiles
begin

text \<open>
  \<^verbatim>\<open>CowDisk\<close> and \<^verbatim>\<open>DurableCowDisk\<close> of \<^verbatim>\<open>minidox-redoxfs/src/branching.rs\<close>: the block device under a
  filesystem branch. Blocks live in a chain of generations and a map of private writes (an
  \<open>overlay\<close>); a durable disk also appends every written block to a host file and keeps sealed
  files as layers, so that the disk can be read back after a restart.
\<close>

section \<open>State\<close>

record block =
  blk_id :: nat
  blk_bytes :: bytes

record durable_disk_state =
  ds_size :: nat
  ds_layers :: "nat list"
  ds_overlay :: nat

record durable_cow_disk =
  dd_directory :: string
  dd_layers :: "nat list"
  dd_overlay_id :: nat
  dd_overlay :: nat

record cow_disk =
  cd_size :: nat
  cd_blocks :: "(nat, block) overlay"
  cd_durable :: "durable_cow_disk option"

abbreviation (input) LAYER_RECORD_SIZE :: nat where
  "LAYER_RECORD_SIZE \<equiv> 16 + BLOCK_SIZE"

type_synonym block_map = "(nat, block) bmap"

section \<open>Durable layers\<close>

definition layer_name :: "string \<Rightarrow> nat \<Rightarrow> fname" where
  "layer_name directory layer = (directory, ''layer'', layer)"

definition overlay_name :: "string \<Rightarrow> nat \<Rightarrow> fname" where
  "overlay_name directory overlay = (directory, ''overlay'', overlay)"

definition durable_create :: "string \<Rightarrow> (world, io_error, durable_cow_disk) meth" where
  "durable_create directory =
    mbind (create_dir_all directory) (\<lambda>_.
    mbind (create_numbered_file directory ''overlay'') (\<lambda>(overlay_id, overlay).
    mbind (sync_directory directory) (\<lambda>_.
    ok \<lparr>dd_directory = directory, dd_layers = [], dd_overlay_id = overlay_id, dd_overlay = overlay\<rparr>)))"

text \<open>\<^verbatim>\<open>bytes.chunks_exact(LAYER_RECORD_SIZE)\<close>\<close>

function record_chunks :: "bytes \<Rightarrow> bytes list" where
  "record_chunks bs =
    (if length bs < LAYER_RECORD_SIZE then []
     else take LAYER_RECORD_SIZE bs # record_chunks (drop LAYER_RECORD_SIZE bs))"
  by pat_completeness auto
termination
  by (relation "measure length") auto

declare record_chunks.simps [simp del]

fun load_record_list ::
  "bytes list \<Rightarrow> block_map \<Rightarrow> block_map \<Rightarrow> (world, io_error, block_map \<times> block_map) meth" where
  "load_record_list [] objects visible = ok (objects, visible)"
| "load_record_list (record # records) objects visible =
    (let address = from_le_bytes (take 8 record);
         i = from_le_bytes (bslice 8 8 record);
         block_bytes = drop 16 record
     in mbind
          (case map_of objects i of
             Some existing \<Rightarrow>
               if blk_bytes existing \<noteq> block_bytes
               then raise (IoError InvalidData ''filesystem block object has conflicting contents'')
               else ok (existing, objects)
           | None \<Rightarrow>
               let block = \<lparr>blk_id = i, blk_bytes = block_bytes\<rparr> in ok (block, bm_insert i block objects))
          (\<lambda>(block, objects).
        mbind (modify (\<lambda>w. w\<lparr>next_block_id := max (next_block_id w) (saturating_succ i)\<rparr>)) (\<lambda>_.
        load_record_list records objects (bm_insert address block visible))))"

definition load_records ::
  "fname \<Rightarrow> block_map \<Rightarrow> block_map \<Rightarrow> (world, io_error, block_map \<times> block_map) meth" where
  "load_records path objects visible =
    mbind (read_file path) (\<lambda>bytes.
    if length bytes mod LAYER_RECORD_SIZE \<noteq> 0
    then raise (IoError InvalidData ''filesystem layer ends with a partial block record'')
    else load_record_list (record_chunks bytes) objects visible)"

fun load_layers ::
  "string \<Rightarrow> nat list \<Rightarrow> block_map \<Rightarrow> block_map \<Rightarrow> (world, io_error, block_map \<times> block_map) meth" where
  "load_layers directory [] objects visible = ok (objects, visible)"
| "load_layers directory (layer # layers) objects visible =
    mbind (load_records (layer_name directory layer) objects visible) (\<lambda>(objects, visible).
    load_layers directory layers objects visible)"

text \<open>
  The result of a restore: the disk, the blocks of its base generation, and the object table the
  next branch of the lineage goes on with. The private writes of a restored disk are empty.
\<close>

definition durable_restore ::
  "string \<Rightarrow> durable_disk_state \<Rightarrow> block_map \<Rightarrow>
    (world, io_error, durable_cow_disk \<times> (nat, block) overlay \<times> block_map) meth" where
  "durable_restore directory state objects =
    mbind (load_layers directory (ds_layers state) objects []) (\<lambda>(objects, base_blocks).
    let overlay_path = overlay_name directory (ds_overlay state) in
    mbind (load_records overlay_path objects []) (\<lambda>(objects, snapshot_writes).
    mbind (modify (\<lambda>w. w\<lparr>next_durable_layer_id := max (next_durable_layer_id w)
      (saturating_succ (fold max (ds_layers state) (ds_overlay state)))\<rparr>)) (\<lambda>_.
    mbind (metadata_len overlay_path) (\<lambda>overlay_len.
    mbind
      (if overlay_len > 0 then
         mbind (link_numbered_file directory ''layer'' overlay_path) (\<lambda>(layer, layer_path).
         mbind (open_file layer_path) (\<lambda>file.
         mbind (sync_data file) (\<lambda>_.
         ok (ds_layers state @ [layer]))))
       else ok (ds_layers state)) (\<lambda>live_layers.
    mbind (create_numbered_file directory ''overlay'') (\<lambda>(overlay_id, overlay).
    mbind (sync_directory directory) (\<lambda>_.
    ok (\<lparr>dd_directory = directory, dd_layers = live_layers, dd_overlay_id = overlay_id, dd_overlay = overlay\<rparr>,
        \<lparr>ov_base = Generation None (bm_extend base_blocks snapshot_writes), ov_writes = []\<rparr>,
        objects))))))))"

definition durable_append :: "durable_cow_disk \<Rightarrow> nat \<Rightarrow> block \<Rightarrow> (world, io_error, unit) meth" where
  "durable_append d address block =
    mbind (append_all (dd_overlay d) (to_le_bytes address)) (\<lambda>_.
    mbind (append_all (dd_overlay d) (to_le_bytes (blk_id block))) (\<lambda>_.
    append_all (dd_overlay d) (blk_bytes block)))"

type_synonym 'a durable_meth = "(durable_cow_disk \<times> world, io_error, 'a) meth"

definition durable_fork :: "bool \<Rightarrow> durable_cow_disk durable_meth" where
  "durable_fork seal_overlay =
    mbind (gets (\<lambda>(d, w). dd_directory d)) (\<lambda>directory.
    mbind
      (if seal_overlay then
         mbind (gets (\<lambda>(d, w). dd_overlay_id d)) (\<lambda>overlay_id.
         mbind (on_world (link_numbered_file directory ''layer'' (overlay_name directory overlay_id))) (\<lambda>(layer_id, _).
         mbind (modify (\<lambda>(d, w). (d\<lparr>dd_layers := dd_layers d @ [layer_id]\<rparr>, w))) (\<lambda>_.
         gets (\<lambda>(d, w). dd_layers d))))
       else gets (\<lambda>(d, w). dd_layers d)) (\<lambda>child_layers.
    mbind
      (if seal_overlay then
         mbind (on_world (create_numbered_file directory ''overlay'')) (\<lambda>(overlay_id, overlay).
         modify (\<lambda>(d, w). (d\<lparr>dd_overlay_id := overlay_id, dd_overlay := overlay\<rparr>, w)))
       else ok ()) (\<lambda>_.
    mbind (on_world (create_numbered_file directory ''overlay'')) (\<lambda>(child_overlay_id, child_overlay).
    ok \<lparr>dd_directory = directory, dd_layers = child_layers, dd_overlay_id = child_overlay_id,
        dd_overlay = child_overlay\<rparr>))))"

definition durable_checkpoint :: "nat \<Rightarrow> bool \<Rightarrow> durable_disk_state durable_meth" where
  "durable_checkpoint disk_len seal_overlay =
    mbind (gets fst) (\<lambda>d.
    let directory = dd_directory d in
    mbind (on_world (mfor (dd_layers d) (\<lambda>layer.
      mbind (open_file (layer_name directory layer)) (\<lambda>file. sync_data file)))) (\<lambda>_.
    mbind (on_world (sync_data (dd_overlay d))) (\<lambda>_.
    let state = \<lparr>ds_size = disk_len, ds_layers = dd_layers d, ds_overlay = dd_overlay_id d\<rparr> in
    mbind
      (if seal_overlay then
         mbind (on_world (link_numbered_file directory ''layer'' (overlay_name directory (dd_overlay_id d))))
           (\<lambda>(layer_id, layer_path).
         mbind (on_world (open_file layer_path)) (\<lambda>file.
         mbind (on_world (sync_data file)) (\<lambda>_.
         ok (Some layer_id))))
       else ok None) (\<lambda>layer.
    mbind (on_world (create_numbered_file directory ''overlay'')) (\<lambda>(next_overlay_id, next_overlay).
    mbind (on_world (sync_directory directory)) (\<lambda>_.
    mbind (modify (\<lambda>(d, w).
      (d\<lparr>dd_layers := dd_layers d @ (case layer of None \<Rightarrow> [] | Some l \<Rightarrow> [l]),
         dd_overlay_id := next_overlay_id, dd_overlay := next_overlay\<rparr>, w))) (\<lambda>_.
    ok state)))))))"

section \<open>The disk\<close>

type_synonym ('e, 'a) disk_meth = "(cow_disk \<times> world, 'e, 'a) meth"

definition cow_disk_new :: "nat \<Rightarrow> cow_disk" where
  "cow_disk_new disk_len = \<lparr>cd_size = disk_len, cd_blocks = ov_empty, cd_durable = None\<rparr>"

definition cow_disk_durable :: "string \<Rightarrow> nat \<Rightarrow> (world, io_error, cow_disk) meth" where
  "cow_disk_durable directory disk_len =
    mbind (durable_create directory) (\<lambda>d.
    ok \<lparr>cd_size = disk_len, cd_blocks = ov_empty, cd_durable = Some d\<rparr>)"

text \<open>A method of the durable part of a disk, where the disk has one.\<close>

definition on_durable :: "'a durable_meth \<Rightarrow> (io_error, 'a option) disk_meth" where
  "on_durable m =
    (\<lambda>(disk, w). case cd_durable disk of
       None \<Rightarrow> (Inr None, (disk, w))
     | Some d \<Rightarrow> (case m (d, w) of (r, (d', w')) \<Rightarrow> (map_sum id Some r, (disk\<lparr>cd_durable := Some d'\<rparr>, w'))))"

definition cow_disk_fork :: "(io_error, cow_disk) disk_meth" where
  "cow_disk_fork =
    mbind (gets (\<lambda>(disk, w). ov_writes (cd_blocks disk) \<noteq> [])) (\<lambda>has_writes.
    mbind (on_durable (durable_fork has_writes)) (\<lambda>child_durable.
    mbind (modify (\<lambda>(disk, w). (disk\<lparr>cd_blocks := ov_seal (cd_blocks disk)\<rparr>, w))) (\<lambda>_.
    gets (\<lambda>(disk, w). \<lparr>cd_size = cd_size disk,
      cd_blocks = \<lparr>ov_base = ov_base (cd_blocks disk), ov_writes = []\<rparr>, cd_durable = child_durable\<rparr>))))"

definition visible_block :: "cow_disk \<Rightarrow> nat \<Rightarrow> block option" where
  "visible_block disk = ov_get (cd_blocks disk)"

definition visible_blocks :: "cow_disk \<Rightarrow> block_map" where
  "visible_blocks disk = ov_visible_ext (cd_blocks disk)"

definition check_range :: "cow_disk \<Rightarrow> nat \<Rightarrow> nat \<Rightarrow> nat + unit" where
  "check_range disk block len =
    (case checked_mul block BLOCK_SIZE of
       None \<Rightarrow> Inl EIO
     | Some offset \<Rightarrow>
         (case checked_add offset len of
            None \<Rightarrow> Inl EIO
          | Some end' \<Rightarrow> if end' > cd_size disk then Inl EIO else Inr ()))"

definition cow_disk_durable_state :: "(io_error, durable_disk_state) disk_meth" where
  "cow_disk_durable_state =
    mbind (gets (\<lambda>(disk, w). (cd_size disk, ov_writes (cd_blocks disk) \<noteq> []))) (\<lambda>(disk_len, has_writes).
    mbind (on_durable (durable_checkpoint disk_len has_writes)) (\<lambda>result.
    mbind (ok_or result (IoError OtherKind ''filesystem branch is not durable'')) (\<lambda>state.
    mbind (modify (\<lambda>(disk, w). (disk\<lparr>cd_blocks := ov_seal (cd_blocks disk)\<rparr>, w))) (\<lambda>_.
    ok state))))"

abbreviation zero_block :: bytes where
  "zero_block \<equiv> replicate BLOCK_SIZE 0"

definition stored_bytes :: "cow_disk \<Rightarrow> nat \<Rightarrow> bytes" where
  "stored_bytes disk address = (case visible_block disk address of None \<Rightarrow> zero_block | Some b \<Rightarrow> blk_bytes b)"

text \<open>\<^verbatim>\<open>buffer.chunks_mut(BLOCK_SIZE)\<close> with the block address of each chunk.\<close>

function disk_read_chunks :: "cow_disk \<Rightarrow> nat \<Rightarrow> nat \<Rightarrow> bytes" where
  "disk_read_chunks disk address len =
    (if len = 0 then []
     else let n = min BLOCK_SIZE len
          in take n (stored_bytes disk address) @ disk_read_chunks disk (address + 1) (len - n))"
  by pat_completeness auto
termination
  by (relation "measure (\<lambda>(disk, address, len). len)") auto

declare disk_read_chunks.simps [simp del]

definition disk_read_at :: "nat \<Rightarrow> nat \<Rightarrow> (nat, bytes) disk_meth" where
  "disk_read_at block len =
    (\<lambda>(disk, w). case check_range disk block len of
       Inl e \<Rightarrow> (Inl e, (disk, w))
     | Inr _ \<Rightarrow> (Inr (disk_read_chunks disk block len), (disk, w)))"

text \<open>One block written: a fresh object over the bytes the block had, appended when durable.\<close>

definition disk_write_block :: "nat \<Rightarrow> bytes \<Rightarrow> (nat, unit) disk_meth" where
  "disk_write_block address chunk =
    mbind (\<lambda>(disk, w).
      let block = \<lparr>blk_id = next_block_id w, blk_bytes = copy_into (stored_bytes disk address) 0 chunk\<rparr>
      in (Inr block, (disk\<lparr>cd_blocks := ov_put address block (cd_blocks disk)\<rparr>,
            w\<lparr>next_block_id := u64_succ (next_block_id w)\<rparr>))) (\<lambda>block.
    mbind (gets (\<lambda>(disk, w). cd_durable disk)) (\<lambda>durable.
    case durable of
      None \<Rightarrow> ok ()
    | Some d \<Rightarrow> map_err (\<lambda>_. EIO) (on_world (durable_append d address block))))"

function disk_write_chunks :: "nat \<Rightarrow> bytes \<Rightarrow> (nat, unit) disk_meth" where
  "disk_write_chunks address buf s =
    (if buf = [] then (Inr (), s)
     else mbind (disk_write_block address (take BLOCK_SIZE buf)) (\<lambda>_.
          disk_write_chunks (address + 1) (drop BLOCK_SIZE buf)) s)"
  by pat_completeness auto
termination
  by (relation "measure (\<lambda>(address, buf, s). length buf)") (auto simp: not_less)

declare disk_write_chunks.simps [simp del]

definition disk_write_at :: "nat \<Rightarrow> bytes \<Rightarrow> (nat, nat) disk_meth" where
  "disk_write_at block buf =
    mbind (gets (\<lambda>(disk, w). check_range disk block (length buf))) (\<lambda>range.
    mbind (of_result range) (\<lambda>_.
    mbind (disk_write_chunks block buf) (\<lambda>_.
    ok (length buf))))"

definition disk_size :: "cow_disk \<Rightarrow> nat" where
  "disk_size disk = cd_size disk"

end
