(* ===== verification/RedoxIdentity.thy ===== *)
theory RedoxIdentity
  imports CacheBase
begin

text \<open>
  \<^verbatim>\<open>IdentityBranch\<close> of \<^verbatim>\<open>minidox-redoxfs/src/branching.rs\<close>: the identities by which the page cache
  shares pages between branches. A file has an object number, a page of it a version; both live
  in a chain of generations and in private maps of the branch, and are drawn from process-wide
  counters.
\<close>

section \<open>State\<close>

datatype redox_page_identity = RedoxPageIdentity (rpi_object: nat) (rpi_page: nat) (rpi_version: nat)

instantiation redox_page_identity :: linorder
begin

definition less_eq_redox_page_identity :: "redox_page_identity \<Rightarrow> redox_page_identity \<Rightarrow> bool" where
  "less_eq_redox_page_identity a b \<longleftrightarrow>
    (rpi_object a, rpi_page a, rpi_version a) \<le> (rpi_object b, rpi_page b, rpi_version b)"

definition less_redox_page_identity :: "redox_page_identity \<Rightarrow> redox_page_identity \<Rightarrow> bool" where
  "less_redox_page_identity a b \<longleftrightarrow>
    (rpi_object a, rpi_page a, rpi_version a) < (rpi_object b, rpi_page b, rpi_version b)"

instance
  by standard (auto simp: less_eq_redox_page_identity_def less_redox_page_identity_def intro: redox_page_identity.expand)

end

datatype identity_generation = IdentityGeneration
  (ig_parent: "identity_generation option") (ig_files: "(node_id, nat) bmap") (ig_pages: "(page_key, nat) bmap")

record identity_branch =
  ib_base :: identity_generation
  ib_files :: "(node_id, nat) bmap"
  ib_pages :: "(page_key, nat) bmap"

section \<open>Operations\<close>

fun generation_file :: "identity_generation \<Rightarrow> node_id \<Rightarrow> nat option" where
  "generation_file (IdentityGeneration parent files pages) node =
    (case map_of files node of
       Some object \<Rightarrow> Some object
     | None \<Rightarrow> (case parent of None \<Rightarrow> None | Some g \<Rightarrow> generation_file g node))"

fun generation_page_version :: "identity_generation \<Rightarrow> page_key \<Rightarrow> nat option" where
  "generation_page_version (IdentityGeneration parent files pages) key =
    (case map_of pages key of
       Some version \<Rightarrow> Some version
     | None \<Rightarrow> (case parent of None \<Rightarrow> None | Some g \<Rightarrow> generation_page_version g key))"

fun generation_visible_files :: "identity_generation \<Rightarrow> (node_id, nat) bmap \<Rightarrow> (node_id, nat) bmap" where
  "generation_visible_files (IdentityGeneration parent files pages) acc =
    bm_extend (case parent of None \<Rightarrow> acc | Some g \<Rightarrow> generation_visible_files g acc) files"

fun generation_visible_pages :: "identity_generation \<Rightarrow> (page_key, nat) bmap \<Rightarrow> (page_key, nat) bmap" where
  "generation_visible_pages (IdentityGeneration parent files pages) acc =
    bm_extend (case parent of None \<Rightarrow> acc | Some g \<Rightarrow> generation_visible_pages g acc) pages"

definition default_generation :: identity_generation where
  "default_generation = IdentityGeneration None [] []"

definition identity_new :: identity_branch where
  "identity_new = \<lparr>ib_base = default_generation, ib_files = [], ib_pages = []\<rparr>"

text \<open>A fork: the branch afterwards and its child.\<close>

definition identity_fork :: "identity_branch \<Rightarrow> identity_branch \<times> identity_branch" where
  "identity_fork b =
    (let b' = (if ib_files b \<noteq> [] \<or> ib_pages b \<noteq> []
               then \<lparr>ib_base = IdentityGeneration (Some (ib_base b)) (ib_files b) (ib_pages b), ib_files = [], ib_pages = []\<rparr>
               else b)
     in (b', \<lparr>ib_base = ib_base b', ib_files = [], ib_pages = []\<rparr>))"

type_synonym 'a identity_meth = "(identity_branch \<times> world, io_error, 'a) meth"

definition identity_create_file :: "node_id \<Rightarrow> unit identity_meth" where
  "identity_create_file node = (\<lambda>(b, w).
    (Inr (), (b\<lparr>ib_files := bm_insert node (next_file_object_id w) (ib_files b)\<rparr>,
       w\<lparr>next_file_object_id := u64_succ (next_file_object_id w)\<rparr>)))"

definition branch_file :: "identity_branch \<Rightarrow> node_id \<Rightarrow> nat option" where
  "branch_file b node =
    (case map_of (ib_files b) node of Some object \<Rightarrow> Some object | None \<Rightarrow> generation_file (ib_base b) node)"

definition branch_page_version :: "identity_branch \<Rightarrow> page_key \<Rightarrow> nat option" where
  "branch_page_version b key =
    (case map_of (ib_pages b) key of Some v \<Rightarrow> Some v | None \<Rightarrow> generation_page_version (ib_base b) key)"

definition identity_page_identity :: "identity_branch \<Rightarrow> node_id \<Rightarrow> nat \<Rightarrow> io_error + redox_page_identity" where
  "identity_page_identity b node offset =
    (case branch_file b node of
       None \<Rightarrow> Inl (OsError EIO)
     | Some object \<Rightarrow>
         let page = offset div PAGE_SIZE;
             version = (case branch_page_version b (node, page) of None \<Rightarrow> 0 | Some v \<Rightarrow> v)
         in Inr (RedoxPageIdentity object page version))"

text \<open>A fresh version for one page.\<close>

definition bump_page :: "node_id \<Rightarrow> nat \<Rightarrow> unit identity_meth" where
  "bump_page node page = (\<lambda>(b, w).
    (Inr (), (b\<lparr>ib_pages := bm_insert (node, page) (next_page_version w) (ib_pages b)\<rparr>,
       w\<lparr>next_page_version := u64_succ (next_page_version w)\<rparr>)))"

definition identity_record_write :: "node_id \<Rightarrow> nat \<Rightarrow> nat \<Rightarrow> unit identity_meth" where
  "identity_record_write node offset len =
    (if len = 0 then ok ()
     else
       mbind (ok_or (checked_add offset len) (OsError EIO)) (\<lambda>end'.
       let first = offset div PAGE_SIZE; last = (end' - 1) div PAGE_SIZE
       in mfor [first..<Suc last] (bump_page node)))"

definition identity_prepare_page_write :: "node_id \<Rightarrow> nat \<Rightarrow> redox_page_identity identity_meth" where
  "identity_prepare_page_write node offset =
    mbind (bump_page node (offset div PAGE_SIZE)) (\<lambda>_.
    mbind (gets (\<lambda>(b, w). identity_page_identity b node offset)) (\<lambda>r. of_result r))"

definition identity_visible_files :: "identity_branch \<Rightarrow> (node_id, nat) bmap" where
  "identity_visible_files b = bm_extend (generation_visible_files (ib_base b) []) (ib_files b)"

definition identity_visible_pages :: "identity_branch \<Rightarrow> (page_key, nat) bmap" where
  "identity_visible_pages b = bm_extend (generation_visible_pages (ib_base b) []) (ib_pages b)"

section \<open>Views\<close>

lemma default_generation_views [simp]:
  "generation_file default_generation node = None" "generation_page_version default_generation key = None"
  by (simp_all add: default_generation_def)

lemma branch_views_fork [simp]:
  "branch_file (fst (identity_fork b)) = branch_file b" "branch_file (snd (identity_fork b)) = branch_file b"
  "branch_page_version (fst (identity_fork b)) = branch_page_version b"
  "branch_page_version (snd (identity_fork b)) = branch_page_version b"
  by (auto simp: identity_fork_def branch_file_def branch_page_version_def Let_def fun_eq_iff split: option.splits)

lemma branch_file_update [simp]:
  "branch_file (b\<lparr>ib_files := bm_insert node v (ib_files b)\<rparr>) = (branch_file b)(node \<mapsto> v)"
  "branch_page_version (b\<lparr>ib_files := fs\<rparr>) = branch_page_version b"
  "branch_page_version (b\<lparr>ib_pages := bm_insert key v (ib_pages b)\<rparr>) = (branch_page_version b)(key \<mapsto> v)"
  "branch_file (b\<lparr>ib_pages := ps\<rparr>) = branch_file b"
  by (auto simp: branch_file_def branch_page_version_def fun_eq_iff split: option.splits)

text \<open>The identity of page \<open>page\<close> of a node, as a function of the branch.\<close>

definition branch_ident :: "identity_branch \<Rightarrow> node_id \<Rightarrow> nat \<Rightarrow> redox_page_identity option" where
  "branch_ident b node page = map_option
    (\<lambda>object. RedoxPageIdentity object page (case branch_page_version b (node, page) of None \<Rightarrow> 0 | Some v \<Rightarrow> v))
    (branch_file b node)"

lemma page_identity_branch_ident:
  "identity_page_identity b node offset =
    (case branch_ident b node (offset div PAGE_SIZE) of None \<Rightarrow> Inl (OsError EIO) | Some i \<Rightarrow> Inr i)"
  by (simp add: identity_page_identity_def branch_ident_def Let_def split: option.splits)

lemma branch_ident_fork [simp]:
  "branch_ident (fst (identity_fork b)) = branch_ident b" "branch_ident (snd (identity_fork b)) = branch_ident b"
  by (simp_all add: branch_ident_def fun_eq_iff)

text \<open>Well-formed maps, as \<^verbatim>\<open>BTreeMap\<close> keeps them.\<close>

fun generation_wf :: "identity_generation \<Rightarrow> bool" where
  "generation_wf (IdentityGeneration parent files pages) \<longleftrightarrow> bm_wf files \<and> bm_wf pages \<and>
    (case parent of None \<Rightarrow> True | Some g \<Rightarrow> generation_wf g)"

definition identity_wf :: "identity_branch \<Rightarrow> bool" where
  "identity_wf b \<longleftrightarrow> generation_wf (ib_base b) \<and> bm_wf (ib_files b) \<and> bm_wf (ib_pages b)"

lemma map_of_generation_visible:
  "generation_wf g \<Longrightarrow> map_of (generation_visible_files g acc) = map_of acc ++ generation_file g"
  "generation_wf g \<Longrightarrow> map_of (generation_visible_pages g acc') = map_of acc' ++ generation_page_version g"
proof -
  show "generation_wf g \<Longrightarrow> map_of (generation_visible_files g acc) = map_of acc ++ generation_file g"
  proof (induction g acc rule: generation_visible_files.induct)
    case (1 parent files pages acc)
    then show ?case by (cases parent) (auto simp: map_of_bm_extend_wf fun_eq_iff map_add_def split: option.splits)
  qed
  show "generation_wf g \<Longrightarrow> map_of (generation_visible_pages g acc') = map_of acc' ++ generation_page_version g"
  proof (induction g acc' rule: generation_visible_pages.induct)
    case (1 parent files pages acc)
    then show ?case by (cases parent) (auto simp: map_of_bm_extend_wf fun_eq_iff map_add_def split: option.splits)
  qed
qed

lemma bm_wf_generation_visible:
  "bm_wf acc \<Longrightarrow> bm_wf (generation_visible_files g acc)" "bm_wf acc' \<Longrightarrow> bm_wf (generation_visible_pages g acc')"
proof -
  show "bm_wf acc \<Longrightarrow> bm_wf (generation_visible_files g acc)"
  proof (induction g acc rule: generation_visible_files.induct)
    case (1 parent files pages acc)
    then show ?case by (cases parent) simp_all
  qed
  show "bm_wf acc' \<Longrightarrow> bm_wf (generation_visible_pages g acc')"
  proof (induction g acc' rule: generation_visible_pages.induct)
    case (1 parent files pages acc)
    then show ?case by (cases parent) simp_all
  qed
qed

lemma map_of_identity_visible:
  assumes "identity_wf b"
  shows "map_of (identity_visible_files b) = branch_file b" "map_of (identity_visible_pages b) = branch_page_version b"
    "bm_wf (identity_visible_files b)" "bm_wf (identity_visible_pages b)"
  using assms
  by (auto simp: identity_visible_files_def identity_visible_pages_def identity_wf_def branch_file_def
      branch_page_version_def map_of_bm_extend_wf map_of_generation_visible bm_wf_generation_visible
      fun_eq_iff map_add_def split: option.splits)

lemma identity_wf_ops [simp, intro]:
  "identity_wf identity_new"
  "identity_wf b \<Longrightarrow> identity_wf (fst (identity_fork b))" "identity_wf b \<Longrightarrow> identity_wf (snd (identity_fork b))"
  "identity_wf b \<Longrightarrow> identity_wf (b\<lparr>ib_files := bm_insert node v (ib_files b)\<rparr>)"
  "identity_wf b \<Longrightarrow> identity_wf (b\<lparr>ib_pages := bm_insert key v (ib_pages b)\<rparr>)"
  by (auto simp: identity_wf_def identity_new_def default_generation_def identity_fork_def Let_def)

end
