(* ===== verification/RedoxBranch.thy ===== *)
theory RedoxBranch
  imports CacheContract CowDisk RedoxIdentity
begin

text \<open>
  \<^verbatim>\<open>RedoxBranch\<close> of \<^verbatim>\<open>minidox-redoxfs/src/branching.rs\<close>: a RedoxFS file system on a copy-on-write
  disk, together with the page identities of the branch.

  The RedoxFS engine is the vendored crate \<^verbatim>\<open>redoxfs\<close>. It is an argument of the operations: a
  record of the calls the branch makes, each of them a program over the \<^verbatim>\<open>Disk\<close> trait. All that is
  used of the engine is that it reaches the disk through that trait and that each call ends.
\<close>

section \<open>Programs over the disk trait\<close>

datatype 'a disk_prog =
    Finished 'a
  | ReadBlocks nat nat "nat + bytes \<Rightarrow> 'a disk_prog"
  | WriteBlocks nat bytes "nat + nat \<Rightarrow> 'a disk_prog"
  | AskSize "nat \<Rightarrow> 'a disk_prog"

primrec run_prog :: "'a disk_prog \<Rightarrow> cow_disk \<times> world \<Rightarrow> 'a \<times> (cow_disk \<times> world)" where
  "run_prog (Finished a) = (\<lambda>s. (a, s))"
| "run_prog (ReadBlocks block len k) = (\<lambda>s. case disk_read_at block len s of (r, s') \<Rightarrow> run_prog (k r) s')"
| "run_prog (WriteBlocks block buf k) = (\<lambda>s. case disk_write_at block buf s of (r, s') \<Rightarrow> run_prog (k r) s')"
| "run_prog (AskSize k) = (\<lambda>s. run_prog (k (disk_size (fst s))) s)"

primrec prog_bind :: "'a disk_prog \<Rightarrow> ('a \<Rightarrow> 'b disk_prog) \<Rightarrow> 'b disk_prog" where
  "prog_bind (Finished a) f = f a"
| "prog_bind (ReadBlocks block len k) f = ReadBlocks block len (\<lambda>r. prog_bind (k r) f)"
| "prog_bind (WriteBlocks block buf k) f = WriteBlocks block buf (\<lambda>r. prog_bind (k r) f)"
| "prog_bind (AskSize k) f = AskSize (\<lambda>n. prog_bind (k n) f)"

lemma run_prog_bind: "run_prog (prog_bind p f) s = (case run_prog p s of (a, s') \<Rightarrow> run_prog (f a) s')"
  by (induction p arbitrary: s) (auto split: prod.splits)

section \<open>The engine\<close>

record node_data =
  nd_size :: nat
  nd_blocks :: nat
  nd_mode :: nat
  nd_links :: nat
  nd_uid :: nat
  nd_gid :: nat
  nd_atime :: "nat \<times> nat"
  nd_mtime :: "nat \<times> nat"
  nd_ctime :: "nat \<times> nat"

text \<open>
  \<open>'f\<close> is a \<^verbatim>\<open>FileSystem\<close> without its disk, \<open>'t\<close> a \<^verbatim>\<open>Transaction\<close> on it. Calls on a transaction
  return the error number or the result, and the transaction afterwards. \<open>tx_drop\<close> is the file
  system that a transaction leaves behind when it is dropped uncommitted.
\<close>

type_synonym ('t, 'a) tx_call = "'t \<Rightarrow> ((nat + 'a) \<times> 't) disk_prog"

record ('f, 't) redox_engine =
  eng_create :: "(nat + 'f) disk_prog"
  eng_open :: "nat \<Rightarrow> (nat + 'f) disk_prog"
  eng_block :: "'f \<Rightarrow> nat"
  eng_root :: node_id
  tx_new :: "'f \<Rightarrow> 't"
  tx_commit :: "'t \<Rightarrow> ((nat + unit) \<times> 'f) disk_prog"
  tx_drop :: "'t \<Rightarrow> 'f"
  tx_create_node :: "node_id \<Rightarrow> string \<Rightarrow> nat \<Rightarrow> ('t, node_id) tx_call"
  tx_truncate_node :: "node_id \<Rightarrow> nat \<Rightarrow> ('t, unit) tx_call"
  tx_read_node :: "node_id \<Rightarrow> nat \<Rightarrow> nat \<Rightarrow> ('t, bytes) tx_call"
  tx_write_node :: "node_id \<Rightarrow> nat \<Rightarrow> bytes \<Rightarrow> ('t, nat) tx_call"
  tx_read_tree :: "node_id \<Rightarrow> ('t, node_id \<times> node_data) tx_call"
  tx_find_node :: "node_id \<Rightarrow> string \<Rightarrow> ('t, node_id) tx_call"
  tx_child_nodes :: "node_id \<Rightarrow> ('t, (node_id \<times> string option) list) tx_call"
  tx_on_open_node :: "node_id \<Rightarrow> ('t, unit) tx_call"
  tx_on_close_node :: "node_id \<Rightarrow> ('t, unit) tx_call"

text \<open>\<^verbatim>\<open>FileSystem::tx\<close>: the closure runs on a new transaction, which is committed when it succeeds.\<close>

definition tx_then :: "('t, 'a) tx_call \<Rightarrow> ('a \<Rightarrow> ('t, 'b) tx_call) \<Rightarrow> ('t, 'b) tx_call" where
  "tx_then m f t = prog_bind (m t) (\<lambda>(r, t'). case r of Inl e \<Rightarrow> Finished (Inl e, t') | Inr a \<Rightarrow> f a t')"

definition tx_return :: "nat + 'a \<Rightarrow> ('t, 'a) tx_call" where
  "tx_return r t = Finished (r, t)"

definition fs_tx :: "('f, 't) redox_engine \<Rightarrow> ('t, 'a) tx_call \<Rightarrow> 'f \<Rightarrow> ((nat + 'a) \<times> 'f) disk_prog" where
  "fs_tx eng f fs =
    prog_bind (f (tx_new eng fs)) (\<lambda>(r, t).
      case r of
        Inl e \<Rightarrow> Finished (Inl e, tx_drop eng t)
      | Inr a \<Rightarrow> prog_bind (tx_commit eng t) (\<lambda>(rc, fs').
          Finished (case rc of Inl e \<Rightarrow> Inl e | Inr _ \<Rightarrow> Inr a, fs')))"

section \<open>Branches\<close>

record 'f redox_branch =
  rb_fs :: 'f
  rb_disk :: cow_disk
  rb_identities :: identity_branch

type_synonym ('f, 'a) redox_meth = "('f redox_branch \<times> world, io_error, 'a) meth"

definition io_error_of :: "nat \<Rightarrow> io_error" where
  "io_error_of errno = OsError errno"

text \<open>\<^verbatim>\<open>self.fs.tx(..).map_err(io_error)\<close>\<close>

definition on_fs :: "('f, 't) redox_engine \<Rightarrow> ('t, 'a) tx_call \<Rightarrow> ('f, 'a) redox_meth" where
  "on_fs eng f = (\<lambda>(b, w).
    case run_prog (fs_tx eng f (rb_fs b)) (rb_disk b, w) of
      ((r, fs), (disk, w')) \<Rightarrow> (map_sum io_error_of id r, (b\<lparr>rb_fs := fs, rb_disk := disk\<rparr>, w')))"

text \<open>A method of the identities of a branch.\<close>

definition on_identities :: "'a identity_meth \<Rightarrow> ('f, 'a) redox_meth" where
  "on_identities = on_part rb_identities (\<lambda>i b. b\<lparr>rb_identities := i\<rparr>)"

definition on_disk :: "(io_error, 'a) disk_meth \<Rightarrow> ('f, 'a) redox_meth" where
  "on_disk = on_part rb_disk (\<lambda>d b. b\<lparr>rb_disk := d\<rparr>)"

text \<open>A file system made from a disk by \<^verbatim>\<open>FileSystem::create\<close> or \<^verbatim>\<open>FileSystem::open\<close>.\<close>

definition make_fs :: "(nat + 'f) disk_prog \<Rightarrow> cow_disk \<Rightarrow> (world, io_error, 'f \<times> cow_disk) meth" where
  "make_fs p disk w =
    (case run_prog p (disk, w) of (r, (disk', w')) \<Rightarrow> (map_sum io_error_of (\<lambda>fs. (fs, disk')) r, w'))"

definition redox_start :: "('f, 't) redox_engine \<Rightarrow> cow_disk \<Rightarrow> (world, io_error, 'f redox_branch) meth" where
  "redox_start eng disk =
    mbind (make_fs (eng_create eng) disk) (\<lambda>(fs, disk) w.
    case identity_create_file (eng_root eng) (identity_new, w) of (_, (identities, w')) \<Rightarrow>
      (Inr \<lparr>rb_fs = fs, rb_disk = disk, rb_identities = identities\<rparr>, w'))"

definition redox_create :: "('f, 't) redox_engine \<Rightarrow> nat \<Rightarrow> (world, io_error, 'f redox_branch) meth" where
  "redox_create eng disk_len = redox_start eng (cow_disk_new disk_len)"

definition redox_create_durable ::
  "('f, 't) redox_engine \<Rightarrow> string \<Rightarrow> nat \<Rightarrow> (world, io_error, 'f redox_branch) meth" where
  "redox_create_durable eng directory disk_len =
    mbind (cow_disk_durable directory disk_len) (\<lambda>disk. redox_start eng disk)"

abbreviation (input) MODE_FILE :: nat where
  "MODE_FILE \<equiv> 0x8000"

definition redox_create_file :: "('f, 't) redox_engine \<Rightarrow> string \<Rightarrow> nat \<Rightarrow> ('f, node_id) redox_meth" where
  "redox_create_file eng name len =
    mbind (on_fs eng
      (tx_then (tx_create_node eng (eng_root eng) name (MODE_FILE + 420)) (\<lambda>node.
       tx_then (tx_truncate_node eng node len) (\<lambda>_.
       tx_return (Inr node))))) (\<lambda>node.
    mbind (on_identities (identity_create_file node)) (\<lambda>_.
    ok node))"

definition redox_read :: "('f, 't) redox_engine \<Rightarrow> node_id \<Rightarrow> nat \<Rightarrow> nat \<Rightarrow> ('f, bytes) redox_meth" where
  "redox_read eng node offset len = on_fs eng (tx_read_node eng node offset len)"

definition redox_write :: "('f, 't) redox_engine \<Rightarrow> node_id \<Rightarrow> nat \<Rightarrow> bytes \<Rightarrow> ('f, nat) redox_meth" where
  "redox_write eng node offset bytes =
    mbind (on_fs eng (tx_write_node eng node offset bytes)) (\<lambda>written.
    mbind (on_identities (identity_record_write node offset written)) (\<lambda>_.
    ok written))"

record node_metadata =
  nm_id :: node_id
  nm_size :: nat
  nm_blocks_512 :: nat
  nm_mode :: nat
  nm_links :: nat
  nm_uid :: nat
  nm_gid :: nat
  nm_atime :: "nat \<times> nat"
  nm_mtime :: "nat \<times> nat"
  nm_ctime :: "nat \<times> nat"

definition redox_metadata :: "('f, 't) redox_engine \<Rightarrow> node_id \<Rightarrow> ('f, node_metadata) redox_meth" where
  "redox_metadata eng node =
    on_fs eng (tx_then (tx_read_tree eng node) (\<lambda>(i, data).
      tx_return (Inr \<lparr>nm_id = i, nm_size = nd_size data, nm_blocks_512 = nd_blocks data * (BLOCK_SIZE div 512),
        nm_mode = nd_mode data, nm_links = nd_links data, nm_uid = nd_uid data, nm_gid = nd_gid data,
        nm_atime = nd_atime data, nm_mtime = nd_mtime data, nm_ctime = nd_ctime data\<rparr>)))"

definition redox_lookup :: "('f, 't) redox_engine \<Rightarrow> node_id \<Rightarrow> string \<Rightarrow> ('f, node_id) redox_meth" where
  "redox_lookup eng par name = on_fs eng (tx_find_node eng par name)"

record directory_entry =
  de_id :: node_id
  de_name :: string

text \<open>Names that are not UTF-8 are \<^const>\<open>None\<close>; the first one ends the listing with \<^verbatim>\<open>EIO\<close>.\<close>

fun collect_entries :: "(node_id \<times> string option) list \<Rightarrow> nat + directory_entry list" where
  "collect_entries [] = Inr []"
| "collect_entries ((i, name) # es) =
    (case name of
       None \<Rightarrow> Inl EIO
     | Some n \<Rightarrow> map_sum id (\<lambda>rest. \<lparr>de_id = i, de_name = n\<rparr> # rest) (collect_entries es))"

definition redox_entries :: "('f, 't) redox_engine \<Rightarrow> node_id \<Rightarrow> ('f, directory_entry list) redox_meth" where
  "redox_entries eng par =
    on_fs eng (tx_then (tx_child_nodes eng par) (\<lambda>es. tx_return (collect_entries es)))"

definition redox_fork :: "('f, 't) redox_engine \<Rightarrow> ('f, 'f redox_branch) redox_meth" where
  "redox_fork eng =
    mbind (on_disk cow_disk_fork) (\<lambda>child_disk.
    mbind (on_identities (\<lambda>(i, w). (Inr (snd (identity_fork i)), (fst (identity_fork i), w)))) (\<lambda>child_identities.
    mbind (gets (\<lambda>(b, w). eng_block eng (rb_fs b))) (\<lambda>block.
    mbind (on_world (make_fs (eng_open eng block) child_disk)) (\<lambda>(fs, disk).
    ok \<lparr>rb_fs = fs, rb_disk = disk, rb_identities = child_identities\<rparr>))))"

record redox_branch_state =
  rs_disk :: durable_disk_state
  rs_header_block :: nat
  rs_files :: "(node_id \<times> nat) list"
  rs_pages :: "(page_key \<times> nat) list"

definition redox_durable_state :: "('f, 't) redox_engine \<Rightarrow> ('f, redox_branch_state) redox_meth" where
  "redox_durable_state eng =
    mbind (on_disk cow_disk_durable_state) (\<lambda>disk.
    gets (\<lambda>(b, w). \<lparr>rs_disk = disk, rs_header_block = eng_block eng (rb_fs b),
      rs_files = identity_visible_files (rb_identities b), rs_pages = identity_visible_pages (rb_identities b)\<rparr>))"

text \<open>
  The loop of \<^verbatim>\<open>restore_lineage\<close>: branches are restored in order over one table of block objects,
  and the largest object and version numbers are kept.
\<close>

fun restore_states ::
  "('f, 't) redox_engine \<Rightarrow> string \<Rightarrow> redox_branch_state list \<Rightarrow> block_map \<Rightarrow> nat \<Rightarrow> nat \<Rightarrow>
    (world, io_error, 'f redox_branch list \<times> nat \<times> nat) meth" where
  "restore_states eng directory [] objects max_file max_version = ok ([], max_file, max_version)"
| "restore_states eng directory (state # states) objects max_file max_version =
    mbind (durable_restore directory (rs_disk state) objects) (\<lambda>(durable, blocks, objects).
    mbind (make_fs (eng_open eng (rs_header_block state))
      \<lparr>cd_size = ds_size (rs_disk state), cd_blocks = blocks, cd_durable = Some durable\<rparr>) (\<lambda>(fs, disk).
    let branch = \<lparr>rb_fs = fs, rb_disk = disk, rb_identities =
          \<lparr>ib_base = default_generation, ib_files = bm_extend [] (rs_files state), ib_pages = bm_extend [] (rs_pages state)\<rparr>\<rparr>
    in mbind (restore_states eng directory states objects
          (fold max (map snd (rs_files state)) max_file) (fold max (map snd (rs_pages state)) max_version))
        (\<lambda>(branches, mf, mv). ok (branch # branches, mf, mv))))"

definition redox_restore_lineage ::
  "('f, 't) redox_engine \<Rightarrow> string \<Rightarrow> redox_branch_state list \<Rightarrow> (world, io_error, 'f redox_branch list) meth" where
  "redox_restore_lineage eng directory states =
    mbind (restore_states eng directory states [] 0 0) (\<lambda>(branches, max_file, max_version).
    mbind (modify (\<lambda>w. w\<lparr>next_file_object_id := max (next_file_object_id w) (saturating_succ max_file),
      next_page_version := max (next_page_version w) (saturating_succ max_version)\<rparr>)) (\<lambda>_.
    ok branches))"

record block_accounting =
  ba_resident_blocks :: nat
  ba_shared_blocks :: nat

definition branch_block_ids :: "'f redox_branch \<Rightarrow> nat list" where
  "branch_block_ids b = fold insort_insert (map blk_id (bm_values (visible_blocks (rb_disk b)))) []"

definition redox_block_accounting :: "'f redox_branch list \<Rightarrow> block_accounting" where
  "redox_block_accounting branches =
    (let references = fold (\<lambda>b refs. fold bm_incr (branch_block_ids b) refs) branches []
     in \<lparr>ba_resident_blocks = length references,
         ba_shared_blocks = length (filter (\<lambda>count. count > 1) (bm_values references))\<rparr>)"

section \<open>The store traits\<close>

definition redox_len :: "('f, 't) redox_engine \<Rightarrow> node_id \<Rightarrow> ('f, nat) redox_meth" where
  "redox_len eng node =
    on_fs eng (tx_then (tx_read_tree eng node) (\<lambda>(i, data). tx_return (Inr (nd_size data))))"

definition redox_read_node :: "('f, 't) redox_engine \<Rightarrow> node_id \<Rightarrow> nat \<Rightarrow> nat \<Rightarrow> ('f, bytes) redox_meth" where
  "redox_read_node eng node offset len = on_fs eng (tx_read_node eng node offset len)"

definition redox_write_node :: "('f, 't) redox_engine \<Rightarrow> node_id \<Rightarrow> nat \<Rightarrow> bytes \<Rightarrow> ('f, nat) redox_meth" where
  "redox_write_node eng node offset buf = on_fs eng (tx_write_node eng node offset buf)"

definition redox_on_open_node :: "('f, 't) redox_engine \<Rightarrow> node_id \<Rightarrow> ('f, unit) redox_meth" where
  "redox_on_open_node eng node = on_fs eng (tx_on_open_node eng node)"

definition redox_on_close_node :: "('f, 't) redox_engine \<Rightarrow> node_id \<Rightarrow> ('f, unit) redox_meth" where
  "redox_on_close_node eng node = on_fs eng (tx_on_close_node eng node)"

definition redox_page_identity_of :: "node_id \<Rightarrow> nat \<Rightarrow> ('f, redox_page_identity) redox_meth" where
  "redox_page_identity_of node offset =
    mbind (gets (\<lambda>(b, w). identity_page_identity (rb_identities b) node offset)) (\<lambda>r. of_result r)"

definition redox_prepare_page_write :: "node_id \<Rightarrow> nat \<Rightarrow> ('f, redox_page_identity) redox_meth" where
  "redox_prepare_page_write node offset = on_identities (identity_prepare_page_write node offset)"

definition redox_store :: "('f, 't) redox_engine \<Rightarrow> ('f redox_branch, redox_page_identity) forkable_node_store" where
  "redox_store eng = \<lparr>ns_len = redox_len eng, ns_read_node = redox_read_node eng, ns_write_node = redox_write_node eng,
     ns_on_open_node = redox_on_open_node eng, ns_on_close_node = redox_on_close_node eng,
     fs_page_identity = redox_page_identity_of, fs_prepare_page_write = redox_prepare_page_write,
     fs_fork_store = redox_fork eng\<rparr>"

end
