(* ===== verification/CacheMapping.thy ===== *)
theory CacheMapping
  imports CacheContract
begin

text \<open>
  Mapping and unmapping pages keep the invariant of the shared cache: \<^verbatim>\<open>map_page\<close> returns the page
  behind the version that the branch sees, and for a write mapping a version that no other branch
  sees.
\<close>

context forkable_store
begin

section \<open>The copy for a write mapping\<close>

lemma live_okD:
  "live_ok live cs \<Longrightarrow> map_of (cs_branches cs) b = Some br \<Longrightarrow> held live b p \<le> bm_count (cb_active_pages br) p"
  by (simp add: live_ok_def)

text \<open>
  The state \<open>cs'\<close> after the copy: a fresh identity \<open>i'\<close> for the key in branch \<open>b\<close>, a fresh page
  \<open>p\<close> behind it, and the old identity \<open>i\<close> dropped when no branch sees it any more.
\<close>

definition copied :: "('s, 'i) cache_state \<Rightarrow> world \<Rightarrow> cache_branch_id \<Rightarrow> 's cache_branch \<Rightarrow> page_key \<Rightarrow> 'i \<Rightarrow>
    cache_page \<Rightarrow> 'i \<Rightarrow> 's \<Rightarrow> ('s, 'i) cache_state \<Rightarrow> world \<Rightarrow> bool" where
  "copied cs w b br key i p i' s' cs' w' \<longleftrightarrow>
     map_of (cs_branches cs) b = Some br \<and> sees br key = Some i \<and>
     (\<exists>page. map_of (cs_pages cs) i = Some page \<and> bm_count (cb_active_pages br) (cp_id page) = 0) \<and>
     new_page cs w p \<and> i' \<notin> issued (next_file_object_id w) (next_page_version w) \<and> i' \<in> issued (next_file_object_id w') (next_page_version w') \<and>
     ident s' = (\<lambda>n q. if n = fst key \<and> q = snd key div PAGE_SIZE then Some i' else ident (cb_store br) n q) \<and>
     calm owned (cb_store br) w s' w' \<and> next_page_version w \<le> next_page_version w' \<and>
     cs_id cs' = cs_id cs \<and> cs_next_branch cs' = cs_next_branch cs \<and> cs_known_pages cs' = cs_known_pages cs \<and>
     bm_wf (cs_branches cs') \<and> bm_wf (cs_pages cs') \<and>
     map_of (cs_branches cs') = (map_of (cs_branches cs))
       (b \<mapsto> br\<lparr>cb_store := s', cb_exclusive_pages := insert key (cb_exclusive_pages br)\<rparr>) \<and>
     (\<forall>j. map_of (cs_pages cs') j = (if j = i' then Some p
        else if j = i \<and> \<not> (\<exists>c brc. c \<noteq> b \<and> map_of (cs_branches cs) c = Some brc \<and> sees brc key = Some i)
        then None else map_of (cs_pages cs) j))"

lemma copiedD:
  assumes inv: "cache_inv live (cs, w)" and c: "copied cs w b br key i p i' s' cs' w'"
  shows "map_of (cs_branches cs) b = Some br" "sees br key = Some i"
    "map_of (cs_branches cs') = (map_of (cs_branches cs))
       (b \<mapsto> br\<lparr>cb_store := s', cb_exclusive_pages := insert key (cb_exclusive_pages br)\<rparr>)"
    "sees (br\<lparr>cb_store := s', cb_exclusive_pages := X\<rparr>) k =
      (if fst k = fst key \<and> snd k div PAGE_SIZE = snd key div PAGE_SIZE then Some i' else sees br k)"
    "map_of (cs_branches cs) d = Some brd \<Longrightarrow> sees brd k \<noteq> Some i'"
    "issued (next_file_object_id w) (next_page_version w) \<subseteq> issued (next_file_object_id w') (next_page_version w')"
    "map_of (cs_pages cs') j = Some q \<Longrightarrow> j = i' \<and> q = p \<or> map_of (cs_pages cs) j = Some q"
    "map_of (cs_pages cs') i' = Some p"
    "w_next_inode w \<le> w_next_inode w'" "next_cache_page_id w' = next_cache_page_id w"
proof -
  show "sees brd k \<noteq> Some i'" if "map_of (cs_branches cs) d = Some brd"
    using branches_okD(3) [OF cache_invD(2) [OF inv] that] c by (auto simp: sees_def copied_def)
  show "issued (next_file_object_id w) (next_page_version w) \<subseteq> issued (next_file_object_id w') (next_page_version w')"
    by (rule issued_mono) (use c in \<open>simp_all add: copied_def calm_def\<close>)
  show "j = i' \<and> q = p \<or> map_of (cs_pages cs) j = Some q" if "map_of (cs_pages cs') j = Some q"
    using that c by (simp add: copied_def split: if_splits)
  show "map_of (cs_pages cs') i' = Some p" using c by (simp add: copied_def)
qed (use c in \<open>simp_all add: copied_def sees_def calm_def\<close>)

lemma copied_pages:
  assumes inv: "cache_inv live (cs, w)" and c: "copied cs w b br key i p i' s' cs' w'"
  shows "pages_ok cs' w'"
  unfolding pages_ok_def
proof (intro conjI allI impI)
  note D = cache_invD [OF inv] and C = copiedD [OF inv c]
  have new: "new_page cs w p" using c by (simp add: copied_def)
  show "bm_wf (cs_pages cs')" using c by (simp add: copied_def)
  show "j \<in> issued (next_file_object_id w') (next_page_version w')" if "map_of (cs_pages cs') j = Some q" for j q
    using C(7) [OF that] c pages_okD(1) [OF D(1)] C(6) unfolding copied_def by blast
  show "cp_id q < next_cache_page_id w'" if "map_of (cs_pages cs') j = Some q" for j q
    using C(7) [OF that] new pages_okD(2) [OF D(1)] C(10) by (auto simp: new_page_def)
  show "cp_backing q < w_next_inode w'" if "map_of (cs_pages cs') j = Some q" for j q
    using C(7) [OF that] new pages_okD(3) [OF D(1)] C(9) by (auto simp: new_page_def intro: order_less_le_trans)
  fix j k q q' assume jk: "map_of (cs_pages cs') j = Some q" "map_of (cs_pages cs') k = Some q'"
    "cp_id q = cp_id q' \<or> cp_backing q = cp_backing q'"
  show "j = k" using C(7) [OF jk(1)] C(7) [OF jk(2)] jk(3) new pages_okD(4,5) [OF D(1)] unfolding new_page_def by metis
qed

lemma copied_branches:
  assumes inv: "cache_inv live (cs, w)" and c: "copied cs w b br key i p i' s' cs' w'"
  shows "branches_ok cs' w'"
  unfolding branches_ok_def
proof (intro conjI allI impI)
  note D = cache_invD [OF inv] and C = copiedD [OF inv c]
  have s': "calm owned (cb_store br) w s' w'"
    "ident s' = (\<lambda>n q. if n = fst key \<and> q = snd key div PAGE_SIZE then Some i' else ident (cb_store br) n q)"
    "i' \<in> issued (next_file_object_id w') (next_page_version w')" "new_page cs w p"
    using c by (simp_all add: copied_def)
  show "bm_wf (cs_branches cs')" using c by (simp add: copied_def)
  fix d brd assume d: "map_of (cs_branches cs') d = Some brd"
  obtain br0 where br0: "map_of (cs_branches cs) d = Some br0" using d C(1,3) by (auto split: if_splits)
  have brd: "d = b \<and> br0 = br \<and> cb_store brd = s' \<or> cb_store brd = cb_store br0"
    using d br0 C(1,3) by (auto split: if_splits)
  show "cb_raw d < cs_next_branch cs'" using branches_okD(1) [OF D(2) br0] c by (simp add: copied_def)
  show "owned (cb_store brd) \<subseteq> {..<w_next_inode w'}"
    using brd calm_owned [OF s'(1) branches_okD(2) [OF D(2) C(1)]] below_trans [OF branches_okD(2) [OF D(2) br0] C(9)]
    by metis
  show "j \<in> issued (next_file_object_id w') (next_page_version w')" if "ident (cb_store brd) m q = Some j" for m q j
    using that brd s'(2,3) subsetD [OF C(6) branches_okD(3) [OF D(2) br0]] by (auto split: if_splits)
  show "cp_backing q \<notin> owned (cb_store brd)" if q: "map_of (cs_pages cs') j = Some q" for j q
  proof -
    have "cp_backing q < w_next_inode w"
      using C(7) [OF q] s'(4) pages_okD(3) [OF D(1)] by (auto simp: new_page_def)
    moreover have "cp_backing q \<notin> owned (cb_store br0)"
      using C(7) [OF q] s'(4) br0 branches_okD(4) [OF D(2) br0] by (auto simp: new_page_def)
    ultimately show ?thesis using brd s'(1) by (auto simp: calm_def)
  qed
qed

lemma copied_keys:
  assumes inv: "cache_inv live (cs, w)" and c: "copied cs w b br key i p i' s' cs' w'"
  shows "keys_ok cs'"
  unfolding keys_ok_def
proof (intro allI impI)
  note D = cache_invD [OF inv] and C = copiedD [OF inv c]
  have was: "\<exists>br0. map_of (cs_branches cs) d = Some br0 \<and>
      (m = fst key \<and> q = snd key div PAGE_SIZE \<and> j = i' \<or> ident (cb_store br0) m q = Some j)"
    if "map_of (cs_branches cs') d = Some brd" "ident (cb_store brd) m q = Some j" for d brd m q j
  proof (cases "d = b")
    case True
    then have "ident (cb_store brd) = (\<lambda>n q. if n = fst key \<and> q = snd key div PAGE_SIZE then Some i' else ident (cb_store br) n q)"
      using that(1) c by (auto simp: copied_def)
    then show ?thesis using that(2) C(1) True by (simp split: if_splits)
  qed (use that C(3) in simp)
  have fresh: "ident (cb_store br0) m q \<noteq> Some i'" if "map_of (cs_branches cs) d = Some br0" for d br0 m q
    using branches_okD(3) [OF D(2) that] c by (auto simp: copied_def)
  fix d brd e bre m q m' q' j
  assume a: "map_of (cs_branches cs') d = Some brd" "map_of (cs_branches cs') e = Some bre"
    "ident (cb_store brd) m q = Some j" "ident (cb_store bre) m' q' = Some j"
  obtain br0 where br0: "map_of (cs_branches cs) d = Some br0"
    "m = fst key \<and> q = snd key div PAGE_SIZE \<and> j = i' \<or> ident (cb_store br0) m q = Some j"
    using was [OF a(1,3)] by blast
  obtain br1 where br1: "map_of (cs_branches cs) e = Some br1"
    "m' = fst key \<and> q' = snd key div PAGE_SIZE \<and> j = i' \<or> ident (cb_store br1) m' q' = Some j"
    using was [OF a(2,4)] by blast
  show "m = m' \<and> q = q'"
    using br0(2) br1(2) fresh [OF br0(1)] fresh [OF br1(1)] keys_okD [OF D(3) br0(1) br1(1)] by auto
qed

lemma copied_exclusive:
  assumes inv: "cache_inv live (cs, w)" and c: "copied cs w b br key i p i' s' cs' w'"
  shows "exclusive_ok cs'"
  unfolding exclusive_ok_def
proof (intro allI impI)
  note D = cache_invD [OF inv] and C = copiedD [OF inv c]
  fix d brd k j e bre
  assume a: "map_of (cs_branches cs') d = Some brd" "k \<in> cb_exclusive_pages brd" "sees brd k = Some j"
    "e \<noteq> d" "map_of (cs_branches cs') e = Some bre"
  consider "d = b" "e \<noteq> b" | "d \<noteq> b" "e = b" | "d \<noteq> b" "e \<noteq> b" using a(4) by blast
  then show "sees bre k \<noteq> Some j"
  proof cases
    case 1
    then have e: "map_of (cs_branches cs) e = Some bre"
      and brd: "brd = br\<lparr>cb_store := s', cb_exclusive_pages := insert key (cb_exclusive_pages br)\<rparr>"
      using a by (simp_all add: C(3))
    show ?thesis
    proof (cases "j = i'")
      case False
      then have "sees br k = Some j" "k \<in> cb_exclusive_pages br"
        using a(2,3) by (auto simp: brd C(4) split: if_splits)
      then show ?thesis using exclusive_okD [OF D(4) C(1) _ _ 1(2) e] by blast
    qed (use C(5) [OF e] in simp)
  next
    case 2
    then have d: "map_of (cs_branches cs) d = Some brd" using a(1) by (simp add: C(3))
    have "sees br k \<noteq> Some j" using exclusive_okD [OF D(4) d a(2,3) _ C(1)] 2 by blast
    moreover have "j \<noteq> i'" using C(5) [OF d] a(3) by blast
    moreover have "bre = br\<lparr>cb_store := s', cb_exclusive_pages := insert key (cb_exclusive_pages br)\<rparr>"
      using a(5) 2 by (simp add: C(3))
    ultimately show ?thesis by (simp add: C(4))
  next
    case 3
    then show ?thesis using exclusive_okD [OF D(4) _ a(2,3)] a C(3) by (simp split: if_splits)
  qed
qed

text \<open>A version that a branch still sees after the copy is still cached.\<close>

lemma copied_resident:
  assumes inv: "cache_inv live (cs, w)" and c: "copied cs w b br key i p i' s' cs' w'"
    and d: "map_of (cs_branches cs) d = Some br0" "map_of (cs_branches cs') d = Some brd"
    and k: "sees br0 k = Some j" "map_of (cs_pages cs) j = Some q"
    and same: "sees brd k = Some j"
  shows "map_of (cs_pages cs') j = Some q"
proof -
  note D = cache_invD [OF inv] and C = copiedD [OF inv c]
  have "j \<noteq> i'" using C(5) [OF d(1)] k(1) by blast
  show ?thesis
  proof (cases "j = i")
    case True
    have key: "fst k = fst key \<and> snd k div PAGE_SIZE = snd key div PAGE_SIZE"
      using keys_okD [OF D(3) d(1) C(1)] k(1) C(2) True by (simp add: sees_def)
    have "d \<noteq> b"
    proof
      assume "d = b"
      then have "brd = br\<lparr>cb_store := s', cb_exclusive_pages := insert key (cb_exclusive_pages br)\<rparr>"
        using d(2) by (simp add: C(3))
      then have "sees brd k = Some i'" using key by (simp add: C(4))
      then show False using same \<open>j \<noteq> i'\<close> by simp
    qed
    moreover have "sees br0 key = Some i" using k(1) key True by (simp add: sees_def)
    ultimately show ?thesis using c d(1) k(2) \<open>j \<noteq> i'\<close> True by (auto simp: copied_def)
  qed (use c k(2) \<open>j \<noteq> i'\<close> in \<open>simp add: copied_def\<close>)
qed

lemma copied_branch_cases:
  assumes inv: "cache_inv live (cs, w)" and c: "copied cs w b br key i p i' s' cs' w'"
    and d: "map_of (cs_branches cs') d = Some brd"
  obtains br0 where "map_of (cs_branches cs) d = Some br0" "cb_dirty_pages brd = cb_dirty_pages br0"
    "cb_active_pages brd = cb_active_pages br0" "cb_exclusive_pages br0 \<subseteq> cb_exclusive_pages brd"
    "\<forall>k. sees brd k = sees br0 k \<or> d = b \<and> br0 = br \<and> sees br0 k = Some i \<and> sees brd k = Some i'"
proof (cases "d = b")
  case True
  note C = copiedD [OF inv c]
  have brd: "brd = br\<lparr>cb_store := s', cb_exclusive_pages := insert key (cb_exclusive_pages br)\<rparr>"
    using d True by (simp add: C(3))
  have "sees brd k = sees br k \<or> sees br k = Some i \<and> sees brd k = Some i'" for k
    using C(2) by (auto simp: brd C(4)) (auto simp: sees_def)
  then show thesis using that [of br] C(1) True by (auto simp: brd)
qed (use that d copiedD(3) [OF inv c] in simp)

lemma copied_dirty:
  assumes inv: "cache_inv live (cs, w)" and c: "copied cs w b br key i p i' s' cs' w'"
  shows "dirty_ok cs'"
  unfolding dirty_ok_def
proof (intro allI impI)
  note D = cache_invD [OF inv] and C = copiedD [OF inv c]
  fix d brd k assume d: "map_of (cs_branches cs') d = Some brd"
  obtain br0 where br0: "map_of (cs_branches cs) d = Some br0" "cb_dirty_pages brd = cb_dirty_pages br0"
    and view: "\<forall>k. sees brd k = sees br0 k \<or> d = b \<and> br0 = br \<and> sees br0 k = Some i \<and> sees brd k = Some i'"
    by (rule copied_branch_cases [OF inv c d])
  note dirty = dirty_okD [OF D(5) br0(1)]
  have "map_of (cs_pages cs') j \<noteq> None"
    if k: "ov_get (cb_dirty_pages br0) k = Some True" "sees brd k = Some j" for j
  proof (cases "sees br0 k = Some j")
    case True
    then obtain q where "map_of (cs_pages cs) j = Some q" using dirty(3) [OF k(1)] by blast
    then show ?thesis using copied_resident [OF inv c br0(1) d True _ k(2)] by simp
  next
    case False
    then have "j = i'" using spec [OF view, of k] k(2) by auto
    then show ?thesis using C(8) by simp
  qed
  then show "ov_wf (cb_dirty_pages brd) \<and> (ov_get (cb_dirty_pages brd) k = Some True \<longrightarrow>
      k \<in> set (cs_known_pages cs') \<and> sees brd k \<noteq> None \<and> (\<forall>i. sees brd k = Some i \<longrightarrow> map_of (cs_pages cs') i \<noteq> None))"
    using dirty(1) dirty(2,4) [of k] spec [OF view, of k] c unfolding br0(2) by (auto simp: copied_def)
qed

text \<open>No held mapping of the branch is of the copied page: its use count would not be zero.\<close>

lemma copied_live:
  assumes inv: "cache_inv live (cs, w)" and c: "copied cs w b br key i p i' s' cs' w'"
  shows "live_ok live cs'"
  unfolding live_ok_def
proof (intro conjI ballI allI impI)
  note D = cache_invD [OF inv] and C = copiedD [OF inv c]
  fix d brd q assume d: "map_of (cs_branches cs') d = Some brd"
  obtain br0 where "map_of (cs_branches cs) d = Some br0" "cb_active_pages brd = cb_active_pages br0"
    by (rule copied_branch_cases [OF inv c d])
  then show "held live d q \<le> bm_count (cb_active_pages brd) q" using D(6) by (simp add: live_ok_def)
next
  note D = cache_invD [OF inv] and C = copiedD [OF inv c]
  fix m assume m: "m \<in> set live"
  then have "mapping_ok cs m" using D(6) by (simp add: live_ok_def)
  then obtain br0 j where br0: "dm_cache_id m = cs_id cs" "dm_key m \<in> set (cs_known_pages cs)"
    "map_of (cs_branches cs) (dm_branch m) = Some br0" "sees br0 (dm_key m) = Some j"
    "map_of (cs_pages cs) j = Some (dm_page m)"
    "flags_contain (dm_flags m) WRITE \<longrightarrow> dm_key m \<in> cb_exclusive_pages br0"
    by (rule mapping_okE)
  obtain page where page: "map_of (cs_pages cs) i = Some page" "bm_count (cb_active_pages br) (cp_id page) = 0"
    using c by (auto simp: copied_def)
  have idle: "\<not> (dm_branch m = b \<and> j = i)"
  proof
    assume "dm_branch m = b \<and> j = i"
    then have "dm_page m = page" "0 < held live b (cp_id (dm_page m))"
      using br0(5) page(1) m by (auto simp: held_def filter_empty_conv)
    then show False using live_okD [OF D(6) C(1), of "cp_id page"] page(2) by simp
  qed
  obtain brd where brd: "map_of (cs_branches cs') (dm_branch m) = Some brd"
    using br0(3) by (cases "dm_branch m = b") (simp_all add: C(3))
  obtain br1 where br1: "map_of (cs_branches cs) (dm_branch m) = Some br1"
    "cb_exclusive_pages br1 \<subseteq> cb_exclusive_pages brd"
    and view: "\<forall>k. sees brd k = sees br1 k \<or> dm_branch m = b \<and> br1 = br \<and> sees br1 k = Some i \<and> sees brd k = Some i'"
    by (rule copied_branch_cases [OF inv c brd])
  have "br1 = br0" using br1(1) br0(3) by simp
  then have same: "sees brd (dm_key m) = Some j" using spec [OF view, of "dm_key m"] br0(4) idle by auto
  show "mapping_ok cs' m"
    using br0 br1(2) same \<open>br1 = br0\<close> copied_resident [OF inv c br0(3) brd br0(4,5) same] c
    by (intro mapping_okI [OF _ _ brd same]) (auto simp: copied_def)
qed

lemma copied_inv:
  "cache_inv live (cs, w) \<Longrightarrow> copied cs w b br key i p i' s' cs' w' \<Longrightarrow> cache_inv live (cs', w')"
  by (rule cache_invI [OF copied_pages copied_branches copied_keys copied_exclusive copied_dirty copied_live])

lemma inv_failed_page:
  assumes "cache_inv live (cs, w)" "makes_page w w' (Inl e) bytes"
  shows "cache_inv live (cs, w')"
  using assms(2) by (intro inv_world [OF assms(1)]) (simp add: makes_page_def world_grows_def)

text \<open>What the copy part does: it fails in making the page, or leaves a \<open>copied\<close> state.\<close>

lemma map_page_copy_cases:
  assumes inv: "cache_inv live (cs, w)" and b: "map_of (cs_branches cs) b = Some br" "sees br (n, off) = Some i"
    and page: "map_of (cs_pages cs) i = Some page" "bm_count (cb_active_pages br) (cp_id page) = 0"
    and room: "next_cache_page_id w + 1 < u64_bound" "next_page_version w + 1 < u64_bound"
    and call: "map_page_copy st b i page n off (cs, w) = (r, (cs', w'))"
  obtains (failed) e where "page_duplicate page w = (Inl e, w')" "cs' = cs" "r = Inl (Io e)"
  | (copies) p w1 i' s' where "page_duplicate page w = (Inr p, w1)" "r = Inr p"
      "copied cs w1 b br (n, off) i p i' s' cs' w'" "next_page_version w' = next_page_version w + 1"
proof -
  obtain r1 w1 where dup: "page_duplicate page w = (r1, w1)" by (metis prod.exhaust)
  note made = page_duplicate_makes [OF dup]
  show thesis
  proof (cases r1)
    case (Inl e)
    then show thesis
      using call dup by (intro failed [of e]) (simp_all add: map_page_copy_def mbind_apply map_err_apply on_world_apply)
  next
    case (Inr p)
    note new = makes_new_page [OF inv made [unfolded Inr] room(1)]
    have w1: "next_page_version w1 = next_page_version w" "next_file_object_id w1 = next_file_object_id w"
      using made Inr by (auto simp: makes_page_def)
    have id: "ident (cb_store br) n (off div PAGE_SIZE) = Some i" using b(2) by (simp add: sees_def)
    obtain i' s' w2 where prep: "fs_prepare_page_write st n off (cb_store br, w1) = (Inr i', (s', w2))"
      "i' \<notin> issued (next_file_object_id w1) (next_page_version w1)" "i' \<in> issued (next_file_object_id w2) (next_page_version w2)"
      "ident s' = (\<lambda>n' q. if n' = n \<and> q = off div PAGE_SIZE then Some i' else ident (cb_store br) n' q)"
      "calm owned (cb_store br) w1 s' w2" "next_page_version w2 = next_page_version w1 + 1"
      using prepare_law [OF id, of w1] room(2) w1 pages_okD(1) [OF cache_invD(1) [OF inv] page(1)] by auto
    define cs1 where "cs1 = cs\<lparr>cs_branches := bm_insert b (br\<lparr>cb_store := s'\<rparr>) (cs_branches cs),
      cs_pages := bm_insert i' p (cs_pages cs)\<rparr>"
    define vis where "vis \<longleftrightarrow> (\<exists>k \<in> set (bm_keys (cs_branches cs1)). \<exists>v. map_of (cs_branches cs1) k = Some v \<and> sees v (n, off) = Some i)"
    have wf1: "bm_wf (cs_branches cs1)" using cache_invD(7) [OF inv] by (simp add: cs1_def)
    have run: "map_page_copy st b i page n off (cs, w) =
        (Inr p, (cs1\<lparr>cs_pages := (if vis then cs_pages cs1 else bm_remove i (cs_pages cs1)),
          cs_branches := bm_insert b (br\<lparr>cb_store := s', cb_exclusive_pages := insert (n, off) (cb_exclusive_pages br)\<rparr>)
            (cs_branches cs1)\<rparr>, w2))"
      using dup Inr prep(1) b(1) any_sees_call [OF wf1, of i n off "bm_keys (cs_branches cs1)" w2, folded vis_def]
      by (simp add: map_page_copy_def mbind_apply map_err_apply on_world_apply on_store.simps cs1_def
          update_branch_def put_branch_def)
    have "i \<noteq> i'"
      using pages_okD(1) [OF cache_invD(1) [OF inv] page(1)] prep(2) w1 by auto
    then have vis: "vis \<longleftrightarrow> (\<exists>c brc. c \<noteq> b \<and> map_of (cs_branches cs) c = Some brc \<and> sees brc (n, off) = Some i)"
      unfolding vis_def bex_keys using prep(4) by (auto simp: cs1_def sees_def split: if_splits)
    have cs': "cs_id cs' = cs_id cs" "cs_next_branch cs' = cs_next_branch cs" "cs_known_pages cs' = cs_known_pages cs"
      "bm_wf (cs_branches cs')" "bm_wf (cs_pages cs')" "map_of (cs_branches cs') = (map_of (cs_branches cs))
         (b \<mapsto> br\<lparr>cb_store := s', cb_exclusive_pages := insert (n, off) (cb_exclusive_pages br)\<rparr>)"
      using call run cache_invD(7,8) [OF inv] by (auto simp: cs1_def)
    have pages': "map_of (cs_pages cs') j = (if j = i' then Some p else if j = i \<and> \<not> vis then None else map_of (cs_pages cs) j)" for j
      using call run \<open>i \<noteq> i'\<close> by (auto simp: cs1_def)
    have res: "r = Inr p" "w' = w2" using call run by simp_all
    have "copied cs w1 b br (n, off) i p i' s' cs' w'"
      unfolding copied_def vis [symmetric] res(2) using b page new(1) prep cs' pages' by simp
    then show thesis using dup Inr res prep(6) w1(1) by (intro copies) simp_all
  qed
qed

lemma map_page_copy_inv:
  assumes inv: "cache_inv live (cs, w)" and b: "map_of (cs_branches cs) b = Some br" "sees br (n, off) = Some i"
    and page: "map_of (cs_pages cs) i = Some page" "bm_count (cb_active_pages br) (cp_id page) = 0"
    and room: "next_cache_page_id w + 1 < u64_bound" "next_page_version w + 1 < u64_bound"
    and call: "map_page_copy st b i page n off (cs, w) = (r, (cs', w'))"
  shows "cache_inv live (cs', w') \<and> next_cache_page_id w' \<le> next_cache_page_id w + 1 \<and>
    next_page_version w' \<le> next_page_version w + 1 \<and> cs_id cs' = cs_id cs \<and>
    (\<forall>q. r = Inr q \<longrightarrow> (\<exists>br' i'. map_of (cs_branches cs') b = Some br' \<and> sees br' (n, off) = Some i' \<and>
       map_of (cs_pages cs') i' = Some q \<and> (n, off) \<in> cb_exclusive_pages br' \<and>
       cb_active_pages br' = cb_active_pages br))"
  using assms
proof (cases rule: map_page_copy_cases)
  case (failed e)
  note made = page_duplicate_makes [OF failed(1)]
  then show ?thesis using inv_failed_page [OF inv made] failed by (simp add: makes_page_def)
next
  case (copies p w1 i' s')
  note made = page_duplicate_makes [OF copies(1)]
  note new = makes_new_page [OF inv made room(1)]
  note C = copiedD [OF new(2) copies(3)]
  have "next_cache_page_id w' = next_cache_page_id w + 1"
    using C(10) made room(1) by (auto simp: makes_page_def u64_succ_small)
  moreover have "\<exists>br' i'. map_of (cs_branches cs') b = Some br' \<and> sees br' (n, off) = Some i' \<and>
     map_of (cs_pages cs') i' = Some p \<and> (n, off) \<in> cb_exclusive_pages br' \<and>
     cb_active_pages br' = cb_active_pages br"
    by (intro exI [of _ "br\<lparr>cb_store := s', cb_exclusive_pages := insert (n, off) (cb_exclusive_pages br)\<rparr>"]
        exI [of _ i']) (simp add: C(3,4,8))
  moreover have "cs_id cs' = cs_id cs" using copies(3) by (simp add: copied_def)
  ultimately show ?thesis
    using copied_inv [OF new(2) copies(3)] copies(2,4) by simp
qed

end

section \<open>Holding and releasing mappings\<close>

context forkable_store
begin

text \<open>States whose branches have the same stores and no more exclusive pages.\<close>

lemma same_stores:
  assumes inv: "cache_inv live (cs, w)"
    and old: "\<And>d brd. map_of (cs_branches cs') d = Some brd \<Longrightarrow> \<exists>br0. map_of (cs_branches cs) d = Some br0 \<and>
      cb_store brd = cb_store br0 \<and> cb_exclusive_pages brd \<subseteq> cb_exclusive_pages br0"
    and cs': "bm_wf (cs_branches cs')" "cs_pages cs' = cs_pages cs" "cs_next_branch cs' = cs_next_branch cs"
  shows "pages_ok cs' w" "branches_ok cs' w" "keys_ok cs'" "exclusive_ok cs'"
proof -
  note D = cache_invD [OF inv]
  show "pages_ok cs' w" using D(1) by (simp add: pages_ok_def cs'(2))
  show "branches_ok cs' w" unfolding branches_ok_def
  proof (intro conjI allI impI)
    show "bm_wf (cs_branches cs')" by (rule cs'(1))
    fix d brd assume "map_of (cs_branches cs') d = Some brd"
    then obtain br0 where br0: "map_of (cs_branches cs) d = Some br0" "cb_store brd = cb_store br0" using old by blast
    note B = branches_okD [OF D(2) br0(1)]
    show "cb_raw d < cs_next_branch cs'" "owned (cb_store brd) \<subseteq> {..<w_next_inode w}"
      using B(1,2) by (simp_all add: cs'(3) br0(2))
    show "i \<in> issued (next_file_object_id w) (next_page_version w)" if "ident (cb_store brd) n p = Some i" for n p i
      using B(3) that by (simp add: br0(2))
    show "cp_backing p \<notin> owned (cb_store brd)" if "map_of (cs_pages cs') i = Some p" for i p
      using B(4) that by (simp add: cs'(2) br0(2))
  qed
  show "keys_ok cs'" unfolding keys_ok_def
  proof (intro allI impI)
    fix d brd e bre n p n' p' i
    assume a: "map_of (cs_branches cs') d = Some brd" "map_of (cs_branches cs') e = Some bre"
      "ident (cb_store brd) n p = Some i" "ident (cb_store bre) n' p' = Some i"
    obtain br0 where br0: "map_of (cs_branches cs) d = Some br0" "cb_store brd = cb_store br0" using old [OF a(1)] by blast
    obtain br1 where br1: "map_of (cs_branches cs) e = Some br1" "cb_store bre = cb_store br1" using old [OF a(2)] by blast
    show "n = n' \<and> p = p'" using keys_okD [OF D(3) br0(1) br1(1)] a(3,4) br0(2) br1(2) by simp
  qed
  show "exclusive_ok cs'" unfolding exclusive_ok_def
  proof (intro allI impI)
    fix d brd k i e bre
    assume a: "map_of (cs_branches cs') d = Some brd" "k \<in> cb_exclusive_pages brd" "sees brd k = Some i"
      "e \<noteq> d" "map_of (cs_branches cs') e = Some bre"
    obtain br0 where br0: "map_of (cs_branches cs) d = Some br0" "cb_store brd = cb_store br0"
      "cb_exclusive_pages brd \<subseteq> cb_exclusive_pages br0" using old [OF a(1)] by blast
    obtain br1 where br1: "map_of (cs_branches cs) e = Some br1" "cb_store bre = cb_store br1" using old [OF a(5)] by blast
    have "k \<in> cb_exclusive_pages br0" using a(2) br0(3) by blast
    then show "sees bre k \<noteq> Some i"
      using exclusive_okD [OF D(4) br0(1) _ _ a(4) br1(1), of k i] a(3) br0(2) br1(2) by (simp add: sees_def)
  qed
qed

text \<open>An update of one branch that leaves its store and its exclusive pages alone.\<close>

lemma inv_update_branch:
  assumes inv: "cache_inv live (cs, w)" and b: "map_of (cs_branches cs) b = Some br"
    and br': "cb_store br' = cb_store br" "cb_exclusive_pages br' = cb_exclusive_pages br" "ov_wf (cb_dirty_pages br')"
    and cs': "cs_branches cs' = bm_insert b br' (cs_branches cs)" "cs_pages cs' = cs_pages cs" "cs_id cs' = cs_id cs"
      "cs_next_branch cs' = cs_next_branch cs" "set (cs_known_pages cs) \<subseteq> set (cs_known_pages cs')"
    and dirty: "\<And>k. ov_get (cb_dirty_pages br') k = Some True \<Longrightarrow> ov_get (cb_dirty_pages br) k = Some True \<or>
      k \<in> set (cs_known_pages cs') \<and> sees br k \<noteq> None \<and> (\<forall>i. sees br k = Some i \<longrightarrow> map_of (cs_pages cs) i \<noteq> None)"
    and live: "\<And>m. m \<in> set live' \<Longrightarrow> m \<in> set live \<or> mapping_ok cs' m"
      "\<And>p. held live' b p \<le> bm_count (cb_active_pages br') p" "\<And>c p. c \<noteq> b \<Longrightarrow> held live' c p \<le> held live c p"
  shows "cache_inv live' (cs', w)"
proof (rule cache_invI)
  note D = cache_invD [OF inv]
  have sees': "sees br' k = sees br k" for k by (simp add: sees_def br'(1))
  have wf: "bm_wf (cs_branches cs')" using D(7) by (simp add: cs'(1))
  have "\<exists>br0. map_of (cs_branches cs) d = Some br0 \<and> cb_store brd = cb_store br0 \<and>
      cb_exclusive_pages brd \<subseteq> cb_exclusive_pages br0" if "map_of (cs_branches cs') d = Some brd" for d brd
    using that b br'(1,2) by (cases "d = b") (auto simp: cs'(1))
  from same_stores [OF inv this wf cs'(2,4)]
  show "pages_ok cs' w" "branches_ok cs' w" "keys_ok cs'" "exclusive_ok cs'" by simp_all
  show "dirty_ok cs'" unfolding dirty_ok_def
  proof (intro allI impI)
    fix d brd k assume d: "map_of (cs_branches cs') d = Some brd"
    show "ov_wf (cb_dirty_pages brd) \<and> (ov_get (cb_dirty_pages brd) k = Some True \<longrightarrow> k \<in> set (cs_known_pages cs') \<and>
        sees brd k \<noteq> None \<and> (\<forall>i. sees brd k = Some i \<longrightarrow> map_of (cs_pages cs') i \<noteq> None))"
    proof (cases "d = b")
      case True
      then have "brd = br'" using d by (simp add: cs'(1))
      moreover note K = dirty [of k] dirty_okD(2-4) [OF D(5) b, of k] subsetD [OF cs'(5), of k]
      have "k \<in> set (cs_known_pages cs') \<and> sees br k \<noteq> None \<and> (\<forall>i. sees br k = Some i \<longrightarrow> map_of (cs_pages cs) i \<noteq> None)"
        if "ov_get (cb_dirty_pages br') k = Some True"
        using K that by blast
      ultimately show ?thesis using br'(3) by (simp add: sees' cs'(2))
    next
      case False
      then have "map_of (cs_branches cs) d = Some brd" using d by (simp add: cs'(1))
      note K = dirty_okD(1) [OF D(5) this] dirty_okD(2-4) [OF D(5) this, of k]
      show ?thesis using K subsetD [OF cs'(5), of k] by (simp add: cs'(2))
    qed
  qed
  show "live_ok live' cs'" unfolding live_ok_def
  proof (intro conjI ballI allI impI)
    fix m assume "m \<in> set live'"
    then consider "mapping_ok cs m" | "mapping_ok cs' m" using live(1) D(6) by (auto simp: live_ok_def)
    then show "mapping_ok cs' m"
    proof cases
      case 1
      then obtain br0 i where m: "dm_cache_id m = cs_id cs" "dm_key m \<in> set (cs_known_pages cs)"
        "map_of (cs_branches cs) (dm_branch m) = Some br0" "sees br0 (dm_key m) = Some i"
        "map_of (cs_pages cs) i = Some (dm_page m)"
        "flags_contain (dm_flags m) WRITE \<longrightarrow> dm_key m \<in> cb_exclusive_pages br0" by (rule mapping_okE)
      note known = subsetD [OF cs'(5) m(2)]
      show ?thesis
      proof (cases "dm_branch m = b")
        case True
        then have "br0 = br" using m(3) b by simp
        then show ?thesis
          using True m known br'(2) by (intro mapping_okI [of m cs' br' i]) (simp_all add: cs'(1-3) sees')
      next
        case False
        then show ?thesis using m known by (intro mapping_okI [of m cs' br0 i]) (simp_all add: cs'(1-3))
      qed
    qed
  next
    fix d brd p assume "map_of (cs_branches cs') d = Some brd"
    then show "held live' d p \<le> bm_count (cb_active_pages brd) p"
      using live(2) live(3) [of d p] live_okD [OF D(6), of d brd p] by (cases "d = b") (auto simp: cs'(1))
  qed
qed

lemma bm_count_incr: "bm_count (bm_incr k m) j = bm_count m j + (if j = k then 1 else 0)"
  by (auto simp: bm_count_def split: option.splits)

lemma held_Cons: "held (m # live) b p = held live b p + (if dm_branch m = b \<and> cp_id (dm_page m) = p then 1 else 0)"
  by (simp add: held_def)

lemma inv_hold:
  assumes inv: "cache_inv live (cs, w)" and b: "map_of (cs_branches cs) b = Some br" "sees br key = Some i"
    and p: "map_of (cs_pages cs) i = Some p" "flags_contain fl WRITE \<longrightarrow> key \<in> cb_exclusive_pages br"
    and cs': "cs' = cs\<lparr>cs_known_pages := insort_insert key (cs_known_pages cs),
      cs_branches := bm_insert b (br\<lparr>cb_active_pages := bm_incr (cp_id p) (cb_active_pages br)\<rparr>) (cs_branches cs)\<rparr>"
    and m: "m = \<lparr>dm_cache_id = cs_id cs, dm_branch = b, dm_key = key, dm_flags = fl, dm_page = p\<rparr>"
  shows "cache_inv (m # live) (cs', w)"
proof (rule inv_update_branch [OF inv b(1)])
  let ?br = "br\<lparr>cb_active_pages := bm_incr (cp_id p) (cb_active_pages br)\<rparr>"
  note D = cache_invD [OF inv]
  show "ov_wf (cb_dirty_pages ?br)" using dirty_okD(1) [OF D(5) b(1)] by simp
  show "m' \<in> set live \<or> mapping_ok cs' m'" if "m' \<in> set (m # live)" for m'
    using that b(2) p by (auto simp: m cs' set_insort_insert sees_def intro!: mapping_okI [of _ _ ?br i])
  show "held (m # live) b q \<le> bm_count (cb_active_pages ?br) q" for q
    using live_okD [OF D(6) b(1), of q] by (auto simp: held_Cons bm_count_incr m)
qed (auto simp: cs' set_insort_insert held_Cons m)

lemma held_mono: "held live b p \<le> held (m # live) b p"
  by (simp add: held_Cons)

lemma live_forget:
  assumes "live_ok (m # live) cs" shows "live_ok live cs"
  unfolding live_ok_def
proof (intro conjI ballI allI impI)
  show "mapping_ok cs m'" if "m' \<in> set live" for m' using assms that by (simp add: live_ok_def)
  show "held live b p \<le> bm_count (cb_active_pages br) p" if "map_of (cs_branches cs) b = Some br" for b br p
    using order_trans [OF held_mono live_okD [OF assms that]] .
qed

lemma inv_forget: "cache_inv (m # live) (cs, w) \<Longrightarrow> cache_inv live (cs, w)"
  using live_forget [of m live cs] by (simp add: cache_inv_def)

lemma map_page_hold_inv:
  assumes inv: "cache_inv live (cs, w)" and b: "map_of (cs_branches cs) b = Some br" "sees br key = Some i"
    and p: "map_of (cs_pages cs) i = Some p" "flags_contain fl WRITE \<longrightarrow> key \<in> cb_exclusive_pages br"
  obtains m cs' where "map_page_hold b key fl p (cs, w) = (Inr m, (cs', w))" "cache_inv (m # live) (cs', w)"
    "m = \<lparr>dm_cache_id = cs_id cs, dm_branch = b, dm_key = key, dm_flags = fl, dm_page = p\<rparr>" "cs_id cs' = cs_id cs"
proof -
  let ?cs = "cs\<lparr>cs_known_pages := insort_insert key (cs_known_pages cs),
      cs_branches := bm_insert b (br\<lparr>cb_active_pages := bm_incr (cp_id p) (cb_active_pages br)\<rparr>) (cs_branches cs)\<rparr>"
  let ?m = "\<lparr>dm_cache_id = cs_id cs, dm_branch = b, dm_key = key, dm_flags = fl, dm_page = p\<rparr>"
  have "map_page_hold b key fl p (cs, w) = (Inr ?m, (?cs, w))"
    using b(1) by (simp add: map_page_hold_def mbind_apply update_branch_def put_branch_def)
  then show thesis using inv_hold [OF inv b p refl refl] by (rule that) simp_all
qed

text \<open>What a mapping call may use up, and what a new mapping is.\<close>

definition mapped :: "dax_page_mapping list \<Rightarrow> cache_branch_id \<Rightarrow> page_key \<Rightarrow> map_flags \<Rightarrow> ('s, 'i) cache_state \<Rightarrow>
    cache_error + dax_page_mapping \<Rightarrow> ('s, 'i) cache_state \<Rightarrow> world \<Rightarrow> bool" where
  "mapped live b key fl cs r cs' w' \<longleftrightarrow> cache_inv live (cs', w') \<and> cs_id cs' = cs_id cs \<and>
     (\<forall>m. r = Inr m \<longrightarrow> cache_inv (m # live) (cs', w') \<and> dm_branch m = b \<and> dm_key m = key \<and> dm_flags m = fl)"

lemma mapped_error: "cache_inv live (cs', w') \<Longrightarrow> cs_id cs' = cs_id cs \<Longrightarrow> mapped live b key fl cs (Inl e) cs' w'"
  by (simp add: mapped_def)

lemma map_page_hold_mapped:
  assumes "cache_inv live (cs, w)" "map_of (cs_branches cs) b = Some br" "sees br key = Some i"
    "map_of (cs_pages cs) i = Some p" "flags_contain fl WRITE \<longrightarrow> key \<in> cb_exclusive_pages br"
    and "map_page_hold b key fl p (cs, w) = (r, (cs', w'))" "cs_id cs = cs_id cs0"
  shows "mapped live b key fl cs0 r cs' w' \<and> w' = w"
proof -
  obtain m cs1 where "map_page_hold b key fl p (cs, w) = (Inr m, (cs1, w))" "cache_inv (m # live) (cs1, w)"
    "m = \<lparr>dm_cache_id = cs_id cs, dm_branch = b, dm_key = key, dm_flags = fl, dm_page = p\<rparr>" "cs_id cs1 = cs_id cs"
    by (rule map_page_hold_inv [OF assms(1-5)])
  with assms(6,7) show ?thesis by (auto simp: mapped_def dest: inv_forget)
qed

lemma map_page_loaded_inv:
  assumes inv: "cache_inv live (cs, w)" and b: "map_of (cs_branches cs) b = Some br" "sees br (n, off) = Some i"
    and page: "map_of (cs_pages cs) i = Some page"
    and room: "next_cache_page_id w + 1 < u64_bound" "next_page_version w + 1 < u64_bound"
    and call: "map_page_loaded st b n off fl i page (cs, w) = (r, (cs', w'))"
  shows "mapped live b (n, off) fl cs r cs' w' \<and> next_cache_page_id w' \<le> next_cache_page_id w + 1 \<and>
    next_page_version w' \<le> next_page_version w + 1"
proof -
  let ?cow = "flags_contain fl WRITE \<and> (n, off) \<notin> cb_exclusive_pages br"
  consider (busy) "?cow" "bm_count (cb_active_pages br) (cp_id page) > 0"
    | (copy) "?cow" "bm_count (cb_active_pages br) (cp_id page) = 0" | (direct) "\<not> ?cow" by auto
  then show ?thesis
  proof cases
    case busy
    then show ?thesis using call b(1) inv by (auto simp: map_page_loaded_def mbind_apply mapped_def)
  next
    case direct
    then have "map_page_hold b (n, off) fl page (cs, w) = (r, (cs', w'))"
      using call b(1) by (auto simp: map_page_loaded_def mbind_apply)
    from map_page_hold_mapped [OF inv b page _ this] show ?thesis using direct by auto
  next
    case copy
    obtain r1 cs1 w1 where cp: "map_page_copy st b i page n off (cs, w) = (r1, (cs1, w1))" by (metis prod.exhaust)
    note K = map_page_copy_inv [OF inv b page copy(2) room cp]
    have run: "map_page_loaded st b n off fl i page (cs, w) = (case r1 of Inl e \<Rightarrow> (Inl e, (cs1, w1))
        | Inr q \<Rightarrow> map_page_hold b (n, off) fl q (cs1, w1))"
      using copy b(1) cp by (simp add: map_page_loaded_def mbind_apply split: sum.splits)
    show ?thesis
    proof (cases r1)
      case (Inl e)
      then show ?thesis using K call run by (auto simp: mapped_def)
    next
      case (Inr q)
      then obtain br' i' where br': "map_of (cs_branches cs1) b = Some br'" "sees br' (n, off) = Some i'"
        "map_of (cs_pages cs1) i' = Some q" "(n, off) \<in> cb_exclusive_pages br'" using K by blast
      have "mapped live b (n, off) fl cs r cs' w' \<and> w' = w1"
        using K call run Inr br' by (intro map_page_hold_mapped [of live cs1 w1 b br' "(n, off)" i' q]) auto
      then show ?thesis using K by auto
    qed
  qed
qed

end

context forkable_store
begin

text \<open>
  \<^verbatim>\<open>map_page\<close> keeps the invariant on every outcome; on success the mapping joins the held ones.
\<close>

lemma map_page_inv:
  assumes inv: "cache_inv live (cs, w)" and room: "room 1 w"
    and call: "map_page st b n off fl (cs, w) = (r, (cs', w'))"
  shows "mapped live b (n, off) fl cs r cs' w' \<and> next_cache_page_id w' \<le> next_cache_page_id w + 2 \<and>
    next_page_version w' \<le> next_page_version w + 1"
proof -
  have stop: ?thesis if "r = Inl e" "cs' = cs" "w' = w" for e
    using that inv by (simp add: mapped_def)
  have room1: "next_cache_page_id w + 1 < u64_bound" using room by (simp add: room_def)
  consider (bad) "off mod PAGE_SIZE \<noteq> 0 \<or> \<not> flags_intersect fl (READ OR WRITE) \<or> map_of (cs_branches cs) b = None"
    | (closed) br where "off mod PAGE_SIZE = 0" "flags_intersect fl (READ OR WRITE)" "map_of (cs_branches cs) b = Some br"
        "bm_count (cb_open_nodes br) n = 0 \<or> sees br (n, off) = None"
    | (good) br i where "off mod PAGE_SIZE = 0" "flags_intersect fl (READ OR WRITE)" "map_of (cs_branches cs) b = Some br"
        "bm_count (cb_open_nodes br) n \<noteq> 0" "sees br (n, off) = Some i"
    by (cases "map_of (cs_branches cs) b") auto
  then show ?thesis
  proof cases
    case bad
    then show ?thesis using call stop by (auto simp: map_page_def mbind_apply split: if_splits)
  next
    case closed
    note idc = identity_call [OF cache_invD(7) [OF inv], of b n off w, unfolded closed(3)]
    from closed show ?thesis
      using call stop idc by (cases "bm_count (cb_open_nodes br) n = 0") (auto simp: map_page_def mbind_apply)
  next
    case good
    note idc = identity_call [OF cache_invD(7) [OF inv], of b n off w, unfolded good(3)]
    obtain r1 cs1 w1 where ld: "load_page st b i n off (cs, w) = (r1, (cs1, w1))" by (metis prod.exhaust)
    note L = load_page_inv [OF inv good(3,5) room1 ld]
    have run: "map_page st b n off fl (cs, w) = (case r1 of Inl e \<Rightarrow> (Inl e, (cs1, w1))
        | Inr p \<Rightarrow> map_page_loaded st b n off fl i p (cs1, w1))"
      using good idc ld by (simp add: map_page_def mbind_apply split: sum.splits)
    have kept: "kept cs w cs1 w1" using L by blast
    then have same: "cs_id cs1 = cs_id cs" "next_page_version w1 = next_page_version w" by (simp_all add: kept_def)
    show ?thesis
    proof (cases r1)
      case (Inl e)
      then show ?thesis using L call run same by (auto simp: mapped_def)
    next
      case (Inr p)
      obtain br1 where br1: "map_of (cs_branches cs1) b = Some br1" "alike br br1"
        by (rule kept_branch [OF kept good(3)])
      have "sees br1 (n, off) = Some i" using good(5) alike_sees [OF br1(2)] by simp
      from map_page_loaded_inv [OF _ br1(1) this _ _ _ call [unfolded run Inr, simplified]]
      have "mapped live b (n, off) fl cs1 r cs' w' \<and> next_cache_page_id w' \<le> next_cache_page_id w1 + 1 \<and>
        next_page_version w' \<le> next_page_version w1 + 1"
        using L Inr room same by (auto simp: room_def)
      then show ?thesis using L same by (auto simp: mapped_def)
    qed
  qed
qed

text \<open>Releasing a held mapping never fails; a written page becomes dirty.\<close>

lemma held_remove1:
  "m \<in> set live \<Longrightarrow> held (remove1 m live) b p = held live b p - (if dm_branch m = b \<and> cp_id (dm_page m) = p then 1 else 0)"
  by (auto simp: held_def filter_remove1 length_remove1)

lemma unmap_inv:
  assumes inv: "cache_inv live (cs, w)" and m: "m \<in> set live"
  obtains cs' where "unmap (dm_branch m) m (cs, w) = (Inr (), (cs', w))" "cache_inv (remove1 m live) (cs', w)"
    "cs_id cs' = cs_id cs"
proof -
  note D = cache_invD [OF inv]
  have "mapping_ok cs m" using D(6) m by (simp add: live_ok_def)
  then obtain br i where br: "dm_cache_id m = cs_id cs" "dm_key m \<in> set (cs_known_pages cs)"
    "map_of (cs_branches cs) (dm_branch m) = Some br" "sees br (dm_key m) = Some i"
    "map_of (cs_pages cs) i = Some (dm_page m)"
    "flags_contain (dm_flags m) WRITE \<longrightarrow> dm_key m \<in> cb_exclusive_pages br" by (rule mapping_okE)
  let ?p = "cp_id (dm_page m)"
  have "0 < held live (dm_branch m) ?p" using m by (auto simp: held_def filter_empty_conv)
  then have pos: "0 < bm_count (cb_active_pages br) ?p" using live_okD [OF D(6) br(3), of ?p] by simp
  then obtain c where c: "map_of (cb_active_pages br) ?p = Some (Suc c)"
    by (auto simp: bm_count_def gr0_conv_Suc split: option.splits)
  define active where "active = (if c = 0 then bm_remove ?p (cb_active_pages br) else bm_insert ?p c (cb_active_pages br))"
  define br1 where "br1 = br\<lparr>cb_active_pages := active\<rparr>"
  define br2 where "br2 = (if flags_contain (dm_flags m) WRITE
    then br1\<lparr>cb_dirty_pages := mark_dirty (dm_key m) (cb_dirty_pages br)\<rparr> else br1)"
  let ?cs = "cs\<lparr>cs_branches := bm_insert (dm_branch m) br2 (cs_branches cs)\<rparr>"
  have run: "unmap (dm_branch m) m (cs, w) = (Inr (), (?cs, w))"
    using br(1,3) c by (simp add: unmap_def mbind_apply update_branch_def put_branch_def br2_def br1_def active_def
        Let_def checked_sub_def)
  have count: "bm_count active q = bm_count (cb_active_pages br) q - (if q = ?p then 1 else 0)" for q
    using c by (auto simp: active_def bm_count_def)
  have "cache_inv (remove1 m live) (?cs, w)"
  proof (rule inv_update_branch [OF inv br(3)])
    have wf: "ov_wf (cb_dirty_pages br)" by (rule dirty_okD(1) [OF D(5) br(3)])
    then show "ov_wf (cb_dirty_pages br2)" by (simp add: br2_def br1_def mark_dirty_def)
    show "ov_get (cb_dirty_pages br) k = Some True \<or> k \<in> set (cs_known_pages ?cs) \<and>
        sees br k \<noteq> None \<and> (\<forall>i. sees br k = Some i \<longrightarrow> map_of (cs_pages cs) i \<noteq> None)"
      if "ov_get (cb_dirty_pages br2) k = Some True" for k
      using that br(2,4,5) by (auto simp: br2_def br1_def mark_dirty_def split: if_splits)
    show "held (remove1 m live) (dm_branch m) q \<le> bm_count (cb_active_pages br2) q" for q
      using live_okD [OF D(6) br(3), of q] m by (auto simp: held_remove1 br2_def br1_def count)
    show "m' \<in> set live \<or> mapping_ok ?cs m'" if "m' \<in> set (remove1 m live)" for m'
      using subsetD [OF set_remove1_subset that] by simp
    show "held (remove1 m live) d q \<le> held live d q" for d q using m by (simp add: held_remove1)
  qed (simp_all add: br2_def br1_def)
  then show thesis by (rule that [OF run]) simp
qed

end

end
