(* ===== verification/CacheInvariant.thy ===== *)
theory CacheInvariant
  imports CacheMapping
begin

text \<open>
  The remaining methods of the shared cache keep its invariant: forking and removing branches,
  opening and closing nodes, writing dirty pages back, reading and writing through mappings. The
  step relation \<^verbatim>\<open>cache_step\<close> puts them together with what clients do in between.
\<close>

context forkable_store
begin

section \<open>Forks\<close>

lemma held_zero_iff: "held live b p = 0 \<longleftrightarrow> (\<forall>m \<in> set live. \<not> (dm_branch m = b \<and> cp_id (dm_page m) = p))"
  by (simp add: held_def filter_empty_conv)

lemma idle_branch:
  assumes "live_ok live cs" "map_of (cs_branches cs) b = Some br" "cb_active_pages br = []" "m \<in> set live"
  shows "dm_branch m \<noteq> b"
proof
  assume "dm_branch m = b"
  then have "held live b (cp_id (dm_page m)) \<noteq> 0" using assms(4) by (auto simp: held_zero_iff)
  moreover have "held live b (cp_id (dm_page m)) \<le> 0"
    using live_okD [OF assms(1,2), of "cp_id (dm_page m)"] assms(3) by (simp add: bm_count_def)
  ultimately show False by simp
qed

lemma absent_branch:
  assumes "live_ok live cs" "map_of (cs_branches cs) b = None"
  shows "held live b p = 0"
  using assms unfolding held_zero_iff live_ok_def mapping_ok_def by (metis option.simps(3))

lemma mapping_ok_cong:
  assumes "mapping_ok cs m" "map_of (cs_branches cs') (dm_branch m) = map_of (cs_branches cs) (dm_branch m)"
    and "cs_pages cs' = cs_pages cs" "cs_id cs' = cs_id cs" "set (cs_known_pages cs) \<subseteq> set (cs_known_pages cs')"
  shows "mapping_ok cs' m"
  using assms by (auto simp: mapping_ok_def)

text \<open>The source of a fork: its dirty pages sealed, no page exclusive any more.\<close>

lemma inv_seal:
  assumes inv: "cache_inv live (cs, w)" and src: "map_of (cs_branches cs) src = Some br" "cb_active_pages br = []"
    and d: "ov_get d = ov_get (cb_dirty_pages br)" "ov_wf d"
    and cs': "cs' = cs\<lparr>cs_branches := bm_insert src (br\<lparr>cb_dirty_pages := d, cb_exclusive_pages := {}\<rparr>) (cs_branches cs)\<rparr>"
  shows "cache_inv live (cs', w)"
proof (rule cache_invI)
  note D = cache_invD [OF inv]
  let ?br = "br\<lparr>cb_dirty_pages := d, cb_exclusive_pages := {}\<rparr>"
  have br': "map_of (cs_branches cs') = (map_of (cs_branches cs))(src \<mapsto> ?br)" by (simp add: cs')
  have "\<exists>br0. map_of (cs_branches cs) e = Some br0 \<and> cb_store bre = cb_store br0 \<and>
      cb_exclusive_pages bre \<subseteq> cb_exclusive_pages br0" if "map_of (cs_branches cs') e = Some bre" for e bre
    using that src(1) by (cases "e = src") (auto simp: br')
  note same = same_stores [OF inv this]
  have f: "bm_wf (cs_branches cs')" "cs_pages cs' = cs_pages cs" "cs_next_branch cs' = cs_next_branch cs"
    using D(7) by (simp_all add: cs')
  show "pages_ok cs' w" "branches_ok cs' w" "keys_ok cs'" "exclusive_ok cs'"
    using same [OF _ f] by (simp_all only:)
  show "dirty_ok cs'" unfolding dirty_ok_def
  proof (intro allI impI)
    fix e bre k assume e: "map_of (cs_branches cs') e = Some bre"
    obtain br0 where br0: "map_of (cs_branches cs) e = Some br0" "sees bre k = sees br0 k"
      "ov_get (cb_dirty_pages bre) k = ov_get (cb_dirty_pages br0) k" "ov_wf (cb_dirty_pages bre) \<or> bre = br0"
      using e src(1) d by (cases "e = src") (auto simp: br' sees_def)
    show "ov_wf (cb_dirty_pages bre) \<and> (ov_get (cb_dirty_pages bre) k = Some True \<longrightarrow>
        k \<in> set (cs_known_pages cs') \<and> sees bre k \<noteq> None \<and> (\<forall>i. sees bre k = Some i \<longrightarrow> map_of (cs_pages cs') i \<noteq> None))"
      using dirty_okD(1) [OF D(5) br0(1)] dirty_okD(2-4) [OF D(5) br0(1), of k] br0(2-4) by (auto simp: cs')
  qed
  show "live_ok live cs'" unfolding live_ok_def
  proof (intro conjI ballI allI impI)
    fix m assume m: "m \<in> set live"
    have "dm_branch m \<noteq> src" by (rule idle_branch [OF D(6) src m])
    then show "mapping_ok cs' m" using m D(6) by (intro mapping_ok_cong [of cs m cs']) (auto simp: live_ok_def cs')
  next
    fix e bre p assume e: "map_of (cs_branches cs') e = Some bre"
    then obtain br0 where "map_of (cs_branches cs) e = Some br0" "cb_active_pages bre = cb_active_pages br0"
      using src(1) by (cases "e = src") (auto simp: br')
    then show "held live e p \<le> bm_count (cb_active_pages bre) p" using live_okD [OF D(6)] by simp
  qed
qed

text \<open>The child of a fork: it sees what its source sees.\<close>

definition child_of :: "('s, 'i) cache_state \<Rightarrow> cache_branch_id \<Rightarrow> cache_branch_id \<Rightarrow> 's cache_branch \<Rightarrow>
    's cache_branch \<Rightarrow> ('s, 'i) cache_state \<Rightarrow> bool" where
  "child_of cs src child br brc cs' \<longleftrightarrow>
     map_of (cs_branches cs) src = Some br \<and> cb_exclusive_pages br = {} \<and> child = CacheBranchId (cs_next_branch cs) \<and>
     ident (cb_store brc) = ident (cb_store br) \<and> cb_exclusive_pages brc = {} \<and> ov_wf (cb_dirty_pages brc) \<and>
     ov_get (cb_dirty_pages brc) = ov_get (cb_dirty_pages br) \<and>
     cs' = cs\<lparr>cs_next_branch := cs_next_branch cs + 1, cs_branches := bm_insert child brc (cs_branches cs)\<rparr>"

lemma child_view:
  assumes inv: "cache_inv live (cs, w)" and c: "child_of cs src child br brc cs'"
    and d: "map_of (cs_branches cs') d = Some brd"
  obtains e br0 where "map_of (cs_branches cs) e = Some br0" "ident (cb_store brd) = ident (cb_store br0)"
    "d = child \<and> e = src \<and> brd = brc \<and> br0 = br \<or> d \<noteq> child \<and> e = d \<and> br0 = brd"
    "cb_exclusive_pages brd = cb_exclusive_pages br0" "ov_get (cb_dirty_pages brd) = ov_get (cb_dirty_pages br0)"
  using assms that [of src br] that [of d brd] by (cases "d = child") (auto simp: child_of_def)

lemma child_fresh:
  assumes "cache_inv live (cs, w)" "child_of cs src child br brc cs'"
  shows "src \<noteq> child" "map_of (cs_branches cs) child = None"
  using branches_okD(1) [OF cache_invD(2) [OF assms(1)], of child]
    branches_okD(1) [OF cache_invD(2) [OF assms(1)], of src br] assms(2)
  by (cases "map_of (cs_branches cs) child"; auto simp: child_of_def)+

lemma child_branches:
  assumes inv: "cache_inv live (cs, w)" and c: "child_of cs src child br brc cs'"
    and own: "owned (cb_store brc) \<subseteq> {..<w_next_inode w}"
      "\<And>i p. map_of (cs_pages cs) i = Some p \<Longrightarrow> cp_backing p \<notin> owned (cb_store brc)"
  shows "branches_ok cs' w"
  unfolding branches_ok_def
proof (intro conjI allI impI)
  note D = cache_invD [OF inv]
  show "bm_wf (cs_branches cs')" using D(7) c by (simp add: child_of_def)
  fix d brd assume d: "map_of (cs_branches cs') d = Some brd"
  obtain e br0 where e: "map_of (cs_branches cs) e = Some br0" "ident (cb_store brd) = ident (cb_store br0)"
    "d = child \<and> e = src \<and> brd = brc \<and> br0 = br \<or> d \<noteq> child \<and> e = d \<and> br0 = brd" by (rule child_view [OF inv c d])
  note B = branches_okD [OF D(2) e(1)]
  show "cb_raw d < cs_next_branch cs'" using B(1) e(3) c by (auto simp: child_of_def)
  show "i \<in> issued (next_file_object_id w) (next_page_version w)" if "ident (cb_store brd) n p = Some i" for n p i
    using B(3) that e(2) by simp
  show "owned (cb_store brd) \<subseteq> {..<w_next_inode w}" using e(3) B(2) own(1) by auto
  show "cp_backing p \<notin> owned (cb_store brd)" if "map_of (cs_pages cs') i = Some p" for i p
    using e(3) B(4) [of i p] own(2) [of i p] that c by (auto simp: child_of_def)
qed

lemma child_keys:
  assumes inv: "cache_inv live (cs, w)" and c: "child_of cs src child br brc cs'"
  shows "keys_ok cs'" "exclusive_ok cs'"
proof -
  note D = cache_invD [OF inv]
  show "keys_ok cs'" unfolding keys_ok_def
  proof (intro allI impI)
    fix d brd d' brd' n p n' p' i
    assume a: "map_of (cs_branches cs') d = Some brd" "map_of (cs_branches cs') d' = Some brd'"
      "ident (cb_store brd) n p = Some i" "ident (cb_store brd') n' p' = Some i"
    obtain e br0 where e: "map_of (cs_branches cs) e = Some br0" "ident (cb_store brd) = ident (cb_store br0)"
      by (rule child_view [OF inv c a(1)])
    obtain e' br1 where e': "map_of (cs_branches cs) e' = Some br1" "ident (cb_store brd') = ident (cb_store br1)"
      by (rule child_view [OF inv c a(2)])
    show "n = n' \<and> p = p'" using keys_okD [OF D(3) e(1) e'(1)] a(3,4) e(2) e'(2) by simp
  qed
  show "exclusive_ok cs'" unfolding exclusive_ok_def
  proof (intro allI impI)
    fix d brd k i d' brd'
    assume a: "map_of (cs_branches cs') d = Some brd" "k \<in> cb_exclusive_pages brd" "sees brd k = Some i"
      "d' \<noteq> d" "map_of (cs_branches cs') d' = Some brd'"
    obtain e br0 where e: "map_of (cs_branches cs) e = Some br0" "ident (cb_store brd) = ident (cb_store br0)"
      "d = child \<and> e = src \<and> brd = brc \<and> br0 = br \<or> d \<noteq> child \<and> e = d \<and> br0 = brd"
      "cb_exclusive_pages brd = cb_exclusive_pages br0" by (rule child_view [OF inv c a(1)])
    obtain e' br1 where e': "map_of (cs_branches cs) e' = Some br1" "ident (cb_store brd') = ident (cb_store br1)"
      "d' = child \<and> e' = src \<and> brd' = brc \<and> br1 = br \<or> d' \<noteq> child \<and> e' = d' \<and> br1 = brd'"
      by (rule child_view [OF inv c a(5)])
    have empty: "cb_exclusive_pages br = {}" "cb_exclusive_pages brc = {}" "map_of (cs_branches cs) src = Some br"
      using c by (simp_all add: child_of_def)
    have "e' \<noteq> e" "k \<in> cb_exclusive_pages br0" "sees br0 k = Some i"
      using a(2-4) e e'(1,3) empty by (auto simp: sees_def)
    from exclusive_okD [OF D(4) e(1) this(2,3,1) e'(1)] show "sees brd' k \<noteq> Some i" using e'(2) by (simp add: sees_def)
  qed
qed

lemma inv_child:
  assumes inv: "cache_inv live (cs, w)" and c: "child_of cs src child br brc cs'"
    and own: "owned (cb_store brc) \<subseteq> {..<w_next_inode w}"
      "\<And>i p. map_of (cs_pages cs) i = Some p \<Longrightarrow> cp_backing p \<notin> owned (cb_store brc)"
  shows "cache_inv live (cs', w)"
proof (rule cache_invI [OF _ child_branches [OF inv c own] child_keys [OF inv c]])
  note D = cache_invD [OF inv] and fresh = child_fresh [OF inv c]
  have cs': "cs_pages cs' = cs_pages cs" "cs_known_pages cs' = cs_known_pages cs" "cs_id cs' = cs_id cs"
    using c by (simp_all add: child_of_def)
  show "pages_ok cs' w" using D(1) by (simp add: pages_ok_def cs')
  show "dirty_ok cs'" unfolding dirty_ok_def
  proof (intro allI impI)
    fix d brd k assume d: "map_of (cs_branches cs') d = Some brd"
    obtain e br0 where e: "map_of (cs_branches cs) e = Some br0" "ident (cb_store brd) = ident (cb_store br0)"
      "d = child \<and> e = src \<and> brd = brc \<and> br0 = br \<or> d \<noteq> child \<and> e = d \<and> br0 = brd"
      "ov_get (cb_dirty_pages brd) = ov_get (cb_dirty_pages br0)" by (rule child_view [OF inv c d])
    have "sees brd k = sees br0 k" using e(2) by (simp add: sees_def)
    moreover have "ov_wf (cb_dirty_pages brd)" using e(3) c dirty_okD(1) [OF D(5) e(1)] by (auto simp: child_of_def)
    ultimately show "ov_wf (cb_dirty_pages brd) \<and> (ov_get (cb_dirty_pages brd) k = Some True \<longrightarrow>
        k \<in> set (cs_known_pages cs') \<and> sees brd k \<noteq> None \<and> (\<forall>i. sees brd k = Some i \<longrightarrow> map_of (cs_pages cs') i \<noteq> None))"
      using dirty_okD(2-4) [OF D(5) e(1), of k] e(4) by (simp add: cs')
  qed
  show "live_ok live cs'" unfolding live_ok_def
  proof (intro conjI ballI allI impI)
    fix m assume m: "m \<in> set live"
    have "dm_branch m \<noteq> child" using m absent_branch [OF D(6) fresh(2)] by (auto simp: held_zero_iff)
    then show "mapping_ok cs' m"
      using m D(6) c by (intro mapping_ok_cong [of cs m cs']) (auto simp: live_ok_def child_of_def)
  next
    fix d brd p assume "map_of (cs_branches cs') d = Some brd"
    then show "held live d p \<le> bm_count (cb_active_pages brd) p"
      using absent_branch [OF D(6) fresh(2)] live_okD [OF D(6), of d brd p] c
      by (cases "d = child") (auto simp: child_of_def)
  qed
qed

text \<open>
  A fork keeps the invariant on every outcome. When it succeeds, the child sees every page as the
  source does, and no version that anybody sees has changed.
\<close>

lemma cache_fork_inv:
  assumes inv: "cache_inv live (cs, w)" and call: "cache_fork st src (cs, w) = (r, (cs', w'))"
  shows "cache_inv live (cs', w') \<and> cs_id cs' = cs_id cs \<and> next_cache_page_id w' = next_cache_page_id w \<and>
    next_page_version w' = next_page_version w \<and> cs_pages cs' = cs_pages cs \<and>
    (\<forall>child. r = Inr child \<longrightarrow> (\<exists>br br1 brc. map_of (cs_branches cs) src = Some br \<and> cb_active_pages br = [] \<and>
       child \<noteq> src \<and> map_of (cs_branches cs) child = None \<and>
       map_of (cs_branches cs') src = Some br1 \<and> map_of (cs_branches cs') child = Some brc \<and>
       sees br1 = sees br \<and> sees brc = sees br))"
proof (cases "map_of (cs_branches cs) src")
  case None
  then show ?thesis using call inv by (auto simp: cache_fork_def mbind_apply)
next
  case (Some br)
  show ?thesis
  proof (cases "cb_active_pages br = []")
    case False
    then show ?thesis using call inv Some by (auto simp: cache_fork_def mbind_apply)
  next
    case idle: True
    obtain r1 s1 w1 where fs: "fs_fork_store st (cb_store br, w) = (r1, (s1, w1))" by (metis prod.exhaust)
    define cs1 where "cs1 = cs\<lparr>cs_branches := bm_insert src (br\<lparr>cb_store := s1\<rparr>) (cs_branches cs)\<rparr>"
    have os: "on_store src (fs_fork_store st) (cs, w) = (map_sum Io id r1, (cs1, w1))"
      using Some fs by (simp add: on_store.simps cs1_def)
    note Q = on_store_quiet [OF inv quiet_fork os]
    note law = fork_law [OF fs]
    have ver: "next_page_version w1 = next_page_version w" using law by blast
    have src1: "map_of (cs_branches cs1) src = Some (br\<lparr>cb_store := s1\<rparr>)" by (simp add: cs1_def)
    have id1: "cs_id cs1 = cs_id cs" by (simp add: cs1_def)
    show ?thesis
    proof (cases r1)
      case (Inl e)
      then have "cs' = cs1" "w' = w1" "r = Inl (Io e)" using call Some idle os by (simp_all add: cache_fork_def mbind_apply)
      then show ?thesis using Q ver id1 by simp
    next
      case (Inr c)
      have c: "ident c = ident s1" "owned c \<subseteq> {w_next_inode w..<w_next_inode w1}" "ident s1 = ident (cb_store br)"
        using law Inr by auto
      define child where "child = CacheBranchId (cs_next_branch cs)"
      let ?br = "br\<lparr>cb_store := s1\<rparr>"
      let ?sealed = "?br\<lparr>cb_dirty_pages := fst (dirty_fork (cb_dirty_pages br)), cb_exclusive_pages := {}\<rparr>"
      define cs2 where "cs2 = cs1\<lparr>cs_branches := bm_insert src ?sealed (cs_branches cs1)\<rparr>"
      have below: "cp_backing p \<notin> owned c" if "map_of (cs_pages cs1) i = Some p" for i p
        using pages_okD(3) [OF cache_invD(1) [OF inv], of i p] that c(2) by (auto simp: cs1_def)
      have own: "owned c \<subseteq> {..<w_next_inode w1}" using c(2) by auto
      define cs3 where "cs3 = cs2\<lparr>cs_next_branch := cs_next_branch cs + 1,
        cs_branches := bm_insert child (fresh_branch c (snd (dirty_fork (cb_dirty_pages br)))) (cs_branches cs2)\<rparr>"
      have inv2: "cache_inv live (cs2, w1)"
        using idle dirty_okD(1) [OF cache_invD(5) [OF inv] Some]
        by (intro inv_seal [OF Q(1) src1 _ _ _ cs2_def]) (simp_all add: dirty_fork_def)
      have "child_of cs2 src child ?sealed (fresh_branch c (snd (dirty_fork (cb_dirty_pages br)))) cs3"
        using c(1) dirty_okD(1) [OF cache_invD(5) [OF inv] Some]
        by (simp add: child_of_def cs3_def cs2_def cs1_def child_def fresh_branch_def dirty_fork_def)
      then have inv3: "cache_inv live (cs3, w1)"
        by (rule inv_child [OF inv2]) (use own below in \<open>simp_all add: fresh_branch_def cs2_def\<close>)
      have run: "cache_fork st src (cs, w) = (if cs_next_branch cs + 1 < u64_bound then (Inr child, (cs3, w1))
          else (Inl (InvalidMapping ''cache branch identity overflow''), (cs2, w1)))"
        using Some idle os Inr src1
        by (simp add: cache_fork_def mbind_apply put_branch_def split_beta Let_def checked_add_def cs3_def cs2_def child_def cs1_def)
      have "child \<noteq> src" "map_of (cs_branches cs) child = None"
        using branches_okD(1) [OF cache_invD(2) [OF inv], of src br]
          branches_okD(1) [OF cache_invD(2) [OF inv], of child] Some
        by (auto simp: child_def) (metis cache_branch_id.sel less_irrefl not_Some_eq)
      then show ?thesis
        using call run inv2 inv3 Q(3,4) ver Some idle c by (auto simp: cs3_def cs2_def cs1_def fresh_branch_def sees_def fun_eq_iff split: if_splits)
    qed
  qed
qed

end

context forkable_store
begin

section \<open>Removing a branch\<close>

lemma inv_remove:
  assumes inv: "cache_inv live (cs, w)" and b: "map_of (cs_branches cs) b = Some br" "cb_active_pages br = []"
    and vis: "vis = {i. \<exists>key \<in> set (cs_known_pages cs). \<exists>d brd. d \<noteq> b \<and> map_of (cs_branches cs) d = Some brd \<and> sees brd key = Some i}"
    and cs': "cs' = cs\<lparr>cs_branches := bm_remove b (cs_branches cs), cs_pages := bm_retain (\<lambda>i. i \<in> vis) (cs_pages cs)\<rparr>"
  shows "cache_inv live (cs', w)"
proof (rule cache_invI)
  note D = cache_invD [OF inv]
  have br': "d \<noteq> b \<and> map_of (cs_branches cs) d = Some brd" if "map_of (cs_branches cs') d = Some brd" for d brd
    using that by (simp add: cs' split: if_splits)
  have pg': "map_of (cs_pages cs) i = Some p" if "map_of (cs_pages cs') i = Some p" for i p
    using that by (simp add: cs' split: if_splits)
  show "pages_ok cs' w" unfolding pages_ok_def
  proof (intro conjI allI impI)
    show "bm_wf (cs_pages cs')" using D(8) by (simp add: cs')
    show "i \<in> issued (next_file_object_id w) (next_page_version w)" "cp_id p < next_cache_page_id w" "cp_backing p < w_next_inode w"
      if "map_of (cs_pages cs') i = Some p" for i p using pages_okD(1-3) [OF D(1) pg' [OF that]] .
    show "i = j" if "map_of (cs_pages cs') i = Some p" "map_of (cs_pages cs') j = Some q"
      "cp_id p = cp_id q \<or> cp_backing p = cp_backing q" for i j p q
      using pages_okD(4,5) [OF D(1) pg' [OF that(1)] pg' [OF that(2)]] that(3) by blast
  qed
  show "branches_ok cs' w" unfolding branches_ok_def
  proof (intro conjI allI impI)
    show "bm_wf (cs_branches cs')" using D(7) by (simp add: cs')
    fix d brd assume "map_of (cs_branches cs') d = Some brd"
    note B = branches_okD [OF D(2) conjunct2 [OF br' [OF this]]]
    show "cb_raw d < cs_next_branch cs'" "owned (cb_store brd) \<subseteq> {..<w_next_inode w}" using B(1,2) by (simp_all add: cs')
    show "i \<in> issued (next_file_object_id w) (next_page_version w)" if "ident (cb_store brd) n p = Some i" for n p i using B(3) [OF that] .
    show "cp_backing p \<notin> owned (cb_store brd)" if "map_of (cs_pages cs') i = Some p" for i p
      using B(4) [OF pg' [OF that]] .
  qed
  show "keys_ok cs'" unfolding keys_ok_def
    using keys_okD [OF D(3) conjunct2 [OF br'] conjunct2 [OF br']] by (intro allI impI) blast
  show "exclusive_ok cs'" unfolding exclusive_ok_def
    using exclusive_okD [OF D(4) conjunct2 [OF br'] _ _ _ conjunct2 [OF br']] by (intro allI impI) blast
  have stays: "map_of (cs_pages cs') i = Some p"
    if "map_of (cs_pages cs) i = Some p" "key \<in> set (cs_known_pages cs)" "d \<noteq> b" "map_of (cs_branches cs) d = Some brd"
      "sees brd key = Some i" for i p key d brd
    using that by (auto simp: cs' vis)
  show "dirty_ok cs'" unfolding dirty_ok_def
  proof (intro allI impI)
    fix d brd k assume "map_of (cs_branches cs') d = Some brd"
    then have d: "d \<noteq> b" "map_of (cs_branches cs) d = Some brd" using br' by auto
    note K = dirty_okD(2-4) [OF D(5) d(2), of k]
    have "map_of (cs_pages cs') i \<noteq> None" if "ov_get (cb_dirty_pages brd) k = Some True" "sees brd k = Some i" for i
      using K(2) [OF that] stays [OF _ K(1) [OF that(1)] d that(2)] by auto
    then show "ov_wf (cb_dirty_pages brd) \<and> (ov_get (cb_dirty_pages brd) k = Some True \<longrightarrow>
        k \<in> set (cs_known_pages cs') \<and> sees brd k \<noteq> None \<and> (\<forall>i. sees brd k = Some i \<longrightarrow> map_of (cs_pages cs') i \<noteq> None))"
      using dirty_okD(1) [OF D(5) d(2)] K(1,3) by (simp add: cs')
  qed
  show "live_ok live cs'" unfolding live_ok_def
  proof (intro conjI ballI allI impI)
    fix m assume m: "m \<in> set live"
    then have "mapping_ok cs m" using D(6) by (simp add: live_ok_def)
    then obtain br0 i where m': "dm_cache_id m = cs_id cs" "dm_key m \<in> set (cs_known_pages cs)"
      "map_of (cs_branches cs) (dm_branch m) = Some br0" "sees br0 (dm_key m) = Some i"
      "map_of (cs_pages cs) i = Some (dm_page m)"
      "flags_contain (dm_flags m) WRITE \<longrightarrow> dm_key m \<in> cb_exclusive_pages br0" by (rule mapping_okE)
    have "dm_branch m \<noteq> b" by (rule idle_branch [OF D(6) b m])
    then show "mapping_ok cs' m"
      using m' stays [OF m'(5,2) _ m'(3,4)] by (intro mapping_okI [of m cs' br0 i]) (simp_all add: cs')
  next
    fix d brd p assume "map_of (cs_branches cs') d = Some brd"
    then show "held live d p \<le> bm_count (cb_active_pages brd) p" using live_okD [OF D(6) conjunct2 [OF br']] by blast
  qed
qed

lemma remove_branch_inv:
  assumes inv: "cache_inv live (cs, w)" and call: "remove_branch st b (cs, w) = (r, (cs', w'))"
  shows "cache_inv live (cs', w') \<and> w' = w \<and> cs_id cs' = cs_id cs \<and>
    (r = Inr () \<longrightarrow> map_of (cs_branches cs') = (map_of (cs_branches cs))(b := None))"
proof (cases "\<exists>br. map_of (cs_branches cs) b = Some br \<and> cb_active_pages br = []")
  case False
  then show ?thesis
    using call inv by (cases "map_of (cs_branches cs) b") (auto simp: remove_branch_def mbind_apply)
next
  case True
  then obtain br where br: "map_of (cs_branches cs) b = Some br" "cb_active_pages br = []" by blast
  let ?cs = "cs\<lparr>cs_branches := bm_remove b (cs_branches cs)\<rparr>"
  let ?vis = "{i. \<exists>key \<in> set (cs_known_pages cs). \<exists>d brd. d \<noteq> b \<and> map_of (cs_branches cs) d = Some brd \<and> sees brd key = Some i}"
  have "bm_wf (cs_branches ?cs)" using cache_invD(7) [OF inv] by simp
  from visible_identities_call [OF this, of "cs_known_pages cs" "{}" w]
  have "visible_identities st (cs_known_pages cs) {} (?cs, w) = (Inr ?vis, (?cs, w))"
    by (auto simp: fun_upd_apply)
  then have "r = Inr ()" "w' = w" and cs': "cs' = cs\<lparr>cs_branches := bm_remove b (cs_branches cs),
      cs_pages := bm_retain (\<lambda>i. i \<in> ?vis) (cs_pages cs)\<rparr>"
    using call br by (simp_all add: remove_branch_def mbind_apply)
  then show ?thesis using inv_remove [OF inv br refl cs'] by simp
qed

end

section \<open>Methods that hand out no identities\<close>

context forkable_store
begin

text \<open>The invariant together with the values that such methods leave alone.\<close>

definition steady :: "dax_page_mapping list \<Rightarrow> nat \<Rightarrow> nat \<Rightarrow> nat \<Rightarrow> ('s, 'i) cache_state \<times> world \<Rightarrow> bool" where
  "steady live cid n v = (\<lambda>(cs, w). cache_inv live (cs, w) \<and> cs_id cs = cid \<and>
     next_cache_page_id w = n \<and> next_page_version w = v)"

lemma steadyI: "cache_inv live (cs, w) \<Longrightarrow> steady live (cs_id cs) (next_cache_page_id w) (next_page_version w) (cs, w)"
  by (simp add: steady_def)

lemma keeps_branch_mut [keeps_intros]: "keeps P (branch_mut b)"
  by (auto simp: keeps_def split: option.splits)

lemma keeps_on_store [keeps_intros]:
  assumes "quiet m" shows "keeps (steady live cid n v) (on_store b m)"
proof (rule keeps_pairI)
  fix cs w r cs' w' assume st: "steady live cid n v (cs, w)" and call: "on_store b m (cs, w) = (r, (cs', w'))"
  then have "cache_inv live (cs, w)" by (simp add: steady_def)
  from on_store_quiet [OF this assms call] st show "steady live cid n v (cs', w')" by (simp add: steady_def kept_def)
qed

lemma keeps_update:
  assumes "\<And>br. cb_store (f br) = cb_store br" "\<And>br. cb_exclusive_pages (f br) = cb_exclusive_pages br"
    "\<And>br. cb_active_pages (f br) = cb_active_pages br"
    "\<And>br. ov_wf (cb_dirty_pages br) \<Longrightarrow> ov_wf (cb_dirty_pages (f br))"
    "\<And>br k. ov_get (cb_dirty_pages (f br)) k = Some True \<Longrightarrow> ov_get (cb_dirty_pages br) k = Some True"
  shows "keeps (steady live cid n v) (update_branch b f)"
proof (rule keeps_pairI)
  fix cs w r cs' w' assume st: "steady live cid n v (cs, w)" and call: "update_branch b f (cs, w) = (r, (cs', w'))"
  have inv: "cache_inv live (cs, w)" using st by (simp add: steady_def)
  show "steady live cid n v (cs', w')"
  proof (cases "map_of (cs_branches cs) b")
    case None
    then show ?thesis using st call by (simp add: update_branch_def mbind_apply)
  next
    case (Some br)
    note D = cache_invD [OF inv]
    have "cache_inv live (cs\<lparr>cs_branches := bm_insert b (f br) (cs_branches cs)\<rparr>, w)"
    proof (rule inv_update_branch [OF inv Some assms(1,2) assms(4) [OF dirty_okD(1) [OF D(5) Some]]])
      show "held live b p \<le> bm_count (cb_active_pages (f br)) p" for p
        using live_okD [OF D(6) Some] by (simp add: assms(3))
    qed (use assms(5) in auto)
    then show ?thesis using st call Some by (auto simp: update_branch_def put_branch_def mbind_apply steady_def)
  qed
qed

lemma keeps_open_nodes [keeps_intros]:
  "keeps (steady live cid n v) (update_branch b (\<lambda>br. br\<lparr>cb_open_nodes := f br\<rparr>))"
  by (rule keeps_update) simp_all

lemma keeps_mark_clean [keeps_intros]:
  "keeps (steady live cid n v) (update_branch b (\<lambda>br. br\<lparr>cb_dirty_pages := mark_clean key (cb_dirty_pages br)\<rparr>))"
  by (rule keeps_update) (simp_all add: mark_clean_def split: if_splits)

lemma keeps_on_world:
  assumes "\<And>w r w'. m w = (r, w') \<Longrightarrow> world_grows w w' \<and> next_cache_page_id w' = next_cache_page_id w"
  shows "keeps (steady live cid n v) (on_world m)"
proof (rule keeps_pairI)
  fix cs w r cs' w' assume st: "steady live cid n v (cs, w)" and call: "on_world m (cs, w) = (r, (cs', w'))"
  obtain r0 w0 where m: "m w = (r0, w0)" by (metis prod.exhaust)
  then have "cs' = cs" "w' = w0" using call by (simp_all add: on_world_apply)
  moreover have "cache_inv live (cs, w)" using st by (simp add: steady_def)
  from inv_world [OF this conjunct1 [OF assms [OF m]]] have "cache_inv live (cs, w0)" .
  ultimately show "steady live cid n v (cs', w')"
    using st assms [OF m] by (simp add: steady_def world_grows_def)
qed

lemma same_grows: "same_but_tick w w' \<Longrightarrow> world_grows w w' \<and> next_cache_page_id w' = next_cache_page_id w"
  by (auto simp: world_grows_def dest: same_but_tickD)

lemma keeps_read_exact [keeps_intros]:
  "keeps (steady live cid n v) (on_world (read_exact_at h len off))"
  "keeps (steady live cid n v) (on_world (std_read_exact_at h len off))"
  by (rule keeps_on_world, rule same_grows, simp add: transfer_defs, drule read_full_sound, simp)+

lemma quiet_identity: "quiet (fs_page_identity st node off)"
  by (rule quietI) (simp add: page_identity_law)

lemmas quiet_calls = quiet_laws quiet_identity quiet_fork

lemma keeps_cache_open: "keeps (steady live cid n v) (cache_open st b node)"
  unfolding cache_open_def Let_def by (intro keeps_intros quiet_calls)

lemma keeps_cache_close: "keeps (steady live cid n v) (cache_close st b node)"
  unfolding cache_close_def by (intro keeps_intros quiet_calls)

lemma keeps_sync_pages: "keeps (steady live cid n v) (sync_pages st b keys)"
proof (induction keys)
  case (Cons key keys)
  then show ?case unfolding sync_pages.simps Let_def by (intro keeps_intros quiet_calls)
qed (simp add: keeps_intros)

lemma keeps_cache_sync:
  "keeps (steady live cid n v) (cache_sync st b node)" "keeps (steady live cid n v) (cache_sync_all st b)"
  unfolding cache_sync_def cache_sync_all_def by (intro keeps_intros keeps_sync_pages)+

lemma keeps_pages_in_branch: "keeps (steady live cid n v) (pages_in_branch st b keys found)"
  by (induction keys arbitrary: found) (auto intro!: keeps_intros quiet_calls)

lemma keeps_count_references: "keeps (steady live cid n v) (count_references st bs refs)"
  by (induction bs arbitrary: refs) (auto intro!: keeps_intros keeps_pages_in_branch)

lemma keeps_page_accounting: "keeps (steady live cid n v) (cache_page_accounting st bs)"
  unfolding cache_page_accounting_def by (intro keeps_intros keeps_count_references)

lemma keeps_cache_fork: "keeps (steady live cid n v) (cache_fork st src)"
  by (rule keeps_pairI) (auto simp: steady_def dest: cache_fork_inv)

lemma keeps_remove_branch: "keeps (steady live cid n v) (remove_branch st b)"
  by (rule keeps_pairI) (auto simp: steady_def dest: remove_branch_inv)

end

end
