(* ===== verification/CacheSteps.thy ===== *)
theory CacheSteps
  imports CacheInvariant
begin

text \<open>
  The shared cache in use: a step relation of all its methods together with the stores that guests
  make through write mappings, and what holds in every reachable state. Dirty pages can always be
  written back, a page that one branch writes is seen by no other, and held mappings can always be
  released.
\<close>

section \<open>Dirty pages\<close>

lemma set_dirty_pages: "ov_wf d \<Longrightarrow> set (dirty_pages d) = {k. ov_get d k = Some True}"
proof -
  assume wf: "ov_wf d"
  have v: "bm_wf (ov_visible d)" "map_of (ov_visible d) = ov_get d" using wf by (simp_all add: bm_wf_ov_visible map_of_ov_visible)
  have "set (dirty_pages d) = {k. (k, True) \<in> set (ov_visible d)}"
    by (force simp: dirty_pages_def ov_visible_def image_iff)
  then show ?thesis using v by (simp add: bm_wf_entries)
qed

lemma map_of_filter_key:
  "map_of (filter (\<lambda>e. P (fst e)) m) = (\<lambda>k. if P k then map_of m k else None)"
  by (induction m) (auto simp: fun_eq_iff)

lemma map_of_dirty_collect_node:
  "map_of (dirty_collect_node node g acc) =
    (\<lambda>k. case map_of acc k of Some v \<Rightarrow> Some v | None \<Rightarrow> if fst k = node then gen_get g k else None)"
proof (induction node g acc rule: dirty_collect_node.induct)
  case (1 node par changes acc)
  then show ?case
    by (cases par) (auto simp: Let_def fun_eq_iff map_add_def map_of_filter_key [where P = "\<lambda>k. fst k = node"] split: option.splits)
qed

lemma bm_wf_dirty_collect_node: "bm_wf acc \<Longrightarrow> bm_wf (dirty_collect_node node g acc)"
proof (induction node g acc rule: dirty_collect_node.induct)
  case (1 node par changes acc)
  then show ?case by (cases par) (simp_all add: Let_def)
qed

lemma sorted_list_filter_eq:
  assumes "bm_wf m" "bm_wf m'" "map_of m' = (\<lambda>k. if P k then map_of m k else None)"
  shows "m' = filter (\<lambda>e. P (fst e)) m"
  by (rule bm_wf_ext) (simp_all add: assms bm_wf_filter map_of_filter_key)

text \<open>The walk restricted to one node gives the dirty pages of that node, in the same order.\<close>

lemma dirty_pages_for_node_filter:
  assumes "ov_wf d"
  shows "dirty_pages_for_node d node = filter (\<lambda>k. fst k = node) (dirty_pages d)"
proof -
  let ?acc = "bm_extend [] (filter (\<lambda>e. fst (fst e) = node) (ov_writes d))"
  have wf: "bm_wf (ov_writes d)" using assms by (simp add: ov_wf_def)
  then have acc: "map_of ?acc = (\<lambda>k. if fst k = node then map_of (ov_writes d) k else None)" "bm_wf ?acc"
    by (simp_all add: map_of_bm_extend_wf bm_wf_filter map_of_filter_key [where P = "\<lambda>k. fst k = node"])
  have "dirty_collect_node node (ov_base d) ?acc = filter (\<lambda>e. fst (fst e) = node) (ov_visible d)"
    using assms acc
    by (intro sorted_list_filter_eq [where P = "\<lambda>k. fst k = node"])
      (auto simp: bm_wf_ov_visible bm_wf_dirty_collect_node map_of_dirty_collect_node map_of_ov_visible ov_get_def
        fun_eq_iff split: option.splits)
  then show ?thesis
    by (simp add: dirty_pages_for_node_def dirty_pages_def ov_visible_def filter_map comp_def conj_commute)
qed

context forkable_store
begin

text \<open>The version that the branch sees of the page is cached.\<close>

definition resident :: "('s, 'i) cache_state \<Rightarrow> cache_branch_id \<Rightarrow> page_key \<Rightarrow> bool" where
  "resident cs b key \<longleftrightarrow> (\<forall>br i. map_of (cs_branches cs) b = Some br \<longrightarrow> sees br key = Some i \<longrightarrow>
     map_of (cs_pages cs) i \<noteq> None)"

lemma resident_store:
  assumes inv: "cache_inv live (cs, w)" and "quiet m" "on_store b m (cs, w) = (r, (cs', w'))" "resident cs b key"
  shows "resident cs' b key"
  unfolding resident_def
proof (intro allI impI)
  fix br' i assume br': "map_of (cs_branches cs') b = Some br'" "sees br' key = Some i"
  note Q = on_store_quiet [OF assms(1-3)]
  have "rel_option alike (map_of (cs_branches cs) b) (Some br')" using Q(2) br'(1) by (metis kept_def)
  then obtain br where br: "map_of (cs_branches cs) b = Some br" "alike br br'"
    by (cases "map_of (cs_branches cs) b") auto
  have "sees br key = Some i" using alike_sees [OF br(2)] br'(2) by simp
  then show "map_of (cs_pages cs') i \<noteq> None" using assms(4) br(1) Q(3) by (simp add: resident_def)
qed

lemma resident_clean:
  assumes "resident cs b key"
    "update_branch b (\<lambda>br. br\<lparr>cb_dirty_pages := f br\<rparr>) (cs, w) = (r, (cs', w'))"
  shows "resident cs' b key"
  using assms by (cases "map_of (cs_branches cs) b")
    (auto simp: update_branch_def put_branch_def mbind_apply resident_def sees_def)

end

context forkable_store
begin

section \<open>Writing back never finds a page missing\<close>

text \<open>Methods that never report a stale mapping and keep the pages \<open>K\<close> of branch \<open>b\<close> cached.\<close>

definition never_stale :: "dax_page_mapping list \<Rightarrow> cache_branch_id \<Rightarrow> page_key set \<Rightarrow> ('s, 'i, 'a) cache_meth \<Rightarrow> bool" where
  "never_stale live b K m \<longleftrightarrow> (\<forall>cs w r cs' w'. cache_inv live (cs, w) \<longrightarrow> (\<forall>k \<in> K. resident cs b k) \<longrightarrow>
     m (cs, w) = (r, (cs', w')) \<longrightarrow> r \<noteq> Inl StaleMapping \<and> cache_inv live (cs', w') \<and> (\<forall>k \<in> K. resident cs' b k))"

lemma never_staleI:
  assumes "\<And>cs w r cs' w'. cache_inv live (cs, w) \<Longrightarrow> \<forall>k \<in> K. resident cs b k \<Longrightarrow> m (cs, w) = (r, (cs', w')) \<Longrightarrow>
    r \<noteq> Inl StaleMapping \<and> cache_inv live (cs', w') \<and> (\<forall>k \<in> K. resident cs' b k)"
  shows "never_stale live b K m"
  unfolding never_stale_def by (intro allI impI) (rule assms)

lemma never_staleD:
  assumes "never_stale live b K m" "cache_inv live (cs, w)" "\<forall>k \<in> K. resident cs b k" "m (cs, w) = (r, (cs', w'))"
  shows "r \<noteq> Inl StaleMapping" "cache_inv live (cs', w')" "\<forall>k \<in> K. resident cs' b k"
proof -
  have "r \<noteq> Inl StaleMapping \<and> cache_inv live (cs', w') \<and> (\<forall>k \<in> K. resident cs' b k)"
    by (rule assms(1) [unfolded never_stale_def, rule_format, OF assms(2) _ assms(4)]) (use assms(3) in blast)
  then show "r \<noteq> Inl StaleMapping" "cache_inv live (cs', w')" "\<forall>k \<in> K. resident cs' b k" by blast+
qed

lemma never_stale_bind:
  assumes "never_stale live b K m" "\<And>a. never_stale live b K (f a)"
  shows "never_stale live b K (mbind m f)"
proof (rule never_staleI)
  fix cs w r cs' w'
  assume a: "cache_inv live (cs, w)" "\<forall>k \<in> K. resident cs b k" "mbind m f (cs, w) = (r, (cs', w'))"
  obtain r1 cs1 w1 where m: "m (cs, w) = (r1, (cs1, w1))" by (metis prod.exhaust)
  note M = never_staleD [OF assms(1) a(1,2) m]
  show "r \<noteq> Inl StaleMapping \<and> cache_inv live (cs', w') \<and> (\<forall>k \<in> K. resident cs' b k)"
  proof (cases r1)
    case (Inl e)
    then show ?thesis using M m a(3) by (auto simp: mbind_apply)
  next
    case (Inr x)
    then have "f x (cs1, w1) = (r, (cs', w'))" using m a(3) by (simp add: mbind_apply)
    from never_staleD [OF assms(2) M(2,3) this] show ?thesis by blast
  qed
qed

lemma never_stale_simple:
  "never_stale live b K (ok x)" "e \<noteq> StaleMapping \<Longrightarrow> never_stale live b K (raise e)" "never_stale live b K (gets g)"
  "never_stale live b K (branch_mut c)"
  by (rule never_staleI; auto split: option.splits)+

lemma never_stale_store: "quiet m \<Longrightarrow> never_stale live b K (on_store b m)"
proof (rule never_staleI)
  fix cs w r cs' w'
  assume q: "quiet m" and a: "cache_inv live (cs, w)" "\<forall>k \<in> K. resident cs b k" "on_store b m (cs, w) = (r, (cs', w'))"
  have "r \<noteq> Inl StaleMapping"
    using a(3) by (auto simp: on_store.simps map_sum_def split: option.splits prod.splits sum.splits)
  moreover have "\<forall>k \<in> K. resident cs' b k" using resident_store [OF a(1) q a(3)] a(2) by blast
  ultimately show "r \<noteq> Inl StaleMapping \<and> cache_inv live (cs', w') \<and> (\<forall>k \<in> K. resident cs' b k)"
    using on_store_quiet(1) [OF a(1) q a(3)] by blast
qed

lemma never_stale_clean:
  "never_stale live b K (update_branch b (\<lambda>br. br\<lparr>cb_dirty_pages := mark_clean key (cb_dirty_pages br)\<rparr>))"
  (is "never_stale live b K ?m")
proof (rule never_staleI)
  fix cs w r cs' w'
  assume a: "cache_inv live (cs, w)" "\<forall>k \<in> K. resident cs b k" "?m (cs, w) = (r, (cs', w'))"
  have "cache_inv live (cs', w')"
    using keepsD [OF keeps_mark_clean a(3) steadyI [OF a(1)]] by (simp add: steady_def)
  moreover have "r \<noteq> Inl StaleMapping"
    using a(3) by (auto simp: update_branch_def put_branch_def mbind_apply split: option.splits)
  ultimately show "r \<noteq> Inl StaleMapping \<and> cache_inv live (cs', w') \<and> (\<forall>k \<in> K. resident cs' b k)"
    using resident_clean [OF _ a(3)] a(2) by blast
qed

lemma never_stale_read: "never_stale live b K (map_err Io (on_world (read_exact_at h len off)))"
  (is "never_stale live b K (map_err Io ?m)")
proof (rule never_staleI)
  fix cs w r cs' w'
  assume a: "cache_inv live (cs, w)" "\<forall>k \<in> K. resident cs b k" "map_err Io ?m (cs, w) = (r, (cs', w'))"
  have "cache_inv live (cs', w')"
    using keepsD [OF keeps_map_err [OF keeps_read_exact(1)] a(3) steadyI [OF a(1)]] by (simp add: steady_def)
  moreover have "cs' = cs" "r \<noteq> Inl StaleMapping"
    using a(3) by (auto simp: map_err_apply on_world_apply split: prod.splits sum.splits)
  ultimately show "r \<noteq> Inl StaleMapping \<and> cache_inv live (cs', w') \<and> (\<forall>k \<in> K. resident cs' b k)"
    using a(2) by simp
qed

text \<open>The look-up of a page that is cached.\<close>

lemma never_stale_lookup:
  assumes "key \<in> K" "\<And>page. never_stale live b K (f page)"
  shows "never_stale live b K (mbind (on_store b (fs_page_identity st (fst key) (snd key))) (\<lambda>identity.
    mbind (gets (\<lambda>(cs, w). map_of (cs_pages cs) identity)) (\<lambda>found. mbind (ok_or found StaleMapping) f)))"
  (is "never_stale live b K ?m")
proof (rule never_staleI)
  fix cs w r cs' w'
  assume a: "cache_inv live (cs, w)" "\<forall>k \<in> K. resident cs b k" "?m (cs, w) = (r, (cs', w'))"
  note idc = identity_call [OF cache_invD(7) [OF a(1)], of b "fst key" "snd key" w]
  show "r \<noteq> Inl StaleMapping \<and> cache_inv live (cs', w') \<and> (\<forall>k \<in> K. resident cs' b k)"
  proof (cases "\<exists>br i. map_of (cs_branches cs) b = Some br \<and> sees br key = Some i")
    case True
    then obtain br i where i: "map_of (cs_branches cs) b = Some br" "sees br key = Some i" by blast
    then obtain page where "map_of (cs_pages cs) i = Some page" using a(2) assms(1) by (auto simp: resident_def)
    then have "f page (cs, w) = (r, (cs', w'))" using a(3) idc i by (simp add: mbind_apply)
    from never_staleD [OF assms(2) a(1,2) this] show ?thesis by blast
  next
    case False
    then show ?thesis
      using a idc by (cases "map_of (cs_branches cs) b") (auto simp: mbind_apply split: option.splits)
  qed
qed

lemma sync_pages_never_stale: "set keys \<subseteq> K \<Longrightarrow> never_stale live b K (sync_pages st b keys)"
proof (induction keys)
  case Nil
  show ?case by (simp add: never_stale_bind never_stale_simple)
next
  case (Cons key keys)
  then have key: "key \<in> K" and IH: "never_stale live b K (sync_pages st b keys)" by auto
  show ?case unfolding sync_pages.simps Let_def
    by (intro never_stale_bind never_stale_store quiet_laws)
      (auto intro!: never_stale_lookup [OF key] never_stale_bind never_stale_store quiet_laws never_stale_read
        never_stale_clean never_stale_simple IH)
qed

lemma sync_never_stale:
  assumes inv: "cache_inv live (cs, w)"
  shows "fst (cache_sync_all st b (cs, w)) \<noteq> Inl StaleMapping" "fst (cache_sync st b node (cs, w)) \<noteq> Inl StaleMapping"
proof -
  have "fst (mbind (branch_mut b) (\<lambda>br. sync_pages st b (f br)) (cs, w)) \<noteq> Inl StaleMapping"
    if f: "\<And>br. map_of (cs_branches cs) b = Some br \<Longrightarrow> set (f br) \<subseteq> set (dirty_pages (cb_dirty_pages br))" for f
  proof (cases "map_of (cs_branches cs) b")
    case (Some br)
    let ?K = "set (dirty_pages (cb_dirty_pages br))"
    note D = cache_invD [OF inv]
    have "\<forall>k \<in> ?K. resident cs b k"
      using dirty_okD(3) [OF D(5) Some] Some set_dirty_pages [OF dirty_okD(1) [OF D(5) Some]] by (auto simp: resident_def)
    from never_staleD(1) [OF sync_pages_never_stale [OF f [OF Some]] inv this] Some
    show ?thesis by (simp add: mbind_apply) (metis prod.collapse)
  qed (simp add: mbind_apply)
  from this [of "\<lambda>br. dirty_pages (cb_dirty_pages br)"] this [of "\<lambda>br. dirty_pages_for_node (cb_dirty_pages br) node"]
  show "fst (cache_sync_all st b (cs, w)) \<noteq> Inl StaleMapping" "fst (cache_sync st b node (cs, w)) \<noteq> Inl StaleMapping"
    using dirty_okD(1) [OF cache_invD(5) [OF inv]]
    by (auto simp: cache_sync_all_def cache_sync_def dirty_pages_for_node_filter)
qed

end

section \<open>Reads and writes\<close>

context forkable_store
begin

lemma room_step:
  "room (Suc k) w \<Longrightarrow> next_cache_page_id w' \<le> next_cache_page_id w + 2 \<Longrightarrow>
    next_page_version w' \<le> next_page_version w + 1 \<Longrightarrow> room k w'"
  by (auto simp: room_def)

text \<open>An access to a page's file, as far as the cache is concerned.\<close>

definition harmless :: "(world, 'e, 'a) meth \<Rightarrow> bool" where
  "harmless m \<longleftrightarrow> (\<forall>w r w'. m w = (r, w') \<longrightarrow> world_grows w w' \<and> next_cache_page_id w' = next_cache_page_id w)"

lemma harmless_read: "harmless (std_read_exact_at h len off)"
  unfolding harmless_def
  by (intro allI impI, rule same_grows) (auto simp: transfer_defs dest: read_full_sound)

lemma harmless_write: "harmless (std_write_all_at h buf off)"
  by (auto simp: harmless_def transfer_defs world_grows_def dest!: write_full_sound dest: wroteD)

text \<open>
  One round of a read or a write: a page is mapped, its file is accessed, the page is released.
  When the access fails the mapping stays in use, but the invariant holds on.
\<close>

lemma access_round:
  assumes inv: "cache_inv live (cs, w)" and room: "room (Suc k) w"
    and act: "\<And>m. harmless (act m)"
    and call: "mbind (map_page st b n off fl) (\<lambda>m. mbind (map_err Io (on_world (act m))) (\<lambda>x.
      mbind (unmap b m) (\<lambda>_. rest x))) (cs, w) = (r, (cs', w'))"
  shows "(\<exists>e. r = Inl e) \<and> cache_inv live (cs', w') \<and> cs_id cs' = cs_id cs \<or>
    (\<exists>x cs1 w1. cache_inv live (cs1, w1) \<and> room k w1 \<and> cs_id cs1 = cs_id cs \<and> rest x (cs1, w1) = (r, (cs', w')))"
proof -
  obtain rm cs1 w1 where mp: "map_page st b n off fl (cs, w) = (rm, (cs1, w1))" by (metis prod.exhaust)
  have "room 1 w" using room by (rule room_mono) simp
  note M = map_page_inv [OF inv this mp]
  show ?thesis
  proof (cases rm)
    case (Inl e)
    then show ?thesis using M call mp by (auto simp: mbind_apply mapped_def)
  next
    case (Inr m)
    then have inv1: "cache_inv (m # live) (cs1, w1)" and m: "dm_branch m = b" "cs_id cs1 = cs_id cs"
      using M by (auto simp: mapped_def)
    obtain ra w2 where ac: "act m w1 = (ra, w2)" by (metis prod.exhaust)
    have A: "world_grows w1 w2" "next_cache_page_id w2 = next_cache_page_id w1"
      using act [of m] ac by (auto simp: harmless_def)
    have inv2: "cache_inv (m # live) (cs1, w2)" using inv_world [OF inv1] A by blast
    show ?thesis
    proof (cases ra)
      case (Inl e)
      then show ?thesis
        using inv_forget [OF inv2] call mp Inr ac m(2) by (auto simp: mbind_apply map_err_apply on_world_apply)
    next
      case (Inr x)
      obtain cs2 where un: "unmap (dm_branch m) m (cs1, w2) = (Inr (), (cs2, w2))"
        "cache_inv (remove1 m (m # live)) (cs2, w2)" "cs_id cs2 = cs_id cs1"
        by (rule unmap_inv [OF inv2, of m]) simp_all
      have "rest x (cs2, w2) = (r, (cs', w'))"
        using call mp \<open>rm = Inr m\<close> ac Inr un(1) m(1) by (simp add: mbind_apply map_err_apply on_world_apply)
      moreover have "room k w2"
        using A M by (intro room_step [OF room]) (auto simp: world_grows_def)
      ultimately show ?thesis using un(2,3) m(2) by auto
    qed
  qed
qed

lemma cache_read_loop_inv:
  assumes "cache_inv live (cs, w)" "room (pages_spanned cursor end') w"
    and "cache_read_loop st b n end' cursor acc (cs, w) = (r, (cs', w'))"
  shows "cache_inv live (cs', w') \<and> cs_id cs' = cs_id cs"
  using assms
proof (induction "end' - cursor" arbitrary: cursor acc cs w rule: less_induct)
  case less
  show ?case
  proof (cases "cursor < end'")
    case False
    then show ?thesis using less.prems by (simp add: cache_read_loop.simps)
  next
    case True
    let ?len = "page_chunk cursor end'"
    have room: "room (Suc (pages_spanned (cursor + ?len) end')) w"
      using less.prems(2) pages_spanned_step [OF True] by simp
    have call: "mbind (map_page st b n (cursor div PAGE_SIZE * PAGE_SIZE) READ) (\<lambda>m.
        mbind (map_err Io (on_world (std_read_exact_at (cp_backing (dm_page m)) ?len (cursor mod PAGE_SIZE)))) (\<lambda>chunk.
        mbind (unmap b m) (\<lambda>_. cache_read_loop st b n end' (cursor + ?len) (acc @ chunk)))) (cs, w) = (r, (cs', w'))"
      using less.prems(3) True by (simp add: cache_read_loop.simps [of st b n end' cursor] Let_def minus_div_mult_eq_mod)
    from access_round [OF less.prems(1) room harmless_read call]
    show ?thesis using less.hyps [OF page_chunk_measure [OF True]] by auto
  qed
qed

lemma cache_write_loop_inv:
  assumes "cache_inv live (cs, w)" "room (pages_spanned cursor (offset + length buf)) w"
    and "cache_write_loop st b n offset buf cursor (cs, w) = (r, (cs', w'))"
  shows "cache_inv live (cs', w') \<and> cs_id cs' = cs_id cs"
  using assms
proof (induction "offset + length buf - cursor" arbitrary: cursor cs w rule: less_induct)
  case less
  show ?case
  proof (cases "cursor < offset + length buf")
    case False
    then show ?thesis using less.prems by (simp add: cache_write_loop.simps)
  next
    case True
    let ?len = "page_chunk cursor (offset + length buf)"
    have room: "room (Suc (pages_spanned (cursor + ?len) (offset + length buf))) w"
      using less.prems(2) pages_spanned_step [OF True] by simp
    have call: "mbind (map_page st b n (cursor div PAGE_SIZE * PAGE_SIZE) (READ OR WRITE)) (\<lambda>m.
        mbind (map_err Io (on_world (std_write_all_at (cp_backing (dm_page m)) (bslice (cursor - offset) ?len buf)
          (cursor mod PAGE_SIZE)))) (\<lambda>x.
        mbind (unmap b m) (\<lambda>_. (\<lambda>_. cache_write_loop st b n offset buf (cursor + ?len)) x))) (cs, w) = (r, (cs', w'))"
      using less.prems(3) True
      by (simp add: cache_write_loop.simps [of st b n offset buf cursor] Let_def minus_div_mult_eq_mod)
    from access_round [OF less.prems(1) room harmless_write call]
    show ?thesis using less.hyps [OF page_chunk_measure [OF True]] by auto
  qed
qed

end


section \<open>New files\<close>

context forkable_store
begin

text \<open>
  A branch gets a file that it did not have: the pages of the new node get identities that were
  never handed out.
\<close>

definition new_file :: "'s \<Rightarrow> world \<Rightarrow> node_id \<Rightarrow> (nat \<Rightarrow> 'i) \<Rightarrow> 's \<Rightarrow> world \<Rightarrow> bool" where
  "new_file s w node new s' w' \<longleftrightarrow>
     ident s' = (\<lambda>n p. if n = node then Some (new p) else ident s n p) \<and>
     (\<forall>p. ident s node p = None \<and> new p \<notin> issued (next_file_object_id w) (next_page_version w) \<and>
        new p \<in> issued (next_file_object_id w') (next_page_version w')) \<and>
     inj new \<and> owned s' = owned s \<and> w_next_inode w' = w_next_inode w \<and>
     next_cache_page_id w' = next_cache_page_id w \<and> next_page_version w' = next_page_version w \<and>
     next_file_object_id w \<le> next_file_object_id w'"

lemma new_file_view:
  assumes f: "new_file (cb_store br) w node new s' w'" and b: "map_of (cs_branches cs) b = Some br"
    and cs': "cs_branches cs' = bm_insert b (br\<lparr>cb_store := s'\<rparr>) (cs_branches cs)"
    and d: "map_of (cs_branches cs') d = Some brd"
  obtains br0 where "map_of (cs_branches cs) d = Some br0" "owned (cb_store brd) = owned (cb_store br0)"
    "cb_exclusive_pages brd = cb_exclusive_pages br0" "cb_dirty_pages brd = cb_dirty_pages br0"
    "cb_active_pages brd = cb_active_pages br0"
    "\<forall>n p. ident (cb_store brd) n p = ident (cb_store br0) n p \<or>
       d = b \<and> n = node \<and> ident (cb_store br0) n p = None \<and> ident (cb_store brd) n p = Some (new p)"
  using assms by (cases "d = b") (auto simp: new_file_def)

lemma new_file_pages:
  assumes inv: "cache_inv live (cs, w)" and b: "map_of (cs_branches cs) b = Some br"
    and f: "new_file (cb_store br) w node new s' w'"
    and cs': "cs' = cs\<lparr>cs_branches := bm_insert b (br\<lparr>cb_store := s'\<rparr>) (cs_branches cs)\<rparr>"
  shows "pages_ok cs' w'" "branches_ok cs' w'" "keys_ok cs'" "exclusive_ok cs'"
proof -
  note D = cache_invD [OF inv]
  have "cs_branches cs' = bm_insert b (br\<lparr>cb_store := s'\<rparr>) (cs_branches cs)" by (simp add: cs')
  note view = new_file_view [OF f b this]
  have f': "\<forall>p. new p \<notin> issued (next_file_object_id w) (next_page_version w)"
    "\<forall>p. new p \<in> issued (next_file_object_id w') (next_page_version w')" "inj new"
    and w': "w_next_inode w' = w_next_inode w" "next_cache_page_id w' = next_cache_page_id w"
    using f by (auto simp: new_file_def)
  have iss: "issued (next_file_object_id w) (next_page_version w) \<subseteq> issued (next_file_object_id w') (next_page_version w')"
    using f by (intro issued_mono) (auto simp: new_file_def)
  have old: "ident (cb_store br0) n p \<noteq> Some (new q)" if "map_of (cs_branches cs) d = Some br0" for d br0 n p q
    using branches_okD(3) [OF D(2) that, of n p "new q"] f'(1) by blast
  show "pages_ok cs' w'" using D(1) iss by (auto simp: pages_ok_def w' cs')
  show "branches_ok cs' w'" unfolding branches_ok_def
  proof (intro conjI allI impI)
    show "bm_wf (cs_branches cs')" using D(7) by (simp add: cs')
    fix d brd assume d: "map_of (cs_branches cs') d = Some brd"
    obtain br0 where br0: "map_of (cs_branches cs) d = Some br0" "owned (cb_store brd) = owned (cb_store br0)"
      "\<forall>n p. ident (cb_store brd) n p = ident (cb_store br0) n p \<or>
       d = b \<and> n = node \<and> ident (cb_store br0) n p = None \<and> ident (cb_store brd) n p = Some (new p)"
      using view [OF d] by metis
    note B = branches_okD [OF D(2) br0(1)]
    show "cb_raw d < cs_next_branch cs'" "owned (cb_store brd) \<subseteq> {..<w_next_inode w'}"
      using B(1,2) br0(2) w'(1) by (simp_all add: cs')
    show "i \<in> issued (next_file_object_id w') (next_page_version w')" if "ident (cb_store brd) n p = Some i" for n p i
      using spec [OF spec [OF br0(3), of n], of p] that B(3) [of n p i] iss f'(2) by auto
    show "cp_backing p \<notin> owned (cb_store brd)" if "map_of (cs_pages cs') i = Some p" for i p
      using B(4) [of i p] that br0(2) by (simp add: cs')
  qed
  show "keys_ok cs'" unfolding keys_ok_def
  proof (intro allI impI)
    fix d brd e bre n p n' p' i
    assume a: "map_of (cs_branches cs') d = Some brd" "map_of (cs_branches cs') e = Some bre"
      "ident (cb_store brd) n p = Some i" "ident (cb_store bre) n' p' = Some i"
    obtain br0 where br0: "map_of (cs_branches cs) d = Some br0" "ident (cb_store br0) n p = Some i \<or>
        n = node \<and> i = new p"
      using view [OF a(1)] a(3) by (metis option.inject)
    obtain br1 where br1: "map_of (cs_branches cs) e = Some br1" "ident (cb_store br1) n' p' = Some i \<or>
        n' = node \<and> i = new p'"
      using view [OF a(2)] a(4) by (metis option.inject)
    show "n = n' \<and> p = p'"
      using br0(2) br1(2) old [OF br0(1), of n p] old [OF br1(1), of n' p'] keys_okD [OF D(3) br0(1) br1(1)]
        injD [OF f'(3), of p p'] by blast
  qed
  show "exclusive_ok cs'" unfolding exclusive_ok_def
  proof (intro allI impI)
    fix d brd k i e bre
    assume a: "map_of (cs_branches cs') d = Some brd" "k \<in> cb_exclusive_pages brd" "sees brd k = Some i"
      "e \<noteq> d" "map_of (cs_branches cs') e = Some bre"
    obtain br0 where br0: "map_of (cs_branches cs) d = Some br0" "k \<in> cb_exclusive_pages br0"
      "sees br0 k = Some i \<or> d = b \<and> i = new (snd k div PAGE_SIZE)"
      using view [OF a(1)] a(2,3) unfolding sees_def by (metis option.inject)
    obtain br1 where br1: "map_of (cs_branches cs) e = Some br1"
      "sees bre k = sees br1 k \<or> e = b \<and> sees bre k = Some (new (snd k div PAGE_SIZE))"
      using view [OF a(5)] unfolding sees_def by (metis option.inject)
    show "sees bre k \<noteq> Some i"
      using br0(3) br1(2) a(4) old [OF br0(1)] old [OF br1(1)] exclusive_okD [OF D(4) br0(1,2) _ a(4) br1(1)]
      unfolding sees_def by auto
  qed
qed

lemma new_file_inv:
  assumes inv: "cache_inv live (cs, w)" and b: "map_of (cs_branches cs) b = Some br"
    and f: "new_file (cb_store br) w node new s' w'"
    and cs': "cs' = cs\<lparr>cs_branches := bm_insert b (br\<lparr>cb_store := s'\<rparr>) (cs_branches cs)\<rparr>"
  shows "cache_inv live (cs', w')"
proof (rule cache_invI [OF new_file_pages [OF assms]])
  note D = cache_invD [OF inv]
  have "cs_branches cs' = bm_insert b (br\<lparr>cb_store := s'\<rparr>) (cs_branches cs)" by (simp add: cs')
  note view = new_file_view [OF f b this]
  have seen: "sees brd k = sees br0 k" if "map_of (cs_branches cs') d = Some brd" "map_of (cs_branches cs) d = Some br0"
    "sees br0 k \<noteq> None" for d brd br0 k
    using view [OF that(1)] that(2,3) unfolding sees_def by (metis option.inject)
  show "dirty_ok cs'" unfolding dirty_ok_def
  proof (intro allI impI)
    fix d brd k assume d: "map_of (cs_branches cs') d = Some brd"
    obtain br0 where br0: "map_of (cs_branches cs) d = Some br0" "cb_dirty_pages brd = cb_dirty_pages br0"
      using view [OF d] by metis
    show "ov_wf (cb_dirty_pages brd) \<and> (ov_get (cb_dirty_pages brd) k = Some True \<longrightarrow>
        k \<in> set (cs_known_pages cs') \<and> sees brd k \<noteq> None \<and> (\<forall>i. sees brd k = Some i \<longrightarrow> map_of (cs_pages cs') i \<noteq> None))"
      using dirty_okD(1) [OF D(5) br0(1)] dirty_okD(2-4) [OF D(5) br0(1), of k] seen [OF d br0(1), of k] br0(2) by (auto simp: cs')
  qed
  show "live_ok live cs'" unfolding live_ok_def
  proof (intro conjI ballI allI impI)
    fix m assume "m \<in> set live"
    then have "mapping_ok cs m" using D(6) by (simp add: live_ok_def)
    then obtain br0 i where m: "dm_cache_id m = cs_id cs" "dm_key m \<in> set (cs_known_pages cs)"
      "map_of (cs_branches cs) (dm_branch m) = Some br0" "sees br0 (dm_key m) = Some i"
      "map_of (cs_pages cs) i = Some (dm_page m)"
      "flags_contain (dm_flags m) WRITE \<longrightarrow> dm_key m \<in> cb_exclusive_pages br0" by (rule mapping_okE)
    obtain brd where brd: "map_of (cs_branches cs') (dm_branch m) = Some brd"
      "cb_exclusive_pages brd = cb_exclusive_pages br0" using m(3) b by (cases "dm_branch m = b") (auto simp: cs')
    show "mapping_ok cs' m"
      using m brd(2) seen [OF brd(1) m(3), of "dm_key m"] by (intro mapping_okI [OF _ _ brd(1)]) (auto simp: cs')
  next
    fix d brd p assume d: "map_of (cs_branches cs') d = Some brd"
    obtain br0 where "map_of (cs_branches cs) d = Some br0" "cb_active_pages brd = cb_active_pages br0"
      using view [OF d] by metis
    then show "held live d p \<le> bm_count (cb_active_pages brd) p" using live_okD [OF D(6)] by simp
  qed
qed

end


section \<open>The first state\<close>

context forkable_store
begin

text \<open>Stores of one lineage: their identities are issued, and one belongs to one page of one node.\<close>

definition lineage_ok :: "'s list \<Rightarrow> world \<Rightarrow> bool" where
  "lineage_ok ss w \<longleftrightarrow>
     (\<forall>s \<in> set ss. owned s \<subseteq> {..<w_next_inode w} \<and>
        (\<forall>n p i. ident s n p = Some i \<longrightarrow> i \<in> issued (next_file_object_id w) (next_page_version w))) \<and>
     (\<forall>s \<in> set ss. \<forall>s' \<in> set ss. \<forall>n p n' p' i. ident s n p = Some i \<longrightarrow> ident s' n' p' = Some i \<longrightarrow> n = n' \<and> p = p')"

lemma start_inv:
  assumes ss: "lineage_ok ss w" and wf: "bm_wf brs"
    and brs: "\<And>b br. map_of brs b = Some br \<Longrightarrow> cb_raw b < nb \<and> (\<exists>s \<in> set ss. br = fresh_branch s dirty_new)"
  shows "cache_inv [] (\<lparr>cs_id = cid, cs_next_branch = nb, cs_branches = brs, cs_pages = [], cs_known_pages = []\<rparr>,
    w\<lparr>next_cache_id := k\<rparr>)" (is "cache_inv [] (?cs, ?w)")
proof (rule cache_invI)
  have store: "cb_store br \<in> set ss \<and> cb_exclusive_pages br = {} \<and> cb_dirty_pages br = ov_empty"
    if "map_of brs b = Some br" for b br
    using brs [OF that] by (auto simp: fresh_branch_def dirty_new_def)
  show "pages_ok ?cs ?w" by (simp add: pages_ok_def)
  show "branches_ok ?cs ?w" unfolding branches_ok_def
  proof (intro conjI allI impI)
    show "bm_wf (cs_branches ?cs)" using wf by simp
    fix b br assume "map_of (cs_branches ?cs) b = Some br"
    then have b: "map_of brs b = Some br" by simp
    have s: "cb_store br \<in> set ss" using store [OF b] by simp
    show "cb_raw b < cs_next_branch ?cs" using brs [OF b] by simp
    show "owned (cb_store br) \<subseteq> {..<w_next_inode ?w}" using ss s by (simp add: lineage_ok_def)
    show "i \<in> issued (next_file_object_id ?w) (next_page_version ?w)" if "ident (cb_store br) n p = Some i" for n p i
      using ss s that by (simp add: lineage_ok_def)
  qed simp
  show "keys_ok ?cs" unfolding keys_ok_def
  proof (intro allI impI)
    fix b br b' br' n p n' p' i
    assume a: "map_of (cs_branches ?cs) b = Some br" "map_of (cs_branches ?cs) b' = Some br'"
      "ident (cb_store br) n p = Some i" "ident (cb_store br') n' p' = Some i"
    have "cb_store br \<in> set ss" "cb_store br' \<in> set ss" using store a(1,2) by auto
    then show "n = n' \<and> p = p'" using ss a(3,4) unfolding lineage_ok_def by blast
  qed
  show "exclusive_ok ?cs" using store by (simp add: exclusive_ok_def)
  have "cb_dirty_pages br = ov_empty" if "map_of (cs_branches ?cs) b = Some br" for b br using store that by simp
  then show "dirty_ok ?cs" by (simp add: dirty_ok_def)
  show "live_ok [] ?cs" by (simp add: live_ok_def held_def)
qed

lemma cache_new_inv:
  assumes "lineage_ok [s] w" "cache_new s w = ((cs, b), w')"
  shows "cache_inv [] (cs, w')"
proof -
  let ?brs = "bm_insert (CacheBranchId 1) (fresh_branch s dirty_new) []"
  have wf: "bm_wf ?brs" by (rule bm_wf_insert) simp
  have "cb_raw d < 2 \<and> (\<exists>s' \<in> set [s]. br = fresh_branch s' dirty_new)" if "map_of ?brs d = Some br" for d br
    using that by (auto split: if_splits)
  from start_inv [OF assms(1) wf this]
  show ?thesis using assms(2) by (auto simp: cache_new_def Let_def)
qed

end

lemma restored_branches:
  fixes ids :: "cache_branch_id list" and stores :: "'a list"
  assumes "distinct ids" "length ids = length stores"
  defines "brs \<equiv> fold (\<lambda>(i, store). bm_insert i (fresh_branch store dirty_new)) (zip ids stores) []"
  shows "bm_wf brs" "length brs = length stores"
    "map_of brs b = Some br \<Longrightarrow> b \<in> set ids \<and> (\<exists>s \<in> set stores. br = fresh_branch s dirty_new)"
proof -
  have G: "bm_wf acc \<Longrightarrow> bm_wf (fold (\<lambda>(i, store). bm_insert i (fresh_branch store dirty_new)) es acc) \<and>
      fst ` set (fold (\<lambda>(i, store). bm_insert i (fresh_branch store dirty_new)) es acc) = fst ` set acc \<union> fst ` set es \<and>
      set (fold (\<lambda>(i, store). bm_insert i (fresh_branch store dirty_new)) es acc) \<subseteq>
        set acc \<union> (\<lambda>(i, store). (i, fresh_branch store dirty_new)) ` set es"
    for es :: "(cache_branch_id \<times> 'a) list" and acc
  proof (induction es arbitrary: acc)
    case (Cons e es)
    obtain i s where e: "e = (i, s)" by (cases e)
    from Cons.IH [of "bm_insert i (fresh_branch s dirty_new) acc"] Cons.prems show ?case
      using set_bm_insert_subset [of i "fresh_branch s dirty_new" acc] by (auto simp: e)
  qed simp
  note R = G [of "[]" "zip ids stores", folded brs_def, simplified]
  show wf: "bm_wf brs" using R by simp
  have keys: "fst ` set brs = set ids" using R assms(2) by (simp flip: set_map)
  have "length brs = card (set (bm_keys brs))" using distinct_card [OF bm_wf_distinct [OF wf]] by simp
  also have "\<dots> = length stores" using keys distinct_card [OF assms(1)] assms(2) by simp
  finally show "length brs = length stores" .
  show "b \<in> set ids \<and> (\<exists>s \<in> set stores. br = fresh_branch s dirty_new)" if "map_of brs b = Some br"
    using R map_of_SomeD [OF that] keys by (fastforce dest: set_zip_rightD set_zip_leftD)
qed

context forkable_store
begin

text \<open>Restoring a lineage gives one branch to each store, numbered from one.\<close>

lemma cache_restore_inv:
  assumes "lineage_ok ss w" "cache_restore ss w = (r, w')"
  shows "(case r of Inl _ \<Rightarrow> w' = w \<and> (ss = [] \<or> u64_bound \<le> length ss + 1)
    | Inr (cs, ids) \<Rightarrow> cache_inv [] (cs, w') \<and> ids = map (\<lambda>k. CacheBranchId (k + 1)) [0..<length ss])"
proof (cases "ss = []")
  case True
  then show ?thesis using assms(2) by (auto simp: cache_restore_def)
next
  case False
  let ?ids = "map (\<lambda>k. CacheBranchId (k + 1)) [0..<length ss]"
  have ids: "distinct ?ids" "length ?ids = length ss" by (auto simp: distinct_map inj_on_def)
  note B = restored_branches [OF ids]
  have "cb_raw b < length ss + 1 \<and> (\<exists>s \<in> set ss. br = fresh_branch s dirty_new)"
    if "map_of (fold (\<lambda>(i, store). bm_insert i (fresh_branch store dirty_new)) (zip ?ids ss) []) b = Some br" for b br
    using B(3) [OF that] by auto
  note S = start_inv [OF assms(1) B(1) this]
  show ?thesis
  proof (cases "length ss + 1 < u64_bound")
    case True
    then show ?thesis
      using assms(2) False S [of "next_cache_id w" "u64_succ (next_cache_id w)"]
      by (auto simp: cache_restore_def Let_def mbind_apply B(2) [simplified] checked_add_def)
  next
    case full: False
    then show ?thesis
      using assms(2) False by (auto simp: cache_restore_def Let_def mbind_apply B(2) [simplified] checked_add_def)
  qed
qed

end


context forkable_store
begin

lemma pages_spanned_mono: "stop \<le> stop' \<Longrightarrow> pages_spanned start stop \<le> pages_spanned start stop'"
  by (auto simp: pages_spanned_def intro!: diff_le_mono div_le_mono)

lemma cache_read_inv:
  assumes inv: "cache_inv live (cs, w)" and room: "room (pages_spanned offset (offset + len)) w"
    and call: "cache_read st b n offset len (cs, w) = (r, (cs', w'))"
  shows "cache_inv live (cs', w') \<and> cs_id cs' = cs_id cs"
proof -
  obtain r1 cs1 w1 where l: "on_store b (ns_len st n) (cs, w) = (r1, (cs1, w1))" by (metis prod.exhaust)
  note Q = on_store_quiet [OF inv quiet_laws(1) l]
  have same: "cs_id cs1 = cs_id cs" "next_page_version w1 = next_page_version w" using Q(2) by (simp_all add: kept_def)
  have stop: ?thesis if "cs' = cs1" "w' = w1" using that Q(1) same by simp
  show ?thesis
  proof (cases r1)
    case (Inl e)
    then show ?thesis using call l stop by (simp add: cache_read_def with_store_mut_def mbind_apply)
  next
    case (Inr file_len)
    let ?stop = "offset + min (file_len - offset) len"
    have "room (pages_spanned offset ?stop) w1"
      using room_mono [OF room pages_spanned_mono [of ?stop "offset + len" offset]] Q(4) same(2) by (simp add: room_def)
    note loop = cache_read_loop_inv [OF Q(1) this, of b n "[]"]
    show ?thesis
    proof (cases "offset \<ge> file_len \<or> len = 0 \<or> u64_bound \<le> ?stop")
      case True
      then show ?thesis using call l stop Inr
        by (auto simp: cache_read_def with_store_mut_def mbind_apply Let_def checked_add_def split: if_splits)
    next
      case False
      then have "cache_read_loop st b n ?stop offset [] (cs1, w1) = (r, (cs', w'))"
        using call l Inr by (simp add: cache_read_def with_store_mut_def mbind_apply Let_def checked_add_def)
      from loop [OF this] same show ?thesis by simp
    qed
  qed
qed

lemma cache_write_inv:
  assumes inv: "cache_inv live (cs, w)" and room: "room (pages_spanned offset (offset + length buf)) w"
    and call: "cache_write st b n offset buf (cs, w) = (r, (cs', w'))"
  shows "cache_inv live (cs', w') \<and> cs_id cs' = cs_id cs"
proof (cases "offset + length buf < u64_bound")
  case False
  then show ?thesis using call inv by (auto simp: cache_write_def mbind_apply checked_add_def)
next
  case True
  obtain r1 cs1 w1 where l: "on_store b (ns_len st n) (cs, w) = (r1, (cs1, w1))" by (metis prod.exhaust)
  note Q = on_store_quiet [OF inv quiet_laws(1) l]
  have same: "cs_id cs1 = cs_id cs" "next_page_version w1 = next_page_version w" using Q(2) by (simp_all add: kept_def)
  obtain r2 cs2 w2 where wl: "cache_write_loop st b n offset buf offset (cs1, w1) = (r2, (cs2, w2))" by (metis prod.exhaust)
  have "room (pages_spanned offset (offset + length buf)) w1" using room Q(4) same(2) by (simp add: room_def)
  note loop = cache_write_loop_inv [OF Q(1) this wl]
  have "cs' = cs1 \<and> w' = w1 \<or> cs' = cs2 \<and> w' = w2"
    using call l wl True by (cases r1; cases r2)
      (auto simp: cache_write_def with_store_mut_def mbind_apply checked_add_def split: if_splits)
  then show ?thesis using Q(1) loop same by auto
qed

end

end
