(* ===== verification/CacheViews.thy ===== *)
theory CacheViews
  imports CacheSteps
begin

text \<open>
  What branches see: the bytes of the cached page behind each page of a branch. No method of the
  cache changes them for any branch, except for the bytes that clients write through their own
  write mappings.
\<close>

context forkable_store
begin

definition view :: "('s, 'i) cache_state \<Rightarrow> world \<Rightarrow> cache_branch_id \<Rightarrow> page_key \<Rightarrow> bytes option" where
  "view cs w b key =
    (case map_of (cs_branches cs) b of
       None \<Rightarrow> None
     | Some br \<Rightarrow>
         (case sees br key of
            None \<Rightarrow> None
          | Some i \<Rightarrow> map_option (\<lambda>p. take PAGE_SIZE (file_data w (cp_backing p))) (map_of (cs_pages cs) i)))"

lemma viewE:
  assumes "view cs w b key = Some D"
  obtains br i p where "map_of (cs_branches cs) b = Some br" "sees br key = Some i" "map_of (cs_pages cs) i = Some p"
    "D = take PAGE_SIZE (file_data w (cp_backing p))"
  using assms by (auto simp: view_def split: option.splits)

lemma viewI:
  assumes "map_of (cs_branches cs) b = Some br" "sees br key = Some i" "map_of (cs_pages cs) i = Some p"
  shows "view cs w b key = Some (take PAGE_SIZE (file_data w (cp_backing p)))"
  using assms by (simp add: view_def)

text \<open>The views \<open>V\<close> are still there, for the branches that are.\<close>

definition shows_views :: "(cache_branch_id \<Rightarrow> page_key \<Rightarrow> bytes option) \<Rightarrow> ('s, 'i) cache_state \<times> world \<Rightarrow> bool" where
  "shows_views V = (\<lambda>(cs, w). \<forall>b key D. V b key = Some D \<longrightarrow> map_of (cs_branches cs) b \<noteq> None \<longrightarrow> view cs w b key = Some D)"

lemma shows_viewsI:
  "(\<And>b key D. V b key = Some D \<Longrightarrow> map_of (cs_branches cs) b \<noteq> None \<Longrightarrow> view cs w b key = Some D) \<Longrightarrow> shows_views V (cs, w)"
  by (simp add: shows_views_def)

lemma shows_viewsD:
  "shows_views V (cs, w) \<Longrightarrow> V b key = Some D \<Longrightarrow> map_of (cs_branches cs) b \<noteq> None \<Longrightarrow> view cs w b key = Some D"
  unfolding shows_views_def by blast

lemma shows_views_refl [simp]: "shows_views (view cs w) (cs, w)"
  by (simp add: shows_views_def)

lemma file_data_cong: "w_files w' h = w_files w h \<Longrightarrow> file_data w' h = file_data w h"
  by (simp add: file_data_def)

lemma shows_kept:
  assumes "shows_views V (cs, w)" "kept cs w cs' w'"
  shows "shows_views V (cs', w')"
proof (rule shows_viewsI)
  fix b key D assume V: "V b key = Some D" and b: "map_of (cs_branches cs') b \<noteq> None"
  have "rel_option alike (map_of (cs_branches cs) b) (map_of (cs_branches cs') b)" using assms(2) by (simp add: kept_def)
  then have "map_of (cs_branches cs) b \<noteq> None" using b by (metis option.rel_distinct(1) option.exhaust)
  from shows_viewsD [OF assms(1) V this] obtain br i p where v: "map_of (cs_branches cs) b = Some br" "sees br key = Some i"
    "map_of (cs_pages cs) i = Some p" "D = take PAGE_SIZE (file_data w (cp_backing p))" by (rule viewE)
  obtain br' where br': "map_of (cs_branches cs') b = Some br'" "alike br br'" by (rule kept_branch [OF assms(2) v(1)])
  have "sees br' key = Some i" using v(2) alike_sees [OF br'(2)] by simp
  from viewI [OF br'(1) this kept_page(1) [OF assms(2) v(3)]]
  show "view cs' w' b key = Some D" using v(4) file_data_cong [OF kept_page(2) [OF assms(2) v(3)]] by simp
qed

text \<open>Updates of a branch beside its store, and of the table of known pages.\<close>

lemma shows_branch_update:
  assumes "shows_views V (cs, w)" "map_of (cs_branches cs) b = Some br" "cb_store br' = cb_store br"
    and cs': "cs_branches cs' = bm_insert b br' (cs_branches cs)" "cs_pages cs' = cs_pages cs"
  shows "shows_views V (cs', w)"
proof (rule shows_viewsI)
  fix d key D assume V: "V d key = Some D" and d: "map_of (cs_branches cs') d \<noteq> None"
  have "map_of (cs_branches cs) d \<noteq> None" using d assms(2) by (auto simp: cs' split: if_splits)
  from shows_viewsD [OF assms(1) V this] show "view cs' w d key = Some D"
    using assms(2,3) by (auto simp: view_def sees_def cs' split: option.splits if_splits)
qed

section \<open>Methods that keep all views\<close>

definition calm_views :: "dax_page_mapping list \<Rightarrow> nat \<Rightarrow> nat \<Rightarrow> nat \<Rightarrow>
    (cache_branch_id \<Rightarrow> page_key \<Rightarrow> bytes option) \<Rightarrow> ('s, 'i) cache_state \<times> world \<Rightarrow> bool" where
  "calm_views live cid n v V s \<longleftrightarrow> steady live cid n v s \<and> shows_views V s"

lemma keeps_both:
  assumes "keeps P m" "\<And>s. P s \<Longrightarrow> Q s \<Longrightarrow> Q (snd (m s))"
  shows "keeps (\<lambda>s. P s \<and> Q s) m"
  using assms by (auto simp: keeps_def)

lemma calm_on_store [keeps_intros]:
  assumes "quiet m" shows "keeps (calm_views live cid n v V) (on_store b m)"
  unfolding calm_views_def
proof (rule keeps_both [OF keeps_on_store [OF assms]])
  fix s assume P: "steady live cid n v s" and Q: "shows_views V s"
  obtain cs w where s: "s = (cs, w)" by (cases s)
  obtain r cs' w' where call: "on_store b m (cs, w) = (r, (cs', w'))" by (metis prod.exhaust)
  have "cache_inv live (cs, w)" using P s by (simp add: steady_def)
  from on_store_quiet(2) [OF this assms call] shows_kept [of V cs w cs' w'] Q
  show "shows_views V (snd (on_store b m s))" by (simp add: s call)
qed

lemma calm_update:
  assumes "keeps (steady live cid n v) (update_branch b f)" "\<And>br. cb_store (f br) = cb_store br"
  shows "keeps (calm_views live cid n v V) (update_branch b f)"
  unfolding calm_views_def
proof (rule keeps_both [OF assms(1)])
  fix s assume Q: "shows_views V s"
  obtain cs w where s: "s = (cs, w)" by (cases s)
  show "shows_views V (snd (update_branch b f s))"
  proof (cases "map_of (cs_branches cs) b")
    case (Some br)
    from shows_branch_update [OF Q [unfolded s] Some assms(2)]
    show ?thesis by (simp add: s Some update_branch_def put_branch_def mbind_apply)
  qed (use Q s in \<open>simp add: update_branch_def mbind_apply\<close>)
qed

lemma calm_updates [keeps_intros]:
  "keeps (calm_views live cid n v V) (update_branch b (\<lambda>br. br\<lparr>cb_open_nodes := g br\<rparr>))"
  "keeps (calm_views live cid n v V) (update_branch b (\<lambda>br. br\<lparr>cb_dirty_pages := mark_clean key (cb_dirty_pages br)\<rparr>))"
  by (rule calm_update, intro keeps_intros, simp)+

lemma calm_reads [keeps_intros]: "keeps (calm_views live cid n v V) (on_world (read_exact_at h len off))"
  unfolding calm_views_def
proof (rule keeps_both [OF keeps_read_exact(1)])
  fix s assume Q: "shows_views V s"
  obtain cs w where s: "s = (cs, w)" by (cases s)
  obtain r w' where call: "read_exact_at h len off w = (r, w')" by (metis prod.exhaust)
  then have "same_but_tick w w'" by (auto simp: transfer_defs dest: read_full_sound)
  then have "kept cs w cs w'" by (auto simp: kept_def option.rel_refl dest: same_but_tickD)
  from shows_kept [OF Q [unfolded s] this] show "shows_views V (snd (on_world (read_exact_at h len off) s))"
    by (simp add: s on_world_apply call)
qed

lemma calm_cache_open: "keeps (calm_views live cid n v V) (cache_open st b node)"
  unfolding cache_open_def Let_def by (intro keeps_intros quiet_calls)

lemma calm_cache_close: "keeps (calm_views live cid n v V) (cache_close st b node)"
  unfolding cache_close_def by (intro keeps_intros quiet_calls)

lemma calm_sync_pages: "keeps (calm_views live cid n v V) (sync_pages st b keys)"
proof (induction keys)
  case (Cons key keys)
  then show ?case unfolding sync_pages.simps Let_def by (intro keeps_intros quiet_calls)
qed (simp add: keeps_intros)

lemma calm_cache_sync:
  "keeps (calm_views live cid n v V) (cache_sync st b node)" "keeps (calm_views live cid n v V) (cache_sync_all st b)"
  unfolding cache_sync_def cache_sync_all_def by (intro keeps_intros calm_sync_pages)+

end


section \<open>Mapping pages\<close>

context forkable_store
begin

lemma shows_page_made:
  assumes "cache_inv live (cs, w)" "shows_views V (cs, w)" "makes_page w w' r bytes"
  shows "shows_views V (cs, w')"
proof (rule shows_kept [OF assms(2)])
  have "w_files w' (cp_backing p) = w_files w (cp_backing p)" if "map_of (cs_pages cs) i = Some p" for i p
    using pages_okD(3) [OF cache_invD(1) [OF assms(1)] that] assms(3) by (simp add: makes_page_def)
  then show "kept cs w cs w'" using assms(3) by (simp add: kept_def option.rel_refl makes_page_def)
qed

lemma shows_copied:
  assumes inv: "cache_inv live (cs, w)" and V: "shows_views V (cs, w)" and c: "copied cs w b br key i p i' s' cs' w'"
    and old: "map_of (cs_pages cs) i = Some page"
    and data: "file_data w (cp_backing p) = take PAGE_SIZE (file_data w (cp_backing page))"
  shows "shows_views V (cs', w')"
proof (rule shows_viewsI)
  fix d k D assume V': "V d k = Some D" and d: "map_of (cs_branches cs') d \<noteq> None"
  then obtain brd where brd: "map_of (cs_branches cs') d = Some brd" by blast
  note D = cache_invD [OF inv] and C = copiedD [OF inv c]
  have calm: "calm owned (cb_store br) w s' w'" and new: "new_page cs w p" using c by (simp_all add: copied_def)
  obtain br0 where br0: "map_of (cs_branches cs) d = Some br0"
    "\<forall>k. sees brd k = sees br0 k \<or> d = b \<and> br0 = br \<and> sees br0 k = Some i \<and> sees brd k = Some i'"
    by (rule copied_branch_cases [OF inv c brd])
  have "map_of (cs_branches cs) d \<noteq> None" using br0(1) by simp
  from shows_viewsD [OF V V' this] obtain br1 j q where v: "map_of (cs_branches cs) d = Some br1" "sees br1 k = Some j"
    "map_of (cs_pages cs) j = Some q" "D = take PAGE_SIZE (file_data w (cp_backing q))" by (rule viewE)
  have j: "sees br0 k = Some j" using v(1,2) br0(1) by simp
  show "view cs' w' d k = Some D"
  proof (cases "sees brd k = Some j")
    case True
    have "w_files w' (cp_backing q) = w_files w (cp_backing q)"
      using calm pages_okD(3) [OF D(1) v(3)] branches_okD(4) [OF D(2) C(1) v(3)] by (simp add: calm_def)
    from viewI [OF brd True copied_resident [OF inv c br0(1) brd j v(3) True]] file_data_cong [OF this]
    show ?thesis using v(4) by simp
  next
    case False
    then have s: "j = i" "sees brd k = Some i'" using spec [OF br0(2), of k] j by auto
    have "w_files w' (cp_backing p) = w_files w (cp_backing p)"
      using calm new C(1) by (simp add: calm_def new_page_def)
    from viewI [OF brd s(2) C(8)] file_data_cong [OF this] show ?thesis using v(3,4) s(1) old data by simp
  qed
qed

lemma shows_map_page_copy:
  assumes inv: "cache_inv live (cs, w)" and b: "map_of (cs_branches cs) b = Some br" "sees br (n, off) = Some i"
    and page: "map_of (cs_pages cs) i = Some page" "bm_count (cb_active_pages br) (cp_id page) = 0"
    and room: "next_cache_page_id w + 1 < u64_bound" "next_page_version w + 1 < u64_bound"
    and call: "map_page_copy st b i page n off (cs, w) = (r, (cs', w'))" and V: "shows_views V (cs, w)"
  shows "shows_views V (cs', w')"
  using inv b page room call
proof (cases rule: map_page_copy_cases)
  case (failed e)
  then show ?thesis using shows_page_made [OF inv V page_duplicate_makes] by simp
next
  case (copies p w1 i' s')
  note made = page_duplicate_makes [OF copies(1)]
  have "file_data w1 (cp_backing page) = file_data w (cp_backing page)"
    using made pages_okD(3) [OF cache_invD(1) [OF inv] page(1)] by (intro file_data_cong) (simp add: makes_page_def)
  then show ?thesis
    using page_duplicate_data [OF copies(1)]
    by (intro shows_copied [OF makes_new_page(2) [OF inv made room(1)] shows_page_made [OF inv V made] copies(3) page(1)]) simp
qed

lemma shows_hold:
  assumes "map_of (cs_branches cs) b = Some br" "map_page_hold b key fl p (cs, w) = (r, (cs', w'))" "shows_views V (cs, w)"
  shows "shows_views V (cs', w')"
  using assms(1,2) shows_branch_update [OF assms(3,1), of "br\<lparr>cb_active_pages := bm_incr (cp_id p) (cb_active_pages br)\<rparr>" cs']
  by (auto simp: map_page_hold_def mbind_apply update_branch_def put_branch_def)

lemma shows_map_page_loaded:
  assumes inv: "cache_inv live (cs, w)" and b: "map_of (cs_branches cs) b = Some br" "sees br (n, off) = Some i"
    and page: "map_of (cs_pages cs) i = Some page"
    and room: "next_cache_page_id w + 1 < u64_bound" "next_page_version w + 1 < u64_bound"
    and call: "map_page_loaded st b n off fl i page (cs, w) = (r, (cs', w'))" and V: "shows_views V (cs, w)"
  shows "shows_views V (cs', w')"
proof (cases "flags_contain fl WRITE \<and> (n, off) \<notin> cb_exclusive_pages br")
  case False
  then have "map_page_loaded st b n off fl i page (cs, w) = map_page_hold b (n, off) fl page (cs, w)"
    by (cases "flags_contain fl WRITE") (simp_all add: map_page_loaded_def mbind_apply b(1))
  then have "map_page_hold b (n, off) fl page (cs, w) = (r, (cs', w'))" using call by simp
  then show ?thesis by (rule shows_hold [OF b(1) _ V])
next
  case cow: True
  show ?thesis
  proof (cases "bm_count (cb_active_pages br) (cp_id page) = 0")
    case False
    then have "map_page_loaded st b n off fl i page (cs, w) = (Inl PageBusy, (cs, w))"
      using cow by (simp add: map_page_loaded_def mbind_apply b(1))
    then show ?thesis using call V by simp
  next
    case True
    obtain r1 cs1 w1 where cp: "map_page_copy st b i page n off (cs, w) = (r1, (cs1, w1))" by (metis prod.exhaust)
    note K = map_page_copy_inv [OF inv b page True room cp]
      and V1 = shows_map_page_copy [OF inv b page True room cp V]
    have run: "map_page_loaded st b n off fl i page (cs, w) = (case r1 of Inl e \<Rightarrow> (Inl e, (cs1, w1))
        | Inr q \<Rightarrow> map_page_hold b (n, off) fl q (cs1, w1))"
      using cow True b(1) cp by (simp add: map_page_loaded_def mbind_apply split: sum.splits)
    show ?thesis
    proof (cases r1)
      case (Inl e)
      then show ?thesis using run call V1 by simp
    next
      case (Inr q)
      then obtain br' where "map_of (cs_branches cs1) b = Some br'" using K by blast
      moreover have "map_page_hold b (n, off) fl q (cs1, w1) = (r, (cs', w'))" using run call Inr by simp
      ultimately show ?thesis by (rule shows_hold [OF _ _ V1])
    qed
  qed
qed

text \<open>
  Mapping a page changes no branch's view, on any outcome; the mapping shows the page of its
  branch.
\<close>

lemma map_page_views:
  assumes inv: "cache_inv live (cs, w)" and room: "room 1 w" and call: "map_page st b n off fl (cs, w) = (r, (cs', w'))"
    and V: "shows_views V (cs, w)"
  shows "shows_views V (cs', w')"
proof (cases "off mod PAGE_SIZE = 0 \<and> flags_intersect fl (READ OR WRITE) \<and>
    (\<exists>br i. map_of (cs_branches cs) b = Some br \<and> bm_count (cb_open_nodes br) n \<noteq> 0 \<and> sees br (n, off) = Some i)")
  case False
  note idc = identity_call [OF cache_invD(7) [OF inv], of b n off w]
  have "cs' = cs \<and> w' = w"
    using False call idc by (cases "map_of (cs_branches cs) b")
      (auto simp: map_page_def mbind_apply split: if_splits option.splits)
  then show ?thesis using V by simp
next
  case True
  then obtain br i where good: "off mod PAGE_SIZE = 0" "flags_intersect fl (READ OR WRITE)"
    "map_of (cs_branches cs) b = Some br" "bm_count (cb_open_nodes br) n \<noteq> 0" "sees br (n, off) = Some i" by auto
  note idc = identity_call [OF cache_invD(7) [OF inv], of b n off w, unfolded good(3)]
  obtain r1 cs1 w1 where ld: "load_page st b i n off (cs, w) = (r1, (cs1, w1))" by (metis prod.exhaust)
  have room1: "next_cache_page_id w + 1 < u64_bound" using room by (simp add: room_def)
  note L = load_page_inv [OF inv good(3,5) room1 ld]
  have run: "map_page st b n off fl (cs, w) = (case r1 of Inl e \<Rightarrow> (Inl e, (cs1, w1))
      | Inr p \<Rightarrow> map_page_loaded st b n off fl i p (cs1, w1))"
    using good idc ld by (simp add: map_page_def mbind_apply split: sum.splits)
  have kept: "kept cs w cs1 w1" using L by blast
  note V1 = shows_kept [OF V kept]
  show ?thesis
  proof (cases r1)
    case (Inl e)
    then show ?thesis using run call V1 by simp
  next
    case (Inr p)
    obtain br1 where br1: "map_of (cs_branches cs1) b = Some br1" "alike br br1" by (rule kept_branch [OF kept good(3)])
    have s: "sees br1 (n, off) = Some i" using good(5) alike_sees [OF br1(2)] by simp
    have "cache_inv live (cs1, w1)" "map_of (cs_pages cs1) i = Some p" "next_cache_page_id w1 + 1 < u64_bound"
      "next_page_version w1 + 1 < u64_bound"
      using L Inr room kept by (auto simp: room_def kept_def)
    from shows_map_page_loaded [OF this(1) br1(1) s this(2-4) call [unfolded run Inr, simplified] V1] show ?thesis .
  qed
qed

lemma map_page_shows:
  assumes inv: "cache_inv live (cs, w)" and room: "room 1 w" and call: "map_page st b n off fl (cs, w) = (Inr m, (cs', w'))"
  shows "view cs' w' b (n, off) = Some (take PAGE_SIZE (file_data w' (cp_backing (dm_page m))))"
proof -
  have "cache_inv (m # live) (cs', w')" "dm_branch m = b" "dm_key m = (n, off)"
    using map_page_inv [OF assms] by (auto simp: mapped_def)
  then have "mapping_ok cs' m" "dm_branch m = b" "dm_key m = (n, off)"
    using cache_invD(6) [of "m # live" cs' w'] by (auto simp: live_ok_def)
  then show ?thesis by (auto elim!: mapping_okE intro: viewI)
qed

end


section \<open>Stores through mappings\<close>

context forkable_store
begin

definition same_page :: "page_key \<Rightarrow> page_key \<Rightarrow> bool" where
  "same_page k k' \<longleftrightarrow> fst k = fst k' \<and> snd k div PAGE_SIZE = snd k' div PAGE_SIZE"

lemma sees_same_page: "same_page k k' \<Longrightarrow> sees br k = sees br k'"
  by (simp add: sees_def same_page_def)

lemma exclusive_backing:
  assumes inv: "cache_inv live (cs, w)" and m: "m \<in> set live" "flags_contain (dm_flags m) WRITE"
    and d: "map_of (cs_branches cs) d = Some brd" "sees brd key = Some i" "map_of (cs_pages cs) i = Some p"
    and other: "d \<noteq> dm_branch m \<or> \<not> same_page key (dm_key m)"
  shows "cp_backing p \<noteq> cp_backing (dm_page m)"
proof
  note D = cache_invD [OF inv]
  assume eq: "cp_backing p = cp_backing (dm_page m)"
  have "mapping_ok cs m" using D(6) m(1) by (simp add: live_ok_def)
  then obtain br j where br: "map_of (cs_branches cs) (dm_branch m) = Some br" "sees br (dm_key m) = Some j"
    "map_of (cs_pages cs) j = Some (dm_page m)" "flags_contain (dm_flags m) WRITE \<longrightarrow> dm_key m \<in> cb_exclusive_pages br"
    by (rule mapping_okE)
  have "i = j" using pages_okD(5) [OF D(1) d(3) br(3) eq] .
  then have page: "same_page key (dm_key m)"
    using keys_okD [OF D(3) d(1) br(1)] d(2) br(2) by (simp add: sees_def same_page_def)
  then have "d \<noteq> dm_branch m" using other by blast
  from exclusive_okD [OF D(4) br(1) _ br(2) this d(1)] show False
    using br(4) m(2) d(2) \<open>i = j\<close> sees_same_page [OF page] by simp
qed

lemma view_cong:
  assumes "map_of (cs_branches cs') b' = Some x" "map_of (cs_branches cs) b = Some y" "sees x key = sees y key"
    and "cs_pages cs' = cs_pages cs"
    and "\<And>i p. sees y key = Some i \<Longrightarrow> map_of (cs_pages cs) i = Some p \<Longrightarrow> file_data w' (cp_backing p) = file_data w (cp_backing p)"
  shows "view cs' w' b' key = view cs w b key"
proof (cases "sees y key")
  case (Some i)
  then show ?thesis using assms by (cases "map_of (cs_pages cs) i") (simp_all add: view_def)
qed (use assms in \<open>simp add: view_def\<close>)

lemma store_isolated:
  assumes inv: "cache_inv live (cs, w)" and m: "m \<in> set live" "flags_contain (dm_flags m) WRITE"
    and w': "\<And>h. h \<noteq> cp_backing (dm_page m) \<Longrightarrow> w_files w' h = w_files w h"
    and other: "d \<noteq> dm_branch m \<or> \<not> same_page key (dm_key m)"
  shows "view cs w' d key = view cs w d key"
proof -
  have "file_data w' (cp_backing p) = file_data w (cp_backing p)"
    if "map_of (cs_branches cs) d = Some brd" "sees brd key = Some i" "map_of (cs_pages cs) i = Some p" for brd i p
    using exclusive_backing [OF inv m that other] by (intro file_data_cong w')
  then show ?thesis
    by (cases "map_of (cs_branches cs) d") (simp add: view_def, rule view_cong, auto)
qed

section \<open>Forks and removals\<close>

lemma cache_fork_trace:
  assumes inv: "cache_inv live (cs, w)" and call: "cache_fork st src (cs, w) = (r, (cs', w'))"
  shows "(\<forall>i p. map_of (cs_pages cs) i = Some p \<longrightarrow> w_files w' (cp_backing p) = w_files w (cp_backing p)) \<and>
    cs_pages cs' = cs_pages cs \<and>
    (\<forall>d. d \<noteq> src \<longrightarrow> r \<noteq> Inr d \<longrightarrow> map_of (cs_branches cs') d = map_of (cs_branches cs) d) \<and>
    rel_option (\<lambda>br br'. sees br' = sees br) (map_of (cs_branches cs) src) (map_of (cs_branches cs') src)"
proof (cases "\<exists>br. map_of (cs_branches cs) src = Some br \<and> cb_active_pages br = []")
  case False
  then have "cs' = cs" "w' = w"
    using call by (cases "map_of (cs_branches cs) src"; auto simp: cache_fork_def mbind_apply split: if_splits)+
  then show ?thesis by (simp add: option.rel_refl)
next
  case True
  then obtain br where br: "map_of (cs_branches cs) src = Some br" "cb_active_pages br = []" by blast
  obtain r1 s1 w1 where fs: "fs_fork_store st (cb_store br, w) = (r1, (s1, w1))" by (metis prod.exhaust)
  note law = fork_law [OF fs]
  have "w_files w1 (cp_backing p) = w_files w (cp_backing p)" if "map_of (cs_pages cs) i = Some p" for i p
    using law pages_okD(3) [OF cache_invD(1) [OF inv] that] branches_okD(4) [OF cache_invD(2) [OF inv] br(1) that]
    by (simp add: calm_def)
  moreover have "w' = w1" "cs_pages cs' = cs_pages cs"
    "\<forall>d. d \<noteq> src \<longrightarrow> r \<noteq> Inr d \<longrightarrow> map_of (cs_branches cs') d = map_of (cs_branches cs) d"
    using call br fs by (cases r1; auto simp: cache_fork_def mbind_apply on_store.simps put_branch_def split_beta Let_def
        checked_add_def split: if_splits)+
  moreover have "CacheBranchId (cs_next_branch cs) \<noteq> src"
    using branches_okD(1) [OF cache_invD(2) [OF inv] br(1)] by auto
  then have "\<exists>br'. map_of (cs_branches cs') src = Some br' \<and> cb_store br' = s1"
    using call br fs by (cases r1; auto simp: cache_fork_def mbind_apply on_store.simps put_branch_def split_beta Let_def
        checked_add_def split: if_splits)
  then have "rel_option (\<lambda>br br'. sees br' = sees br) (map_of (cs_branches cs) src) (map_of (cs_branches cs') src)"
    using br law by (auto simp: sees_def fun_eq_iff)
  ultimately show ?thesis by simp
qed

text \<open>
  A fork changes no branch's view, whether it succeeds or not, and the child sees what its source
  sees.
\<close>

lemma cache_fork_views:
  assumes inv: "cache_inv live (cs, w)" and call: "cache_fork st src (cs, w) = (r, (cs', w'))"
    and d: "map_of (cs_branches cs) d \<noteq> None"
  shows "view cs' w' d key = view cs w d key" "r = Inr child \<Longrightarrow> view cs' w' child key = view cs w src key"
proof -
  note T = cache_fork_trace [OF inv call] and F = cache_fork_inv [OF inv call]
  have same: "view cs' w' b key = view cs w b' key"
    if "map_of (cs_branches cs') b = Some x" "map_of (cs_branches cs) b' = Some y" "sees x = sees y" for b b' x y
    by (rule view_cong [OF that(1,2)]) (use that(3) T in \<open>auto intro: file_data_cong\<close>)
  obtain brd where brd: "map_of (cs_branches cs) d = Some brd" using d by blast
  show "view cs' w' d key = view cs w d key"
  proof (cases "d = src")
    case True
    then obtain br' where "map_of (cs_branches cs') src = Some br'" "sees br' = sees brd"
      using T brd by (auto simp: option.rel_sel)
    then show ?thesis using same brd True by blast
  next
    case False
    have "r \<noteq> Inr d" using F brd by auto
    then have "map_of (cs_branches cs') d = Some brd" using T False brd by simp
    then show ?thesis using same brd by blast
  qed
  assume "r = Inr child"
  with F obtain br brc where "map_of (cs_branches cs) src = Some br" "map_of (cs_branches cs') child = Some brc"
    "sees brc = sees br" by blast
  then show "view cs' w' child key = view cs w src key" using same by blast
qed

lemma remove_branch_views:
  assumes inv: "cache_inv live (cs, w)" and call: "remove_branch st b (cs, w) = (Inr (), (cs', w'))"
    and d: "d \<noteq> b" and known: "key \<in> set (cs_known_pages cs)"
  shows "view cs' w' d key = view cs w d key"
proof -
  have "\<exists>br. map_of (cs_branches cs) b = Some br \<and> cb_active_pages br = []"
    using call by (cases "map_of (cs_branches cs) b") (auto simp: remove_branch_def mbind_apply split: if_splits)
  then obtain br where br: "map_of (cs_branches cs) b = Some br" "cb_active_pages br = []" by blast
  let ?cs = "cs\<lparr>cs_branches := bm_remove b (cs_branches cs)\<rparr>"
  let ?vis = "{i. \<exists>key \<in> set (cs_known_pages cs). \<exists>d brd. d \<noteq> b \<and> map_of (cs_branches cs) d = Some brd \<and> sees brd key = Some i}"
  have "bm_wf (cs_branches ?cs)" using cache_invD(7) [OF inv] by simp
  from visible_identities_call [OF this, of "cs_known_pages cs" "{}" w]
  have "visible_identities st (cs_known_pages cs) {} (?cs, w) = (Inr ?vis, (?cs, w))" by (auto simp: fun_upd_apply)
  then have res: "w' = w" "cs' = cs\<lparr>cs_branches := bm_remove b (cs_branches cs),
      cs_pages := bm_retain (\<lambda>i. i \<in> ?vis) (cs_pages cs)\<rparr>"
    using call br by (simp_all add: remove_branch_def mbind_apply)
  have "i \<in> ?vis" if "map_of (cs_branches cs) d = Some brd" "sees brd key = Some i" for brd i
    using that d known by blast
  then show ?thesis using d by (auto simp: view_def res split: option.splits)
qed

end

end
