(* ===== verification/CacheBytes.thy ===== *)
theory CacheBytes
  imports CacheViews
begin

text \<open>
  Reads and writes of the cache byte by byte: a read returns the bytes that its branch shows, a
  write changes those of its range and no others, whatever branches, files and pages there are,
  and whatever the host does.
\<close>

section \<open>Branches stay\<close>

abbreviation (input) has_branch :: "cache_branch_id \<Rightarrow> ('s, 'i) cache_state \<times> world \<Rightarrow> bool" where
  "has_branch d \<equiv> \<lambda>(cs, w). map_of (cs_branches cs) d \<noteq> None"

lemma has_on_store: "keeps (has_branch d) (on_store b m)"
  by (rule keeps_pairI) (auto simp: on_store.simps split: option.splits prod.splits if_splits)

lemma has_update: "keeps (has_branch d) (update_branch b f)"
  by (rule keeps_pairI) (auto simp: update_branch_def put_branch_def mbind_apply split: option.splits if_splits)

lemma has_modify:
  "(\<And>cs. cs_branches (f cs) = cs_branches cs) \<Longrightarrow> keeps (has_branch d) (modify (\<lambda>(cs, w). (f cs, w)))"
  by (rule keeps_pairI) simp

lemma has_world: "keeps (has_branch d) (on_world m)"
  by (rule keeps_pairI) (auto simp: on_world_apply split: prod.splits)

lemma has_branch_mut: "keeps P (branch_mut b)"
  by (rule keeps_pairI) (auto split: option.splits)

lemmas has_intros = has_on_store has_update has_modify has_world has_branch_mut keeps_intros

lemma has_any_sees: "keeps (has_branch d) (any_sees_identity st i n off bs)"
proof (induction bs)
  case Nil
  then show ?case unfolding any_sees_identity.simps by (intro has_intros)
next
  case (Cons b bs)
  show ?case unfolding any_sees_identity.simps by (intro has_intros Cons.IH)
qed

lemma has_load_page: "keeps (has_branch d) (load_page st b i n off)"
  unfolding load_page_def by (intro has_intros) simp

lemma has_map_page_copy: "keeps (has_branch d) (map_page_copy st b i p n off)"
  unfolding map_page_copy_def by (intro has_intros has_any_sees) simp_all

lemma has_map_page: "keeps (has_branch d) (map_page st b n off fl)"
  unfolding map_page_def map_page_loaded_def map_page_hold_def Let_def
  by (intro has_intros has_load_page has_map_page_copy) simp_all

section \<open>Cells\<close>

lemma bslice_nth_within:
  assumes "j < length (bslice off len d)"
  shows "off + j < length d" "bslice off len d ! j = d ! (off + j)"
  using assms by (auto simp: bslice_def)

definition byte_at :: "nat \<Rightarrow> bytes option \<Rightarrow> 8 word option" where
  "byte_at i v = (case v of None \<Rightarrow> None | Some bs \<Rightarrow> if i < length bs then Some (bs ! i) else None)"

lemma byte_at_Some: "byte_at i v = Some x \<longleftrightarrow> (\<exists>bs. v = Some bs \<and> i < length bs \<and> bs ! i = x)"
  by (auto simp: byte_at_def split: option.splits)

context forkable_store
begin

definition cell :: "('s, 'i) cache_state \<Rightarrow> world \<Rightarrow> cache_branch_id \<Rightarrow> node_id \<Rightarrow> nat \<Rightarrow> 8 word option" where
  "cell cs w b node i = byte_at (i mod PAGE_SIZE) (view cs w b (node, i div PAGE_SIZE * PAGE_SIZE))"

text \<open>All bytes outside the set \<open>X\<close> of places are as they were.\<close>

definition same_cells :: "(cache_branch_id \<times> node_id \<times> nat) set \<Rightarrow> ('s, 'i) cache_state \<times> world \<Rightarrow>
    ('s, 'i) cache_state \<times> world \<Rightarrow> bool" where
  "same_cells X s s' \<longleftrightarrow> (\<forall>d n i x. (d, n, i) \<notin> X \<longrightarrow> cell (fst s) (snd s) d n i = Some x \<longrightarrow>
     cell (fst s') (snd s') d n i = Some x)"

lemma same_cellsD: "same_cells X (cs, w) (cs', w') \<Longrightarrow> (d, n, i) \<notin> X \<Longrightarrow> cell cs w d n i = Some x \<Longrightarrow> cell cs' w' d n i = Some x"
  by (simp add: same_cells_def)

lemma same_cells_refl [simp]: "same_cells X s s"
  by (simp add: same_cells_def)

lemma same_cells_trans: "same_cells X s s1 \<Longrightarrow> same_cells Y s1 s2 \<Longrightarrow> X \<subseteq> Z \<Longrightarrow> Y \<subseteq> Z \<Longrightarrow> same_cells Z s s2"
  unfolding same_cells_def by blast

lemma same_cells_mono: "same_cells X s s' \<Longrightarrow> X \<subseteq> Y \<Longrightarrow> same_cells Y s s'"
  unfolding same_cells_def by blast

lemma same_cells_views:
  assumes "shows_views (view cs w) (cs', w')" "\<And>d. has_branch d (cs, w) \<Longrightarrow> has_branch d (cs', w')"
  shows "same_cells X (cs, w) (cs', w')"
  unfolding same_cells_def
proof (intro allI impI)
  fix d n i x assume c: "cell (fst (cs, w)) (snd (cs, w)) d n i = Some x"
  then obtain bs where v: "view cs w d (n, i div PAGE_SIZE * PAGE_SIZE) = Some bs" by (auto simp: cell_def byte_at_Some)
  then have "has_branch d (cs, w)" by (auto elim: viewE)
  from shows_viewsD [OF assms(1) v] assms(2) [OF this] have "view cs' w' d (n, i div PAGE_SIZE * PAGE_SIZE) = Some bs" by simp
  then show "cell (fst (cs', w')) (snd (cs', w')) d n i = Some x" using c v by (simp add: cell_def)
qed

lemma map_page_cells:
  assumes inv: "cache_inv live (cs, w)" and room: "room 1 w" and call: "map_page st b n off fl (cs, w) = (r, (cs', w'))"
  shows "same_cells X (cs, w) (cs', w')"
proof (rule same_cells_views)
  show "shows_views (view cs w) (cs', w')" by (rule map_page_views [OF assms]) simp
  show "has_branch d (cs', w')" if "has_branch d (cs, w)" for d
    using keepsD [OF has_map_page call that] .
qed

lemma shows_put_branch:
  assumes "map_of (cs_branches cs) b = Some br" "cb_store br' = cb_store br"
  shows "shows_views (view cs w) (cs\<lparr>cs_branches := bm_insert b br' (cs_branches cs)\<rparr>, w)"
  by (rule shows_branch_update [OF shows_views_refl assms]) simp_all

lemma unmap_cells:
  assumes "unmap b m (cs, w) = (r, (cs', w'))"
  shows "same_cells X (cs, w) (cs', w')" "w' = w"
proof -
  let ?count = "\<lambda>br. map_of (cb_active_pages br) (cp_id (dm_page m))"
  have "shows_views (view cs w) (cs', w') \<and> w' = w \<and> (\<forall>d. has_branch d (cs, w) \<longrightarrow> has_branch d (cs', w'))"
  proof (cases "map_of (cs_branches cs) b")
    case (Some br)
    then show ?thesis using assms
      by (cases "?count br"; cases "the (?count br)")
        (auto simp: unmap_def mbind_apply update_branch_def put_branch_def Let_def checked_sub_def
          split: if_splits intro!: shows_put_branch)
  qed (use assms in \<open>auto simp: unmap_def mbind_apply split: if_splits\<close>)
  then show "same_cells X (cs, w) (cs', w')" "w' = w" by (auto intro!: same_cells_views)
qed

lemma world_cells:
  assumes "same_but_tick w w'" shows "same_cells X (cs, w) (cs, w')"
proof -
  have "view cs w' = view cs w" unfolding view_def same_but_tickD(5) [OF assms] ..
  then show ?thesis by (simp add: same_cells_def cell_def)
qed

lemma mapping_view:
  assumes "cache_inv live (cs, w)" "m \<in> set live"
  shows "view cs w (dm_branch m) (dm_key m) = Some (take PAGE_SIZE (file_data w (cp_backing (dm_page m))))"
  using cache_invD(6) [OF assms(1)] assms(2) by (auto simp: live_ok_def elim!: mapping_okE intro: viewI)

lemma mapping_cell:
  assumes "cache_inv live (cs, w)" "m \<in> set live" "dm_key m = (n, i div PAGE_SIZE * PAGE_SIZE)"
  shows "cell cs w (dm_branch m) n i =
    byte_at (i mod PAGE_SIZE) (Some (take PAGE_SIZE (file_data w (cp_backing (dm_page m)))))"
  using mapping_view [OF assms(1,2)] assms(3) by (simp add: cell_def)

end


section \<open>One round of a read or a write\<close>

context forkable_store
begin

definition holds_cells :: "cache_branch_id \<Rightarrow> node_id \<Rightarrow> nat \<Rightarrow> bytes \<Rightarrow> ('s, 'i) cache_state \<times> world \<Rightarrow> bool" where
  "holds_cells b n start bs s \<longleftrightarrow> (\<forall>j < length bs. cell (fst s) (snd s) b n (start + j) = Some (bs ! j))"

lemma holds_cellsD: "holds_cells b n start bs (cs, w) \<Longrightarrow> j < length bs \<Longrightarrow> cell cs w b n (start + j) = Some (bs ! j)"
  by (simp add: holds_cells_def)

lemma holds_cells_Nil [simp]: "holds_cells b n start [] s"
  by (simp add: holds_cells_def)

lemma holds_cells_same:
  "holds_cells b n start bs s \<Longrightarrow> same_cells X s s' \<Longrightarrow> (\<And>j. j < length bs \<Longrightarrow> (b, n, start + j) \<notin> X) \<Longrightarrow>
    holds_cells b n start bs s'"
  by (simp add: holds_cells_def same_cells_def)

lemma holds_cells_append:
  assumes "holds_cells b n start xs s" "holds_cells b n (start + length xs) ys s"
  shows "holds_cells b n start (xs @ ys) s"
  unfolding holds_cells_def
proof (intro allI impI)
  fix j assume "j < length (xs @ ys)"
  then show "cell (fst s) (snd s) b n (start + j) = Some ((xs @ ys) ! j)"
    using assms(1) assms(2) [unfolded holds_cells_def, rule_format, of "j - length xs"]
    by (cases "j < length xs") (simp_all add: holds_cells_def nth_append)
qed

text \<open>
  What an access to the file of a mapping does: it changes cells in \<open>X\<close> only, and when it returns
  \<open>x\<close> the bytes \<open>got x\<close> are shown from \<open>start\<close> on.
\<close>

definition accesses :: "dax_page_mapping list \<Rightarrow> cache_branch_id \<Rightarrow> node_id \<Rightarrow> nat \<Rightarrow> map_flags \<Rightarrow>
    (cache_branch_id \<times> node_id \<times> nat) set \<Rightarrow> nat \<Rightarrow> nat \<Rightarrow> ('x \<Rightarrow> bytes) \<Rightarrow> (dax_page_mapping \<Rightarrow> (world, 'e, 'x) meth) \<Rightarrow> bool" where
  "accesses live b n off fl X start len got act \<longleftrightarrow> (\<forall>m cs w r w'.
     cache_inv (m # live) (cs, w) \<longrightarrow> dm_branch m = b \<longrightarrow> dm_key m = (n, off) \<longrightarrow> dm_flags m = fl \<longrightarrow> act m w = (r, w') \<longrightarrow>
     same_cells X (cs, w) (cs, w') \<and> (\<forall>x. r = Inr x \<longrightarrow> length (got x) = len \<and> holds_cells b n start (got x) (cs, w')))"

lemma accessesD:
  assumes "accesses live b n off fl X start len got act" "cache_inv (m # live) (cs, w)" "dm_branch m = b"
    "dm_key m = (n, off)" "dm_flags m = fl" "act m w = (r, w')"
  shows "same_cells X (cs, w) (cs, w')" "r = Inr x \<Longrightarrow> length (got x) = len \<and> holds_cells b n start (got x) (cs, w')"
  using assms unfolding accesses_def by blast+

lemma access_cells:
  assumes inv: "cache_inv live (cs, w)" and room: "room (Suc k) w"
    and act: "\<And>m. harmless (act m)" "accesses live b n off fl X start len got act"
    and call: "mbind (map_page st b n off fl) (\<lambda>m. mbind (map_err Io (on_world (act m))) (\<lambda>x.
      mbind (unmap b m) (\<lambda>_. rest x))) (cs, w) = (r, (cs', w'))"
  shows "(\<exists>e. r = Inl e) \<and> same_cells X (cs, w) (cs', w') \<or>
    (\<exists>x cs1 w1. cache_inv live (cs1, w1) \<and> room k w1 \<and> same_cells X (cs, w) (cs1, w1) \<and> length (got x) = len \<and>
      holds_cells b n start (got x) (cs1, w1) \<and> rest x (cs1, w1) = (r, (cs', w')))"
proof -
  obtain rm cs1 w1 where mp: "map_page st b n off fl (cs, w) = (rm, (cs1, w1))" by (metis prod.exhaust)
  have room1: "room 1 w" using room by (rule room_mono) simp
  note M = map_page_inv [OF inv room1 mp] and C1 = map_page_cells [OF inv room1 mp]
  show ?thesis
  proof (cases rm)
    case (Inl e)
    then show ?thesis using C1 call mp by (auto simp: mbind_apply)
  next
    case (Inr m)
    then have inv1: "cache_inv (m # live) (cs1, w1)" and m: "dm_branch m = b" "dm_key m = (n, off)" "dm_flags m = fl"
      using M by (auto simp: mapped_def)
    obtain ra w2 where ac: "act m w1 = (ra, w2)" by (metis prod.exhaust)
    have A: "world_grows w1 w2" "next_cache_page_id w2 = next_cache_page_id w1"
      using act(1) [of m] ac by (auto simp: harmless_def)
    have inv2: "cache_inv (m # live) (cs1, w2)" using inv_world [OF inv1] A by blast
    note E = accessesD [OF act(2) inv1 m ac]
    have C2: "same_cells X (cs, w) (cs1, w2)" by (rule same_cells_trans [OF C1 [of X] E(1)]) simp_all
    show ?thesis
    proof (cases ra)
      case (Inl e)
      then show ?thesis using C2 call mp Inr ac by (auto simp: mbind_apply map_err_apply on_world_apply)
    next
      case (Inr x)
      obtain cs2 where un: "unmap (dm_branch m) m (cs1, w2) = (Inr (), (cs2, w2))"
        "cache_inv (remove1 m (m # live)) (cs2, w2)" by (rule unmap_inv [OF inv2, of m]) simp_all
      note C3 = unmap_cells(1) [OF un(1)]
      have "rest x (cs2, w2) = (r, (cs', w'))"
        using call mp \<open>rm = Inr m\<close> ac Inr un(1) m(1) by (simp add: mbind_apply map_err_apply on_world_apply)
      moreover have "room k w2" using A M by (intro room_step [OF room]) (auto simp: world_grows_def)
      moreover have "same_cells X (cs, w) (cs2, w2)" by (rule same_cells_trans [OF C2 C3 [of X]]) simp_all
      moreover have "holds_cells b n start (got x) (cs2, w2)"
        using E(2) [OF Inr] by (intro holds_cells_same [OF _ C3 [of "{}"]]) auto
      ultimately show ?thesis using un(2) E(2) [OF Inr] by auto
    qed
  qed
qed

end


section \<open>Reads\<close>

context forkable_store
begin

text \<open>The places from \<open>start\<close> to \<open>stop\<close> of a file of a branch.\<close>

definition places :: "cache_branch_id \<Rightarrow> node_id \<Rightarrow> nat \<Rightarrow> nat \<Rightarrow> (cache_branch_id \<times> node_id \<times> nat) set" where
  "places b n start stop = {b} \<times> {n} \<times> {start..<stop}"

lemma read_accesses:
  assumes "cursor < end'"
  shows "accesses live b n (cursor div PAGE_SIZE * PAGE_SIZE) fl {} cursor (page_chunk cursor end') (\<lambda>bs. bs)
    (\<lambda>m. std_read_exact_at (cp_backing (dm_page m)) (page_chunk cursor end') (cursor mod PAGE_SIZE))"
  unfolding accesses_def
proof (intro allI impI conjI)
  fix m cs w r w' x assume inv: "cache_inv (m # live) (cs, w)" and m: "dm_branch m = b" "dm_key m = (n, cursor div PAGE_SIZE * PAGE_SIZE)"
    and call: "std_read_exact_at (cp_backing (dm_page m)) (page_chunk cursor end') (cursor mod PAGE_SIZE) w = (r, w')"
  let ?len = "page_chunk cursor end'" and ?d = "file_data w (cp_backing (dm_page m))"
  note S = read_full_sound [OF call [unfolded transfer_defs]]
  show C: "same_cells {} (cs, w) (cs, w')" using S world_cells by blast
  assume "r = Inr x"
  then have x: "x = bslice (cursor mod PAGE_SIZE) ?len ?d" "length x = ?len" using S by auto
  show "length x = ?len" by (rule x(2))
  have "holds_cells b n cursor x (cs, w)"
    unfolding holds_cells_def
  proof (intro allI impI)
    fix j assume j: "j < length x"
    have i: "(cursor + j) div PAGE_SIZE = cursor div PAGE_SIZE" "(cursor + j) mod PAGE_SIZE = cursor mod PAGE_SIZE + j"
      using page_chunk_page [of cursor "cursor + j" end'] j x(2) by simp_all
    have bound: "cursor mod PAGE_SIZE + j < PAGE_SIZE" unfolding i(2) [symmetric] by (rule mod_less_divisor) simp
    have "cell cs w b n (cursor + j) = byte_at (cursor mod PAGE_SIZE + j) (Some (take PAGE_SIZE ?d))"
      using mapping_cell [OF inv, of m n "cursor + j"] m unfolding i by simp
    moreover have "cursor mod PAGE_SIZE + j < length ?d" "?d ! (cursor mod PAGE_SIZE + j) = x ! j"
      using bslice_nth_within [of j "cursor mod PAGE_SIZE" ?len ?d] j unfolding x(1) [symmetric] by simp_all
    ultimately show "cell (fst (cs, w)) (snd (cs, w)) b n (cursor + j) = Some (x ! j)" using bound by (simp add: byte_at_def)
  qed
  then show "holds_cells b n cursor x (cs, w')" by (rule holds_cells_same [OF _ C]) simp
qed

lemma cache_read_loop_cells:
  assumes "cache_inv live (cs, w)" "room (pages_spanned cursor end') w"
    and "cache_read_loop st b n end' cursor acc (cs, w) = (r, (cs', w'))"
  shows "same_cells {} (cs, w) (cs', w') \<and> (\<forall>bs. r = Inr bs \<longrightarrow>
    (\<exists>tail. bs = acc @ tail \<and> length tail = end' - cursor \<and> holds_cells b n cursor tail (cs', w')))"
  using assms
proof (induction "end' - cursor" arbitrary: cursor acc cs w rule: less_induct)
  case less
  show ?case
  proof (cases "cursor < end'")
    case False
    then show ?thesis using less.prems by (auto simp: cache_read_loop.simps holds_cells_def)
  next
    case True
    define len where "len = page_chunk cursor end'"
    have bounds: "cursor + len \<le> end'" using page_chunk_bounds(2) [OF True] by (simp add: len_def)
    have room: "room (Suc (pages_spanned (cursor + len) end')) w"
      using less.prems(2) pages_spanned_step [OF True] by (simp add: len_def)
    have call: "mbind (map_page st b n (cursor div PAGE_SIZE * PAGE_SIZE) READ) (\<lambda>m.
        mbind (map_err Io (on_world (std_read_exact_at (cp_backing (dm_page m)) len (cursor mod PAGE_SIZE)))) (\<lambda>chunk.
        mbind (unmap b m) (\<lambda>_. cache_read_loop st b n end' (cursor + len) (acc @ chunk)))) (cs, w) = (r, (cs', w'))"
      using less.prems(3) True by (simp add: cache_read_loop.simps [of st b n end' cursor] Let_def minus_div_mult_eq_mod len_def)
    from access_cells [OF less.prems(1) room harmless_read read_accesses [OF True, folded len_def] call]
    show ?thesis
    proof (elim disjE exE conjE)
      fix e assume "r = Inl e" "same_cells {} (cs, w) (cs', w')"
      then show ?thesis by simp
    next
      fix chunk cs1 w1 assume R: "cache_inv live (cs1, w1)" "room (pages_spanned (cursor + len) end') w1"
        "same_cells {} (cs, w) (cs1, w1)" "length chunk = len" "holds_cells b n cursor chunk (cs1, w1)"
        "cache_read_loop st b n end' (cursor + len) (acc @ chunk) (cs1, w1) = (r, (cs', w'))"
      note IH = less.hyps [OF page_chunk_measure [OF True, folded len_def] R(1,2,6)]
      have C: "same_cells {} (cs1, w1) (cs', w')" using IH by blast
      have H: "holds_cells b n cursor chunk (cs', w')" by (rule holds_cells_same [OF R(5) C]) simp
      have "\<exists>tail. bs = acc @ tail \<and> length tail = end' - cursor \<and> holds_cells b n cursor tail (cs', w')"
        if bs: "r = Inr bs" for bs
      proof -
        obtain tail where t: "bs = (acc @ chunk) @ tail" "length tail = end' - (cursor + len)"
          "holds_cells b n (cursor + len) tail (cs', w')" using IH bs by blast
        have "holds_cells b n cursor (chunk @ tail) (cs', w')" using holds_cells_append [OF H] t(3) R(4) by simp
        moreover have "length (chunk @ tail) = end' - cursor" using t(2) R(4) bounds by simp
        ultimately show ?thesis using t(1) by (intro exI [of _ "chunk @ tail"]) simp
      qed
      then show ?thesis using same_cells_trans [OF R(3) C, of "{}"] by simp
    qed
  qed
qed

end


section \<open>Writes\<close>

context forkable_store
begin

lemma places_iff [simp]: "(d, n', i) \<in> places b n start stop \<longleftrightarrow> d = b \<and> n' = n \<and> start \<le> i \<and> i < stop"
  by (auto simp: places_def)

text \<open>Bytes that went through a write mapping into its page, as cells.\<close>

lemma page_write_cells:
  assumes inv: "cache_inv live (cs, w)" and m: "m \<in> set live" "flags_contain (dm_flags m) WRITE"
    "dm_key m = (n, cursor div PAGE_SIZE * PAGE_SIZE)"
    and wr: "wrote w w' (cp_backing (dm_page m)) (cursor mod PAGE_SIZE) src" and fits: "cursor mod PAGE_SIZE + length src \<le> PAGE_SIZE"
    and inv': "cache_inv live (cs, w')"
  shows "same_cells (places (dm_branch m) n cursor (cursor + length src)) (cs, w) (cs, w')"
    "holds_cells (dm_branch m) n cursor src (cs, w')"
proof -
  let ?h = "cp_backing (dm_page m)" and ?o = "cursor mod PAGE_SIZE"
  let ?d = "file_data w ?h" and ?d' = "file_data w' ?h"
  have data: "?d' = overwrite ?d ?o src" if "src \<noteq> []" using wroteD(6) [OF wr that] .
  have at: "cell cs v (dm_branch m) n i = byte_at (i mod PAGE_SIZE) (Some (take PAGE_SIZE (file_data v ?h)))"
    if "cache_inv live (cs, v)" "i div PAGE_SIZE = cursor div PAGE_SIZE" for v i
    using mapping_cell [OF that(1) m(1), of n i] m(3) that(2) by simp
  show "same_cells (places (dm_branch m) n cursor (cursor + length src)) (cs, w) (cs, w')"
    unfolding same_cells_def fst_conv snd_conv
  proof (intro allI impI)
    fix d n' i x assume out: "(d, n', i) \<notin> places (dm_branch m) n cursor (cursor + length src)"
      and c: "cell cs w d n' i = Some x"
    show "cell cs w' d n' i = Some x"
    proof (cases "src = [] \<or> d \<noteq> dm_branch m \<or> n' \<noteq> n \<or> i div PAGE_SIZE \<noteq> cursor div PAGE_SIZE")
      case True
      have "view cs w' d (n', i div PAGE_SIZE * PAGE_SIZE) = view cs w d (n', i div PAGE_SIZE * PAGE_SIZE)"
      proof (cases "src = []")
        case True
        show ?thesis unfolding view_def wroteD(7) [OF wr True] ..
      next
        case False
        then have "d \<noteq> dm_branch m \<or> \<not> same_page (n', i div PAGE_SIZE * PAGE_SIZE) (dm_key m)"
          using True m(3) by (auto simp: same_page_def)
        from store_isolated [OF inv m(1,2) _ this] wroteD(4) [OF wr] show ?thesis by blast
      qed
      then show ?thesis using c by (simp add: cell_def)
    next
      case False
      then have i: "d = dm_branch m" "n' = n" "i div PAGE_SIZE = cursor div PAGE_SIZE" "src \<noteq> []" by auto
      have "i < cursor \<or> cursor + length src \<le> i" using out i by auto
      then have "i mod PAGE_SIZE < ?o \<or> ?o + length src \<le> i mod PAGE_SIZE"
        using page_mod_offset(1,2) [OF i(3)] by (meson not_less)
      then show ?thesis
        using c at [OF inv i(3)] at [OF inv' i(3)] nth_overwrite(2) [of "i mod PAGE_SIZE" ?o src ?d] data [OF i(4)] i(1,2)
        by (auto simp: byte_at_def length_overwrite split: if_splits)
    qed
  qed
  show "holds_cells (dm_branch m) n cursor src (cs, w')"
    unfolding holds_cells_def fst_conv snd_conv
  proof (intro allI impI)
    fix j assume j: "j < length src"
    have i: "(cursor + j) div PAGE_SIZE = cursor div PAGE_SIZE" "(cursor + j) mod PAGE_SIZE = ?o + j"
      using page_chunk_page [of cursor "cursor + j" "cursor + length src"] j fits by simp_all
    have "?o + j < PAGE_SIZE" "src \<noteq> []" using fits j by auto
    then show "cell cs w' (dm_branch m) n (cursor + j) = Some (src ! j)"
      using at [OF inv' i(1)] j data nth_overwrite(1) [of ?o "?o + j" src ?d]
      unfolding i(2) by (simp add: byte_at_def length_overwrite)
  qed
qed

end


context forkable_store
begin

lemma write_accesses:
  assumes "cursor < offset + length buf" "offset \<le> cursor" "flags_contain fl WRITE"
  shows "accesses live b n (cursor div PAGE_SIZE * PAGE_SIZE) fl
    (places b n cursor (cursor + page_chunk cursor (offset + length buf))) cursor (page_chunk cursor (offset + length buf))
    (\<lambda>_. bslice (cursor - offset) (page_chunk cursor (offset + length buf)) buf)
    (\<lambda>m. std_write_all_at (cp_backing (dm_page m)) (bslice (cursor - offset) (page_chunk cursor (offset + length buf)) buf)
      (cursor mod PAGE_SIZE))"
  unfolding accesses_def
proof (intro allI impI)
  fix m cs w r w' assume inv: "cache_inv (m # live) (cs, w)" and m: "dm_branch m = b" "dm_flags m = fl"
    "dm_key m = (n, cursor div PAGE_SIZE * PAGE_SIZE)"
  define len where "len = page_chunk cursor (offset + length buf)"
  define src where "src = bslice (cursor - offset) len buf"
  assume "std_write_all_at (cp_backing (dm_page m)) (bslice (cursor - offset) (page_chunk cursor (offset + length buf)) buf)
      (cursor mod PAGE_SIZE) w = (r, w')"
  then have call: "std_write_all_at (cp_backing (dm_page m)) src (cursor mod PAGE_SIZE) w = (r, w')"
    by (simp add: src_def len_def)
  have "cursor + len \<le> offset + length buf" "cursor mod PAGE_SIZE + len \<le> PAGE_SIZE"
    using page_chunk_bounds(2,3) [OF assms(1)] by (simp_all add: len_def)
  then have fits: "cursor mod PAGE_SIZE + len \<le> PAGE_SIZE" "length src = len"
    using assms(2) by (simp_all add: src_def bslice_def)
  obtain k where k: "k \<le> length src" "wrote w w' (cp_backing (dm_page m)) (cursor mod PAGE_SIZE) (take k src)"
    "r = Inr () \<longrightarrow> k = length src" using write_full_sound [OF call [unfolded transfer_defs]] by blast
  have inv': "cache_inv (m # live) (cs, w')"
    using harmless_write [of "cp_backing (dm_page m)" src "cursor mod PAGE_SIZE"] call by (auto simp: harmless_def intro: inv_world [OF inv])
  have w: "flags_contain (dm_flags m) WRITE" "cursor mod PAGE_SIZE + length (take k src) \<le> PAGE_SIZE"
    using assms(3) m(2) fits k(1) by simp_all
  have min: "m \<in> set (m # live)" by simp
  note P = page_write_cells [OF inv min w(1) m(3) k(2) w(2) inv', unfolded m(1)]
  have "same_cells (places b n cursor (cursor + len)) (cs, w) (cs, w')"
    by (rule same_cells_mono [OF P(1)]) (use k(1) fits(2) in \<open>auto simp: places_def\<close>)
  then show "same_cells (places b n cursor (cursor + page_chunk cursor (offset + length buf))) (cs, w) (cs, w') \<and>
      (\<forall>x. r = Inr x \<longrightarrow> length (bslice (cursor - offset) (page_chunk cursor (offset + length buf)) buf) =
         page_chunk cursor (offset + length buf) \<and>
         holds_cells b n cursor (bslice (cursor - offset) (page_chunk cursor (offset + length buf)) buf) (cs, w'))"
    using P(2) k(3) fits(2) unfolding len_def [symmetric] src_def [symmetric] by auto
qed

lemma write_flags [simp]: "flags_contain (READ OR WRITE) WRITE"
  by (simp add: flags_contain_def READ_def WRITE_def)

lemma cache_write_loop_cells:
  assumes "cache_inv live (cs, w)" "room (pages_spanned cursor (offset + length buf)) w" "offset \<le> cursor"
    and "cache_write_loop st b n offset buf cursor (cs, w) = (r, (cs', w'))"
  shows "same_cells (places b n cursor (offset + length buf)) (cs, w) (cs', w') \<and>
    (r = Inr () \<longrightarrow> holds_cells b n cursor (drop (cursor - offset) buf) (cs', w'))"
  using assms
proof (induction "offset + length buf - cursor" arbitrary: cursor cs w rule: less_induct)
  case less
  show ?case
  proof (cases "cursor < offset + length buf")
    case False
    then show ?thesis using less.prems by (auto simp: cache_write_loop.simps holds_cells_def)
  next
    case True
    define len where "len = page_chunk cursor (offset + length buf)"
    have bounds: "cursor + len \<le> offset + length buf" using page_chunk_bounds(2) [OF True] by (simp add: len_def)
    define src where "src = bslice (cursor - offset) len buf"
    have room: "room (Suc (pages_spanned (cursor + len) (offset + length buf))) w"
      using less.prems(2) pages_spanned_step [OF True] by (simp add: len_def)
    have call: "mbind (map_page st b n (cursor div PAGE_SIZE * PAGE_SIZE) (READ OR WRITE)) (\<lambda>m.
        mbind (map_err Io (on_world (std_write_all_at (cp_backing (dm_page m)) src (cursor mod PAGE_SIZE)))) (\<lambda>x.
        mbind (unmap b m) (\<lambda>_. (\<lambda>_. cache_write_loop st b n offset buf (cursor + len)) x))) (cs, w) = (r, (cs', w'))"
      using less.prems(4) True
      by (simp add: cache_write_loop.simps [of st b n offset buf cursor] Let_def minus_div_mult_eq_mod len_def src_def)
    from access_cells [OF less.prems(1) room harmless_write
        write_accesses [OF True less.prems(3) write_flags, folded len_def, folded src_def] call]
    show ?thesis
    proof (elim disjE exE conjE)
      fix e assume "r = Inl e" and C: "same_cells (places b n cursor (cursor + len)) (cs, w) (cs', w')"
      moreover have "places b n cursor (cursor + len) \<subseteq> places b n cursor (offset + length buf)"
        using bounds by (auto simp: places_def)
      ultimately show ?thesis using same_cells_mono [OF C] by simp
    next
      fix x cs1 w1 assume R: "cache_inv live (cs1, w1)" "room (pages_spanned (cursor + len) (offset + length buf)) w1"
        "same_cells (places b n cursor (cursor + len)) (cs, w) (cs1, w1)" "length src = len" "holds_cells b n cursor src (cs1, w1)"
        "cache_write_loop st b n offset buf (cursor + len) (cs1, w1) = (r, (cs', w'))"
      have "offset \<le> cursor + len" using less.prems(3) by simp
      note IH = less.hyps [OF page_chunk_measure [OF True, folded len_def] R(1,2) this R(6)]
      have H: "holds_cells b n cursor src (cs', w')"
        by (rule holds_cells_same [OF R(5) conjunct1 [OF IH]]) (use R(4) in simp)
      have d: "drop (cursor - offset) buf = src @ drop (cursor + len - offset) buf"
        using less.prems(3) append_take_drop_id [of len "drop (cursor - offset) buf"] by (simp add: src_def bslice_def add.commute)
      have "holds_cells b n cursor (src @ drop (cursor + len - offset) buf) (cs', w')" if "r = Inr ()"
        using holds_cells_append [OF H] IH that R(4) by simp
      moreover have "same_cells (places b n cursor (offset + length buf)) (cs, w) (cs', w')"
        by (rule same_cells_trans [OF R(3) conjunct1 [OF IH]]) (use bounds in \<open>auto simp: places_def\<close>)
      ultimately show ?thesis unfolding d by simp
    qed
  qed
qed

end


section \<open>Whole operations\<close>

context forkable_store
begin

lemma on_store_cells:
  assumes inv: "cache_inv live (cs, w)" and "quiet m" and call: "on_store b m (cs, w) = (r, (cs', w'))"
  shows "same_cells X (cs, w) (cs', w')"
proof (rule same_cells_views)
  show "shows_views (view cs w) (cs', w')" by (rule shows_kept [OF _ on_store_quiet(2) [OF assms]]) simp
  show "has_branch d (cs', w')" if "has_branch d (cs, w)" for d using keepsD [OF has_on_store call that] .
qed

text \<open>What a read returns is what the branch shows, and it changes nothing that any branch shows.\<close>

lemma cache_read_cells:
  assumes inv: "cache_inv live (cs, w)" and room: "room (pages_spanned offset (offset + len)) w"
    and call: "cache_read st b n offset len (cs, w) = (r, (cs', w'))"
  shows "same_cells {} (cs, w) (cs', w') \<and> (\<forall>bs. r = Inr bs \<longrightarrow> length bs \<le> len \<and> holds_cells b n offset bs (cs', w'))"
proof -
  obtain r1 cs1 w1 where l: "on_store b (ns_len st n) (cs, w) = (r1, (cs1, w1))" by (metis prod.exhaust)
  note Q = on_store_quiet [OF inv quiet_laws(1) l] and C = on_store_cells [OF inv quiet_laws(1) l, of "{}"]
  have same: "next_page_version w1 = next_page_version w" using Q(2) by (simp add: kept_def)
  show ?thesis
  proof (cases r1)
    case (Inl e)
    then show ?thesis using call l C by (auto simp: cache_read_def with_store_mut_def mbind_apply)
  next
    case (Inr file_len)
    let ?stop = "offset + min (file_len - offset) len"
    have room1: "room (pages_spanned offset ?stop) w1"
      using room_mono [OF room pages_spanned_mono [of ?stop "offset + len" offset]] Q(4) same by (simp add: room_def)
    show ?thesis
    proof (cases "offset \<ge> file_len \<or> len = 0 \<or> u64_bound \<le> ?stop")
      case True
      then have "cs' = cs1 \<and> w' = w1 \<and> (\<forall>bs. r = Inr bs \<longrightarrow> bs = [])" using call l Inr
        by (auto simp: cache_read_def with_store_mut_def mbind_apply Let_def checked_add_def split: if_splits)
      then have r: "cs' = cs1" "w' = w1" "\<And>bs. r = Inr bs \<Longrightarrow> bs = []" by blast+
      show ?thesis using C unfolding r(1,2) by (auto dest!: r(3))
    next
      case False
      then have "cache_read_loop st b n ?stop offset [] (cs1, w1) = (r, (cs', w'))"
        using call l Inr by (simp add: cache_read_def with_store_mut_def mbind_apply Let_def checked_add_def)
      from cache_read_loop_cells [OF Q(1) room1 this] same_cells_trans [OF C, of "{}" "(cs', w')" "{}"]
      show ?thesis by auto
    qed
  qed
qed

text \<open>
  A write that succeeds leaves its bytes in its range of its branch. Whether it succeeds or not, it
  changes no byte outside that range, and none of another branch or another file.
\<close>

lemma cache_write_cells:
  assumes inv: "cache_inv live (cs, w)" and room: "room (pages_spanned offset (offset + length buf)) w"
    and call: "cache_write st b n offset buf (cs, w) = (r, (cs', w'))"
  shows "same_cells (places b n offset (offset + length buf)) (cs, w) (cs', w') \<and>
    (\<forall>k. r = Inr k \<longrightarrow> k = length buf \<and> holds_cells b n offset buf (cs', w'))"
proof (cases "offset + length buf < u64_bound")
  case False
  then show ?thesis using call by (auto simp: cache_write_def mbind_apply checked_add_def)
next
  case True
  let ?X = "places b n offset (offset + length buf)"
  obtain r1 cs1 w1 where l: "on_store b (ns_len st n) (cs, w) = (r1, (cs1, w1))" by (metis prod.exhaust)
  note Q = on_store_quiet [OF inv quiet_laws(1) l] and C = on_store_cells [OF inv quiet_laws(1) l, of ?X]
  have same: "next_page_version w1 = next_page_version w" using Q(2) by (simp add: kept_def)
  obtain r2 cs2 w2 where wl: "cache_write_loop st b n offset buf offset (cs1, w1) = (r2, (cs2, w2))" by (metis prod.exhaust)
  have room1: "room (pages_spanned offset (offset + length buf)) w1" using room Q(4) same by (simp add: room_def)
  note L = cache_write_loop_cells [OF Q(1) room1 order_refl wl, simplified]
  have C2: "same_cells ?X (cs, w) (cs2, w2)" by (rule same_cells_trans [OF C conjunct1 [OF L]]) simp_all
  have "cs' = cs1 \<and> w' = w1 \<and> (\<exists>e. r = Inl e) \<or> cs' = cs2 \<and> w' = w2 \<and> (\<forall>k. r = Inr k \<longrightarrow> k = length buf \<and> r2 = Inr ())"
    using call l wl True by (cases r1; cases r2)
      (auto simp: cache_write_def with_store_mut_def mbind_apply checked_add_def split: if_splits)
  then show ?thesis using C C2 L by auto
qed

end

end
