(* ===== verification/RedoxStore.thy ===== *)
theory RedoxStore
  imports RedoxBranch CacheBytes
begin

text \<open>
  A RedoxFS branch keeps the contract that the shared page cache relies on, whatever the engine
  does on its disk: page identities change only where the branch says so, and the only host file
  that a branch ever writes is the overlay of its own disk.
\<close>

section \<open>Calls that write only what the state owns\<close>

definition still :: "('s \<Rightarrow> nat set) \<Rightarrow> ('s \<times> world, 'e, 'a) meth \<Rightarrow> bool" where
  "still owned m \<longleftrightarrow> (\<forall>s w r s' w'. m (s, w) = (r, (s', w')) \<longrightarrow>
     calm owned s w s' w' \<and> next_page_version w' = next_page_version w)"

named_theorems still_intros \<open>calls that write only files that the state owns\<close>

lemma stillI:
  assumes "\<And>s w r s' w'. m (s, w) = (r, (s', w')) \<Longrightarrow> calm owned s w s' w' \<and> next_page_version w' = next_page_version w"
  shows "still owned m"
  using assms by (simp add: still_def)

lemma stillD: "still owned m \<Longrightarrow> m (s, w) = (r, (s', w')) \<Longrightarrow> calm owned s w s' w' \<and> next_page_version w' = next_page_version w"
  by (simp add: still_def)

lemma still_ok [still_intros]: "still owned (ok x)" "still owned (raise e)" "still owned (gets f)"
  "still owned (of_result r)" "still owned (ok_or v e)"
  by (auto simp: still_def of_result_def ok_or_def split: option.splits)

lemma still_mbind [still_intros]:
  assumes "still owned m" "\<And>a. still owned (f a)"
  shows "still owned (mbind m f)"
proof (rule stillI)
  fix s w r s' w' assume call: "mbind m f (s, w) = (r, (s', w'))"
  obtain r1 s1 w1 where m: "m (s, w) = (r1, (s1, w1))" by (metis prod.exhaust)
  show "calm owned s w s' w' \<and> next_page_version w' = next_page_version w"
    using stillD [OF assms(1) m] stillD [OF assms(2), of _ s1 w1] call m
    by (cases r1) (auto simp: mbind_apply intro: calm_trans)
qed

lemma still_map_err [still_intros]: "still owned m \<Longrightarrow> still owned (map_err g m)"
  unfolding still_def by (auto simp: map_err_def split: prod.splits)

lemma still_if [still_intros]: "still owned m \<Longrightarrow> still owned m' \<Longrightarrow> still owned (if b then m else m')"
  by simp

lemma still_case_option [still_intros]:
  "still owned m \<Longrightarrow> (\<And>a. still owned (f a)) \<Longrightarrow> still owned (case v of None \<Rightarrow> m | Some a \<Rightarrow> f a)"
  by (cases v) simp_all

lemma still_case_prod [still_intros]:
  "(\<And>a b. still owned (f a b)) \<Longrightarrow> still owned (case p of (a, b) \<Rightarrow> f a b)"
  by (cases p) simp

lemma still_modify [still_intros]: "(\<And>s. owned (f s) \<subseteq> owned s) \<Longrightarrow> still owned (modify (\<lambda>(s, w). (f s, w)))"
  unfolding still_def by (auto simp: calm_def modify_def)

lemma quiet_calm: "host_quiet w w' \<Longrightarrow> calm owned s w s w' \<and> next_page_version w' = next_page_version w"
  by (auto simp: host_quiet_def calm_def)

lemma still_gentle [still_intros]: "gentle m \<Longrightarrow> still owned (on_world m)"
  by (rule stillI) (simp add: on_world_def split: prod.splits, metis gentleD quiet_calm)

section \<open>The disk\<close>

definition durable_owned :: "durable_cow_disk \<Rightarrow> nat set" where
  "durable_owned d = {dd_overlay d}"

definition disk_owned :: "cow_disk \<Rightarrow> nat set" where
  "disk_owned disk = (case cd_durable disk of None \<Rightarrow> {} | Some d \<Rightarrow> durable_owned d)"

definition redox_owned :: "'f redox_branch \<Rightarrow> nat set" where
  "redox_owned b = disk_owned (rb_disk b)"

text \<open>Appends reach one file.\<close>

definition only_file :: "nat \<Rightarrow> world \<Rightarrow> world \<Rightarrow> bool" where
  "only_file h w w' \<longleftrightarrow> w_next_inode w' = w_next_inode w \<and> next_cache_page_id w' = next_cache_page_id w \<and>
     next_file_object_id w' = next_file_object_id w \<and> next_page_version w' = next_page_version w \<and>
     w_names w' = w_names w \<and> next_block_id w' = next_block_id w \<and>
     (\<forall>h'. h' \<noteq> h \<longrightarrow> w_files w' h' = w_files w h')"

lemma append_only: "append_all h buf w = (r, w') \<Longrightarrow> only_file h w w'"
  unfolding append_all_def std_write_all_at_def
  by (drule write_full_sound) (auto simp: only_file_def wrote_def split: if_splits)

lemma durable_append_only:
  assumes "durable_append d address b w = (r, w')"
  shows "only_file (dd_overlay d) w w'"
proof -
  have trans: "only_file h w1 w2 \<Longrightarrow> only_file h w2 w3 \<Longrightarrow> only_file h w1 w3" for h w1 w2 w3
    by (simp add: only_file_def)
  show ?thesis using assms
    by (auto simp: durable_append_def mbind_apply split: prod.splits sum.splits intro: trans append_only dest!: append_only)
qed

lemma still_append: "still disk_owned (\<lambda>(disk, w). case cd_durable disk of None \<Rightarrow> (Inr (), (disk, w))
    | Some d \<Rightarrow> on_world (durable_append d address b) (disk, w))"
  by (rule stillI) (auto simp: on_world_def calm_def disk_owned_def durable_owned_def only_file_def
      split: option.splits prod.splits dest!: durable_append_only)

lemma still_write_block: "still disk_owned (disk_write_block address chunk)"
proof (rule stillI)
  fix disk w r disk' w' assume call: "disk_write_block address chunk (disk, w) = (r, (disk', w'))"
  let ?b = "\<lparr>blk_id = next_block_id w, blk_bytes = copy_into (stored_bytes disk address) 0 chunk\<rparr>"
  let ?disk = "disk\<lparr>cd_blocks := ov_put address ?b (cd_blocks disk)\<rparr>"
  let ?w = "w\<lparr>next_block_id := u64_succ (next_block_id w)\<rparr>"
  have start: "calm disk_owned disk w ?disk ?w" by (simp add: calm_def disk_owned_def)
  obtain r1 w1 where "(case cd_durable ?disk of None \<Rightarrow> (Inr (), (?disk, ?w))
      | Some d \<Rightarrow> on_world (durable_append d address ?b) (?disk, ?w)) = (r1, (disk', w1))" "w1 = w'"
    using call by (cases "cd_durable disk")
      (auto simp: disk_write_block_def mbind_apply map_err_apply on_world_apply Let_def split: prod.splits sum.splits)
  with stillD [OF still_append [of address ?b], of ?disk ?w r1 disk' w1]
  have "calm disk_owned ?disk ?w disk' w' \<and> next_page_version w' = next_page_version ?w" by simp
  with calm_trans [OF start] show "calm disk_owned disk w disk' w' \<and> next_page_version w' = next_page_version w" by auto
qed

lemma still_write_chunks: "still disk_owned (disk_write_chunks address buf)"
proof (induction "length buf" arbitrary: address buf rule: less_induct)
  case less
  have eq: "disk_write_chunks address buf = (if buf = [] then ok () else mbind (disk_write_block address (take BLOCK_SIZE buf))
      (\<lambda>_. disk_write_chunks (address + 1) (drop BLOCK_SIZE buf)))"
    by (rule ext) (simp add: disk_write_chunks.simps)
  show ?case
  proof (cases "buf = []")
    case True
    then have "disk_write_chunks address buf = ok ()" using eq by simp
    then show ?thesis using still_ok(1) by metis
  next
    case False
    then show ?thesis unfolding eq by (auto intro!: still_mbind still_write_block less)
  qed
qed

lemma still_disk_calls [still_intros]:
  "still disk_owned (disk_read_at block len)" "still disk_owned (disk_write_at block buf)"
proof -
  show "still disk_owned (disk_read_at block len)"
    by (rule stillI) (auto simp: disk_read_at_def split: sum.splits)
  show "still disk_owned (disk_write_at block buf)"
    unfolding disk_write_at_def by (intro still_intros still_write_chunks)
qed

text \<open>Whatever a program does, it does through the disk trait.\<close>

lemma still_run_prog:
  "run_prog p (disk, w) = (a, (disk', w')) \<Longrightarrow> calm disk_owned disk w disk' w' \<and> next_page_version w' = next_page_version w"
proof (induction p arbitrary: disk w)
  case (ReadBlocks block len k)
  obtain r d1 w1 where c: "disk_read_at block len (disk, w) = (r, (d1, w1))" by (metis prod.exhaust)
  from stillD [OF still_disk_calls(1) c] ReadBlocks.IH [of "k r" d1 w1] ReadBlocks.prems c
  show ?case by (auto intro: calm_trans)
next
  case (WriteBlocks block buf k)
  obtain r d1 w1 where c: "disk_write_at block buf (disk, w) = (r, (d1, w1))" by (metis prod.exhaust)
  from stillD [OF still_disk_calls(2) c] WriteBlocks.IH [of "k r" d1 w1] WriteBlocks.prems c
  show ?case by (auto intro: calm_trans)
next
  case (AskSize k)
  from AskSize.IH [of "k (disk_size disk)" disk w] AskSize.prems show ?case by simp
qed simp

lemma still_on_fs [still_intros]: "still redox_owned (on_fs eng f)"
proof (rule stillI)
  fix b w r b' w' assume "on_fs eng f (b, w) = (r, (b', w'))"
  then obtain x where "run_prog (fs_tx eng f (rb_fs b)) (rb_disk b, w) = (x, (rb_disk b', w'))"
    by (auto simp: on_fs_def split: prod.splits)
  from still_run_prog [OF this] show "calm redox_owned b w b' w' \<and> next_page_version w' = next_page_version w"
    by (simp add: calm_def redox_owned_def)
qed

lemma on_fs_identities: "on_fs eng f (b, w) = (r, (b', w')) \<Longrightarrow> rb_identities b' = rb_identities b"
  by (auto simp: on_fs_def split: prod.splits)


section \<open>Forks and checkpoints of the disk\<close>

lemma switch_overlay:
  assumes "gentle g" "\<And>i h d. dd_overlay (f i h d) = h"
  shows "still durable_owned (mbind (on_world (create_numbered_file dir p)) (\<lambda>(i, h).
    mbind (on_world g) (\<lambda>_. modify (\<lambda>(d, w). (f i h d, w)))))"
proof (rule stillI)
  fix d w r d' w'
  assume call: "mbind (on_world (create_numbered_file dir p)) (\<lambda>(i, h).
    mbind (on_world g) (\<lambda>_. modify (\<lambda>(d, w). (f i h d, w)))) (d, w) = (r, (d', w'))"
  obtain r1 w1 where c: "create_numbered_file dir p w = (r1, w1)" by (metis prod.exhaust)
  obtain r2 w2 where g: "g w1 = (r2, w2)" by (metis prod.exhaust)
  note q1 = gentleD [OF gentle_numbered(1) c] and q2 = gentleD [OF assms(1) g]
  show "calm durable_owned d w d' w' \<and> next_page_version w' = next_page_version w"
  proof (cases r1)
    case (Inl e)
    then have "w' = w1" "d' = d" using call c by (simp_all add: mbind_apply on_world_apply)
    then show ?thesis using quiet_calm [OF q1, of durable_owned d] by simp
  next
    case (Inr ih)
    obtain i h where ih: "ih = (i, h)" by (cases ih)
    note h = create_numbered_fresh [OF c [unfolded Inr ih]]
    have w: "w' = w2" "d' = d \<or> d' = f i h d"
      using call c Inr ih g by (cases r2; auto simp: mbind_apply on_world_apply)+
    have "w_next_inode w1 \<le> w_next_inode w2" using q2 by (simp add: host_quiet_def)
    then have "durable_owned d' \<subseteq> durable_owned d \<union> {w_next_inode w..<w_next_inode w2}"
      using w(2) h assms(2) by (auto simp: durable_owned_def)
    then show ?thesis using host_quiet_trans [OF q1 q2] w(1) by (auto simp: calm_def host_quiet_def)
  qed
qed

lemma mbind_assoc: "mbind (mbind m f) g = mbind m (\<lambda>a. mbind (f a) g)"
  by (rule ext) (simp add: mbind_def split: prod.splits sum.splits)

lemma mbind_case_prod: "mbind (case p of (a, b) \<Rightarrow> f a b) g = (case p of (a, b) \<Rightarrow> mbind (f a b) g)"
  by (cases p) simp

lemma on_world_ok: "on_world (ok x) = ok x"
  by (rule ext) (simp add: on_world_def)

lemma switch_overlay_only: "still durable_owned (mbind (on_world (create_numbered_file dir ''overlay'')) (\<lambda>(i, h).
    modify (\<lambda>(d, w). (d\<lparr>dd_overlay_id := i, dd_overlay := h\<rparr>, w))))"
  using switch_overlay [OF gentle_ok(1) [of "()"], of "\<lambda>i h d. d\<lparr>dd_overlay_id := i, dd_overlay := h\<rparr>" dir "''overlay''"]
  unfolding on_world_ok mbind_ok by simp

lemma still_durable_fork: "still durable_owned (durable_fork seal)"
  unfolding durable_fork_def
  by (intro still_intros gentle_intros switch_overlay_only) (simp_all add: durable_owned_def)

lemma still_durable_checkpoint: "still durable_owned (durable_checkpoint len seal)"
proof -
  have sw: "still durable_owned (mbind (on_world (create_numbered_file dir ''overlay'')) (\<lambda>(i, h).
      mbind (on_world (sync_directory dir)) (\<lambda>_.
      mbind (modify (\<lambda>(d, w). (d\<lparr>dd_layers := dd_layers d @ ls, dd_overlay_id := i, dd_overlay := h\<rparr>, w))) (\<lambda>_. ok st))))"
    for dir ls and st :: durable_disk_state
    using still_mbind [OF switch_overlay [of "sync_directory dir"
        "\<lambda>i h d. d\<lparr>dd_layers := dd_layers d @ ls, dd_overlay_id := i, dd_overlay := h\<rparr>" dir "''overlay''"] still_ok(1) [of _ st]]
    by (simp add: gentle_files mbind_assoc mbind_case_prod)
  show ?thesis unfolding durable_checkpoint_def Let_def
    by (intro still_intros gentle_intros sw)
qed

text \<open>The overlay of a new disk is a new file.\<close>

definition yields_new :: "('s \<times> world, 'e, 'a) meth \<Rightarrow> ('a \<Rightarrow> nat set) \<Rightarrow> bool" where
  "yields_new m own \<longleftrightarrow> (\<forall>s w c s' w'. m (s, w) = (Inr c, (s', w')) \<longrightarrow> own c \<subseteq> {w_next_inode w..<w_next_inode w'})"

lemma yields_mbind:
  assumes "still owned m" "\<And>a. yields_new (f a) own"
  shows "yields_new (mbind m f) own"
  unfolding yields_new_def
proof (intro allI impI)
  fix s w c s' w' assume call: "mbind m f (s, w) = (Inr c, (s', w'))"
  obtain a s1 w1 where m: "m (s, w) = (Inr a, (s1, w1))" "f a (s1, w1) = (Inr c, (s', w'))"
    using call by (auto simp: mbind_apply split: prod.splits sum.splits)
  have "w_next_inode w \<le> w_next_inode w1" using stillD [OF assms(1) m(1)] by (simp add: calm_def)
  moreover have "own c \<subseteq> {w_next_inode w1..<w_next_inode w'}" using assms(2) [of a] m(2) by (simp add: yields_new_def)
  ultimately show "own c \<subseteq> {w_next_inode w..<w_next_inode w'}" by auto
qed

lemma durable_fork_new: "yields_new (durable_fork seal) durable_owned"
proof -
  have child: "yields_new (mbind (on_world (create_numbered_file dir ''overlay'')) (\<lambda>(i, h).
      ok \<lparr>dd_directory = dir, dd_layers = ls, dd_overlay_id = i, dd_overlay = h\<rparr>)) durable_owned" for dir ls
    by (auto simp: yields_new_def mbind_apply on_world_apply durable_owned_def
        split: prod.splits sum.splits dest!: create_numbered_fresh)
  show ?thesis unfolding durable_fork_def
    by (rule yields_mbind [where owned = durable_owned] child still_intros gentle_intros switch_overlay_only | simp add: durable_owned_def)+
qed

lemma still_on_durable: "still durable_owned m \<Longrightarrow> still disk_owned (on_durable m)"
proof (rule stillI)
  fix disk w r disk' w' assume m: "still durable_owned m" and call: "on_durable m (disk, w) = (r, (disk', w'))"
  show "calm disk_owned disk w disk' w' \<and> next_page_version w' = next_page_version w"
  proof (cases "cd_durable disk")
    case (Some d)
    then obtain r1 d1 where "m (d, w) = (r1, (d1, w'))" "cd_durable disk' = Some d1"
      using call by (auto simp: on_durable_def split: prod.splits)
    then show ?thesis using stillD [OF m] Some by (simp add: calm_def disk_owned_def)
  qed (use call in \<open>simp add: on_durable_def\<close>)
qed

lemma on_durable_new: "yields_new m durable_owned \<Longrightarrow> yields_new (on_durable m) (\<lambda>v. case v of None \<Rightarrow> {} | Some d \<Rightarrow> durable_owned d)"
  unfolding yields_new_def
proof (intro allI impI)
  fix disk w c disk' w'
  assume m: "\<forall>s w c s' w'. m (s, w) = (Inr c, (s', w')) \<longrightarrow> durable_owned c \<subseteq> {w_next_inode w..<w_next_inode w'}"
    and call: "on_durable m (disk, w) = (Inr c, (disk', w'))"
  show "(case c of None \<Rightarrow> {} | Some d \<Rightarrow> durable_owned d) \<subseteq> {w_next_inode w..<w_next_inode w'}"
  proof (cases c)
    case (Some e)
    then obtain d d1 where "m (d, w) = (Inr e, (d1, w'))"
      using call by (auto simp: on_durable_def map_sum_def split: option.splits prod.splits sum.splits)
    then show ?thesis using m Some by simp
  qed simp
qed

lemma still_disk_fork: "still disk_owned cow_disk_fork"
  unfolding cow_disk_fork_def
  by (intro still_intros still_on_durable still_durable_fork) (simp add: disk_owned_def)

lemma still_disk_state: "still disk_owned cow_disk_durable_state"
  unfolding cow_disk_durable_state_def
  by (intro still_intros still_on_durable still_durable_checkpoint) (simp add: disk_owned_def)


lemma disk_fork_child:
  assumes "cow_disk_fork (disk, w) = (Inr c, (disk', w'))"
  shows "disk_owned c \<subseteq> {w_next_inode w..<w_next_inode w'}"
proof -
  obtain v disk1 where d: "on_durable (durable_fork (ov_writes (cd_blocks disk) \<noteq> [])) (disk, w) = (Inr v, (disk1, w'))"
    "cd_durable c = v"
    using assms by (auto simp: cow_disk_fork_def mbind_apply split: prod.splits sum.splits)
  have "(case v of None \<Rightarrow> {} | Some d \<Rightarrow> durable_owned d) \<subseteq> {w_next_inode w..<w_next_inode w'}"
    using on_durable_new [OF durable_fork_new] d(1) unfolding yields_new_def by blast
  then show ?thesis by (simp add: disk_owned_def d(2))
qed

section \<open>The contract of the cache\<close>

definition redox_ident :: "'f redox_branch \<Rightarrow> node_id \<Rightarrow> nat \<Rightarrow> redox_page_identity option" where
  "redox_ident b = branch_ident (rb_identities b)"

definition redox_issued :: "nat \<Rightarrow> nat \<Rightarrow> redox_page_identity set" where
  "redox_issued f k = {i. rpi_object i < f \<and> rpi_version i < k}"

lemma redox_fork_law:
  assumes "redox_fork eng (b, w) = (r, (b', w'))"
  shows "redox_ident b' = redox_ident b \<and> calm redox_owned b w b' w' \<and> next_page_version w' = next_page_version w \<and>
    (\<forall>c. r = Inr c \<longrightarrow> redox_ident c = redox_ident b \<and> redox_owned c \<subseteq> {w_next_inode w..<w_next_inode w'})"
proof -
  obtain r1 d1 w1 where df: "cow_disk_fork (rb_disk b, w) = (r1, (d1, w1))" by (metis prod.exhaust)
  note fk = stillD [OF still_disk_fork df]
  show ?thesis
  proof (cases r1)
    case (Inl e)
    then show ?thesis using assms df fk
      by (auto simp: redox_fork_def on_disk_def mbind_apply on_part_apply redox_ident_def redox_owned_def calm_def)
  next
    case (Inr cd)
    define ids where "ids = identity_fork (rb_identities b)"
    obtain r2 cd2 w2 where op: "run_prog (eng_open eng (eng_block eng (rb_fs b))) (cd, w1) = (r2, (cd2, w2))"
      by (metis prod.exhaust)
    note run = still_run_prog [OF op] and new = disk_fork_child [OF df [unfolded Inr]]
    have res: "b' = b\<lparr>rb_disk := d1, rb_identities := fst ids\<rparr>" "w' = w2"
      "r = map_sum io_error_of (\<lambda>fs. \<lparr>rb_fs = fs, rb_disk = cd2, rb_identities = snd ids\<rparr>) r2"
      using assms df Inr op
      by (cases r2; auto simp: redox_fork_def on_disk_def on_identities_def mbind_apply on_part_apply on_world_apply
          make_fs_def ids_def)+
    have "w_files w2 h = w_files w h" if "h < w_next_inode w" "h \<notin> disk_owned (rb_disk b)" for h
    proof -
      have "h \<notin> disk_owned cd" "h < w_next_inode w1" using that(1) new fk by (auto simp: calm_def)
      then show ?thesis using fk run that by (simp add: calm_def)
    qed
    then have "calm redox_owned b w b' w'"
      using fk run by (auto simp: calm_def res redox_owned_def)
    moreover have "disk_owned cd2 \<subseteq> {w_next_inode w..<w_next_inode w2}"
      using fk run new by (fastforce simp: calm_def)
    ultimately show ?thesis using fk run
      by (cases r2) (auto simp: res redox_ident_def redox_owned_def ids_def)
  qed
qed

lemma redox_prepare_law:
  assumes "redox_ident b node (offset div PAGE_SIZE) = Some old"
    "old \<in> redox_issued (next_file_object_id w) (next_page_version w)" "next_page_version w + 1 < u64_bound"
  shows "\<exists>i b' w'. redox_prepare_page_write node offset (b, w) = (Inr i, (b', w')) \<and>
    i \<notin> redox_issued (next_file_object_id w) (next_page_version w) \<and>
    i \<in> redox_issued (next_file_object_id w') (next_page_version w') \<and>
    redox_ident b' = (\<lambda>n p. if n = node \<and> p = offset div PAGE_SIZE then Some i else redox_ident b n p) \<and>
    calm redox_owned b w b' w' \<and> next_page_version w' = next_page_version w + 1"
proof -
  let ?p = "offset div PAGE_SIZE"
  let ?ids = "rb_identities b\<lparr>ib_pages := bm_insert (node, ?p) (next_page_version w) (ib_pages (rb_identities b))\<rparr>"
  let ?w = "w\<lparr>next_page_version := next_page_version w + 1\<rparr>"
  obtain ob where ob: "branch_file (rb_identities b) node = Some ob" "ob < next_file_object_id w"
    using assms(1,2) by (auto simp: redox_ident_def branch_ident_def redox_issued_def)
  let ?i = "RedoxPageIdentity ob ?p (next_page_version w)"
  have "redox_prepare_page_write node offset (b, w) = (Inr ?i, (b\<lparr>rb_identities := ?ids\<rparr>, ?w))"
    using ob(1) u64_succ_small [OF assms(3)]
    by (simp add: redox_prepare_page_write_def on_identities_def on_part_apply identity_prepare_page_write_def
        mbind_apply bump_page_def identity_page_identity_def Let_def of_result_def)
  moreover have "redox_ident (b\<lparr>rb_identities := ?ids\<rparr>) =
      (\<lambda>n p. if n = node \<and> p = ?p then Some ?i else redox_ident b n p)"
    using ob(1) by (auto simp: redox_ident_def branch_ident_def fun_eq_iff)
  moreover have "calm redox_owned b w (b\<lparr>rb_identities := ?ids\<rparr>) ?w" by (simp add: calm_def redox_owned_def)
  moreover have "?i \<notin> redox_issued (next_file_object_id w) (next_page_version w)"
    "?i \<in> redox_issued (next_file_object_id ?w) (next_page_version ?w)"
    using ob(2) by (simp_all add: redox_issued_def)
  moreover have "next_page_version ?w = next_page_version w + 1" by simp
  ultimately show ?thesis by blast
qed

text \<open>What holds of every call on the file system of a branch.\<close>

lemma on_fs_law:
  "on_fs eng f (b, w) = (r, (b', w')) \<Longrightarrow>
    redox_ident b' = redox_ident b \<and> calm redox_owned b w b' w' \<and> next_page_version w' = next_page_version w"
  using stillD [OF still_on_fs] on_fs_identities by (metis redox_ident_def)

interpretation rb: forkable_store "redox_store eng" redox_ident redox_issued redox_owned for eng
proof unfold_locales
  fix node offset w and s :: "'a redox_branch"
  show "fs_page_identity (redox_store eng) node offset (s, w) =
      (case redox_ident s node (offset div PAGE_SIZE) of None \<Rightarrow> Inl (OsError EIO) | Some i \<Rightarrow> Inr i, (s, w))"
    by (simp add: redox_store_def redox_page_identity_of_def mbind_apply page_identity_branch_ident redox_ident_def
        of_result_def split: option.splits)
next
  show "f \<le> f' \<Longrightarrow> k \<le> k' \<Longrightarrow> redox_issued f k \<subseteq> redox_issued f' k'" for f f' k k'
    by (auto simp: redox_issued_def)
next
  fix node offset old and w :: world and s :: "'a redox_branch"
  assume "redox_ident s node (offset div PAGE_SIZE) = Some old"
    "old \<in> redox_issued (next_file_object_id w) (next_page_version w)" "next_page_version w + 1 < u64_bound"
  from redox_prepare_law [OF this]
  show "\<exists>i s' w'. fs_prepare_page_write (redox_store eng) node offset (s, w) = (Inr i, (s', w')) \<and>
      i \<notin> redox_issued (next_file_object_id w) (next_page_version w) \<and>
      i \<in> redox_issued (next_file_object_id w') (next_page_version w') \<and>
      redox_ident s' = (\<lambda>n p. if n = node \<and> p = offset div PAGE_SIZE then Some i else redox_ident s n p) \<and>
      calm redox_owned s w s' w' \<and> next_page_version w' = next_page_version w + 1"
    by (simp add: redox_store_def)
qed (auto simp: redox_store_def redox_len_def redox_read_node_def redox_write_node_def redox_on_open_node_def
    redox_on_close_node_def dest: on_fs_law redox_fork_law)

end
