(* ===== verification/RedoxCache.thy ===== *)
theory RedoxCache
  imports RedoxStore
begin

text \<open>
  The shared page cache over RedoxFS branches, as the supervisors run it: a step relation for the
  calls of clients, in any order and number, together with what the clients do to the mappings
  they hold. The properties hold in every state that such a run reaches, for every RedoxFS engine
  and every pattern of host faults.
\<close>

type_synonym 'f redox_cache = "('f redox_branch, redox_page_identity) cache_state"
type_synonym 'f cache_config = "'f redox_cache \<times> world \<times> dax_page_mapping list"

text \<open>The bytes of the cached page behind a page of a branch.\<close>

definition branch_bytes :: "'f redox_cache \<Rightarrow> world \<Rightarrow> cache_branch_id \<Rightarrow> node_id \<Rightarrow> nat \<Rightarrow> bytes option" where
  "branch_bytes cs w b node offset =
    (case map_of (cs_branches cs) b of
       None \<Rightarrow> None
     | Some br \<Rightarrow>
         (case redox_ident (cb_store br) node (offset div PAGE_SIZE) of
            None \<Rightarrow> None
          | Some i \<Rightarrow> map_option (\<lambda>p. take PAGE_SIZE (file_data w (cp_backing p))) (map_of (cs_pages cs) i)))"

lemma branch_bytes_view: "branch_bytes cs w b node offset = rb.view cs w b (node, offset)"
  by (cases "map_of (cs_branches cs) b") (simp_all add: branch_bytes_def rb.view_def rb.sees_def)

section \<open>Steps\<close>

text \<open>
  A configuration is the cache, the world and the list of mappings that clients hold. A mapping is
  not copyable, so a client releases each at most once. The rules for calls that draw identities
  ask for counters below their wrap-around. The rule \<open>create_file\<close> asks that the engine returns a node number that the branch
  does not use yet, and that the version counter, which starts at one, has not wrapped to zero.
\<close>

definition unused_node :: "identity_branch \<Rightarrow> node_id \<Rightarrow> bool" where
  "unused_node b node \<longleftrightarrow> branch_file b node = None \<and> (\<forall>page. branch_page_version b (node, page) = None)"

inductive cache_step :: "('f, 't) redox_engine \<Rightarrow> 'f cache_config \<Rightarrow> 'f cache_config \<Rightarrow> bool" for eng where
  map_page: "room 1 w \<Longrightarrow> map_page (redox_store eng) b n off fl (cs, w) = (r, (cs', w')) \<Longrightarrow>
    cache_step eng (cs, w, live) (cs', w', (case r of Inl _ \<Rightarrow> live | Inr m \<Rightarrow> m # live))"
| unmap: "m \<in> set live \<Longrightarrow> unmap (dm_branch m) m (cs, w) = (r, (cs', w')) \<Longrightarrow>
    cache_step eng (cs, w, live) (cs', w', remove1 m live)"
| guest_store: "m \<in> set live \<Longrightarrow> flags_contain (dm_flags m) WRITE \<Longrightarrow> off + length buf \<le> PAGE_SIZE \<Longrightarrow>
    std_write_all_at (cp_backing (dm_page m)) buf off w = (r, w') \<Longrightarrow>
    cache_step eng (cs, w, live) (cs, w', live)"
| open_node: "cache_open (redox_store eng) b n (cs, w) = (r, (cs', w')) \<Longrightarrow> cache_step eng (cs, w, live) (cs', w', live)"
| close_node: "cache_close (redox_store eng) b n (cs, w) = (r, (cs', w')) \<Longrightarrow> cache_step eng (cs, w, live) (cs', w', live)"
| sync: "cache_sync (redox_store eng) b n (cs, w) = (r, (cs', w')) \<Longrightarrow> cache_step eng (cs, w, live) (cs', w', live)"
| sync_all: "cache_sync_all (redox_store eng) b (cs, w) = (r, (cs', w')) \<Longrightarrow> cache_step eng (cs, w, live) (cs', w', live)"
| fork: "cache_fork (redox_store eng) b (cs, w) = (r, (cs', w')) \<Longrightarrow> cache_step eng (cs, w, live) (cs', w', live)"
| remove_branch: "remove_branch (redox_store eng) b (cs, w) = (r, (cs', w')) \<Longrightarrow> cache_step eng (cs, w, live) (cs', w', live)"
| accounting: "cache_page_accounting (redox_store eng) bs (cs, w) = (r, (cs', w')) \<Longrightarrow>
    cache_step eng (cs, w, live) (cs', w', live)"
| read_bytes: "room (pages_spanned offset (offset + len)) w \<Longrightarrow>
    cache_read (redox_store eng) b n offset len (cs, w) = (r, (cs', w')) \<Longrightarrow> cache_step eng (cs, w, live) (cs', w', live)"
| write_bytes: "room (pages_spanned offset (offset + length buf)) w \<Longrightarrow>
    cache_write (redox_store eng) b n offset buf (cs, w) = (r, (cs', w')) \<Longrightarrow> cache_step eng (cs, w, live) (cs', w', live)"
| store_len: "with_store_mut b (redox_len eng n) (cs, w) = (r, (cs', w')) \<Longrightarrow> cache_step eng (cs, w, live) (cs', w', live)"
| store_read: "with_store_mut b (redox_read eng n offset len) (cs, w) = (r, (cs', w')) \<Longrightarrow> cache_step eng (cs, w, live) (cs', w', live)"
| store_metadata: "with_store_mut b (redox_metadata eng n) (cs, w) = (r, (cs', w')) \<Longrightarrow> cache_step eng (cs, w, live) (cs', w', live)"
| store_lookup: "with_store_mut b (redox_lookup eng n name) (cs, w) = (r, (cs', w')) \<Longrightarrow> cache_step eng (cs, w, live) (cs', w', live)"
| store_entries: "with_store_mut b (redox_entries eng n) (cs, w) = (r, (cs', w')) \<Longrightarrow> cache_step eng (cs, w, live) (cs', w', live)"
| durable_state: "with_store_mut b (redox_durable_state eng) (cs, w) = (r, (cs', w')) \<Longrightarrow>
    cache_step eng (cs, w, live) (cs', w', live)"
| create_file: "next_file_object_id w + 1 < u64_bound \<Longrightarrow> 0 < next_page_version w \<Longrightarrow>
    with_store_mut b (redox_create_file eng name len) (cs, w) = (r, (cs', w')) \<Longrightarrow>
    (\<forall>node br. r = Inr node \<longrightarrow> map_of (cs_branches cs) b = Some br \<longrightarrow> unused_node (rb_identities (cb_store br)) node) \<Longrightarrow>
    cache_step eng (cs, w, live) (cs', w', live)"

inductive redox_run :: "('f, 't) redox_engine \<Rightarrow> 'f cache_config \<Rightarrow> bool" for eng where
  start: "redox_create eng len w0 = (Inr store, w1) \<Longrightarrow> 0 < next_page_version w0 \<Longrightarrow>
    next_file_object_id w0 + 1 < u64_bound \<Longrightarrow> cache_new store w1 = ((cs, b), w2) \<Longrightarrow> redox_run eng (cs, w2, [])"
| start_durable: "redox_create_durable eng directory len w0 = (Inr store, w1) \<Longrightarrow> 0 < next_page_version w0 \<Longrightarrow>
    next_file_object_id w0 + 1 < u64_bound \<Longrightarrow> cache_new store w1 = ((cs, b), w2) \<Longrightarrow> redox_run eng (cs, w2, [])"
| step: "redox_run eng c \<Longrightarrow> cache_step eng c c' \<Longrightarrow> redox_run eng c'"

section \<open>The invariant of runs\<close>

lemma map_sum_Inr_iff: "map_sum f g x = Inr y \<longleftrightarrow> (\<exists>z. x = Inr z \<and> y = g z)"
  by (cases x) auto

lemma bm_insert_twice: "bm_wf m \<Longrightarrow> bm_insert k v (bm_insert k v' m) = bm_insert k v m"
  by (rule bm_wf_ext) auto

lemma redox_start_lineage:
  assumes call: "redox_start eng disk w0 = (Inr store, w1)"
    and "0 < next_page_version w0" "next_file_object_id w0 + 1 < u64_bound" "disk_owned disk \<subseteq> {..<w_next_inode w0}"
  shows "rb.lineage_ok [store] w1"
proof -
  obtain fs disk' w' where run: "run_prog (eng_create eng) (disk, w0) = (Inr fs, (disk', w'))"
    and store: "store = \<lparr>rb_fs = fs, rb_disk = disk', rb_identities =
      identity_new\<lparr>ib_files := bm_insert (eng_root eng) (next_file_object_id w') []\<rparr>\<rparr>"
    "w1 = w'\<lparr>next_file_object_id := u64_succ (next_file_object_id w')\<rparr>"
    using call by (auto simp: redox_start_def make_fs_def mbind_apply identity_create_file_def identity_new_def
        map_sum_Inr_iff split: prod.splits sum.splits)
  note S = still_run_prog [OF run]
  have files: "branch_file (rb_identities store) n = (if n = eng_root eng then Some (next_file_object_id w') else None)"
    and version: "branch_page_version (rb_identities store) k = None" for n k
    by (simp_all add: store(1) identity_new_def branch_file_def branch_page_version_def)
  have "redox_owned store \<subseteq> {..<w_next_inode w1}"
    using calm_owned [of disk_owned disk w0 disk' w'] S assms(4) by (simp add: store redox_owned_def)
  moreover have "next_file_object_id w1 = next_file_object_id w' + 1" "0 < next_page_version w1"
    using S assms(2,3) by (simp_all add: store(2) calm_def u64_succ_small)
  ultimately show ?thesis
    by (auto simp: rb.lineage_ok_def redox_ident_def branch_ident_def files version redox_issued_def split: if_splits)
qed

lemma durable_create_disk:
  assumes "cow_disk_durable directory len w = (Inr disk, w')"
  shows "host_quiet w w'" "disk_owned disk \<subseteq> {..<w_next_inode w'}"
proof -
  have "gentle (durable_create directory)"
    unfolding durable_create_def by (intro gentle_intros) (simp add: case_prod_beta gentle_intros)
  then have "gentle (cow_disk_durable directory len)" unfolding cow_disk_durable_def by (intro gentle_intros)
  from gentleD [OF this assms] show "host_quiet w w'" .
  obtain w1 i h w2 where c: "create_numbered_file directory ''overlay'' w1 = (Inr (i, h), w2)"
    "sync_directory directory w2 = (Inr (), w')" "disk_owned disk = {h}"
    using assms by (auto simp: cow_disk_durable_def durable_create_def mbind_apply disk_owned_def durable_owned_def
        split: prod.splits sum.splits)
  have "host_quiet w2 w'" by (rule gentleD [OF gentle_files(8) c(2)])
  then show "disk_owned disk \<subseteq> {..<w_next_inode w'}"
    using create_numbered_fresh [OF c(1)] c(3) by (simp add: host_quiet_def)
qed

text \<open>Creating a file gives the branch fresh identities for one node, and nothing else.\<close>

lemma create_file_inv:
  assumes inv: "rb.cache_inv live (cs, w)" and bound: "next_file_object_id w + 1 < u64_bound" "0 < next_page_version w"
    and call: "with_store_mut b (redox_create_file eng name len) (cs, w) = (r, (cs', w'))"
    and fresh: "\<forall>node br. r = Inr node \<longrightarrow> map_of (cs_branches cs) b = Some br \<longrightarrow> unused_node (rb_identities (cb_store br)) node"
  shows "rb.cache_inv live (cs', w')"
proof (cases "map_of (cs_branches cs) b")
  case None
  then show ?thesis using call inv by (simp add: with_store_mut_def on_store.simps)
next
  case (Some br)
  define f where "f = tx_then (tx_create_node eng (eng_root eng) name (MODE_FILE + 420)) (\<lambda>node.
      tx_then (tx_truncate_node eng node len) (\<lambda>_. tx_return (Inr node)))"
  have cf: "redox_create_file eng name len = mbind (on_fs eng f) (\<lambda>node.
      mbind (on_identities (identity_create_file node)) (\<lambda>_. ok node))"
    unfolding redox_create_file_def f_def ..
  obtain r1 s1 w1 where fs: "on_fs eng f (cb_store br, w) = (r1, (s1, w1))" by (metis prod.exhaust)
  note law = on_fs_law [OF fs]
  define cs1 where "cs1 = cs\<lparr>cs_branches := bm_insert b (br\<lparr>cb_store := s1\<rparr>) (cs_branches cs)\<rparr>"
  have inv1: "rb.cache_inv live (cs1, w1)" unfolding cs1_def using law by (intro rb.inv_store_call [OF inv Some]) auto
  show ?thesis
  proof (cases r1)
    case (Inl e)
    then have "cs' = cs1" "w' = w1" using call Some fs
      by (simp_all add: with_store_mut_def on_store.simps cf mbind_apply cs1_def)
    then show ?thesis using inv1 by simp
  next
    case (Inr node)
    define s2 where "s2 = s1\<lparr>rb_identities := rb_identities s1\<lparr>ib_files :=
      bm_insert node (next_file_object_id w1) (ib_files (rb_identities s1))\<rparr>\<rparr>"
    define w2 where "w2 = w1\<lparr>next_file_object_id := next_file_object_id w1 + 1\<rparr>"
    have ids: "rb_identities s1 = rb_identities (cb_store br)" by (rule on_fs_identities [OF fs])
    have w1: "next_file_object_id w1 = next_file_object_id w" using law by (simp add: calm_def)
    have res: "r = Inr node" "cs' = cs1\<lparr>cs_branches := bm_insert b ((br\<lparr>cb_store := s1\<rparr>)\<lparr>cb_store := s2\<rparr>) (cs_branches cs1)\<rparr>"
      "w' = w2"
      using call Some fs Inr bound(1) w1
      by (simp_all add: with_store_mut_def on_store.simps cf mbind_apply cs1_def
          on_identities_def on_part_apply identity_create_file_def s2_def w2_def u64_succ_small
          bm_insert_twice rb.cache_invD(7) [OF inv])
    have none: "branch_file (rb_identities s1) node = None" "\<forall>p. branch_page_version (rb_identities s1) (node, p) = None"
      using fresh res(1) Some ids by (simp_all add: unused_node_def)
    have "0 < next_page_version w1" using law bound(2) by simp
    then have "rb.new_file s1 w1 node (\<lambda>p. RedoxPageIdentity (next_file_object_id w1) p 0) s2 w2"
      using none unfolding rb.new_file_def
      by (auto simp: s2_def w2_def redox_ident_def branch_ident_def redox_issued_def redox_owned_def fun_eq_iff inj_def)
    then show ?thesis
      unfolding res(3) by (intro rb.new_file_inv [OF inv1 _ _ res(2)]) (simp_all add: cs1_def)
  qed
qed


lemma quiet_on_fs: "rb.quiet (on_fs eng f)"
  by (rule rb.quietI) (rule on_fs_law)

lemma quiet_store_calls:
  "rb.quiet (redox_len eng n)" "rb.quiet (redox_read eng n offset len)" "rb.quiet (redox_metadata eng n)"
  "rb.quiet (redox_lookup eng n name)" "rb.quiet (redox_entries eng n)"
  unfolding redox_len_def redox_read_def redox_metadata_def redox_lookup_def redox_entries_def by (rule quiet_on_fs)+

lemma quiet_durable_state: "rb.quiet (redox_durable_state eng)"
proof (rule rb.quietI)
  fix b w r b' w' assume "redox_durable_state eng (b, w) = (r, (b', w'))"
  then obtain r1 d where d: "cow_disk_durable_state (rb_disk b, w) = (r1, (d, w'))" "b' = b\<lparr>rb_disk := d\<rparr>"
    by (auto simp: redox_durable_state_def on_disk_def mbind_apply on_part_apply split: prod.splits sum.splits)
  from stillD [OF still_disk_state d(1)]
  show "redox_ident b' = redox_ident b \<and> calm redox_owned b w b' w' \<and> next_page_version w' = next_page_version w"
    by (simp add: d(2) redox_ident_def calm_def redox_owned_def)
qed

lemma steady_call:
  assumes "rb.cache_inv live (cs, w)" "m (cs, w) = (r, (cs', w'))"
    "\<And>cid n v. keeps (rb.steady live cid n v) m"
  shows "rb.cache_inv live (cs', w')"
  using keepsD [OF assms(3) assms(2) rb.steadyI [OF assms(1)]] by (simp add: rb.steady_def)

lemma store_call_inv:
  assumes "rb.cache_inv live (cs, w)" "with_store_mut b m (cs, w) = (r, (cs', w'))" "rb.quiet m"
  shows "rb.cache_inv live (cs', w')"
  using rb.on_store_quiet(1) [OF assms(1,3)] assms(2) by (simp add: with_store_mut_def)

lemma guest_store_inv:
  assumes "rb.cache_inv live (cs, w)" "std_write_all_at h buf off w = (r, w')"
  shows "rb.cache_inv live (cs, w')"
  using rb.harmless_write [of h buf off] assms(2) by (auto simp: rb.harmless_def intro: rb.inv_world [OF assms(1)])

lemma map_step_inv:
  assumes "rb.cache_inv live (cs, w)" "room 1 w" "map_page (redox_store eng) b n off fl (cs, w) = (r, (cs', w'))"
  shows "rb.cache_inv (case r of Inl _ \<Rightarrow> live | Inr m \<Rightarrow> m # live) (cs', w')"
  using rb.map_page_inv [OF assms] by (auto simp: rb.mapped_def split: sum.splits)

lemma unmap_step_inv:
  assumes "rb.cache_inv live (cs, w)" "m \<in> set live" "unmap (dm_branch m) m (cs, w) = (r, (cs', w'))"
  shows "rb.cache_inv (remove1 m live) (cs', w')"
  by (rule rb.unmap_inv [OF assms(1,2)]) (use assms(3) in simp)

lemmas step_invs = map_step_inv unmap_step_inv guest_store_inv create_file_inv
  steady_call [OF _ _ rb.keeps_cache_open] steady_call [OF _ _ rb.keeps_cache_close]
  steady_call [OF _ _ rb.keeps_cache_sync(1)] steady_call [OF _ _ rb.keeps_cache_sync(2)]
  steady_call [OF _ _ rb.keeps_page_accounting]
  conjunct1 [OF rb.cache_fork_inv] conjunct1 [OF rb.remove_branch_inv]
  conjunct1 [OF rb.cache_read_inv] conjunct1 [OF rb.cache_write_inv]
  store_call_inv [OF _ _ quiet_store_calls(1)] store_call_inv [OF _ _ quiet_store_calls(2)]
  store_call_inv [OF _ _ quiet_store_calls(3)] store_call_inv [OF _ _ quiet_store_calls(4)]
  store_call_inv [OF _ _ quiet_store_calls(5)] store_call_inv [OF _ _ quiet_durable_state]

lemma cache_step_inv:
  assumes "cache_step eng (cs, w, live) (cs', w', live')" "rb.cache_inv live (cs, w)"
  shows "rb.cache_inv live' (cs', w')"
  using assms(1) by cases (auto simp del: One_nat_def intro: step_invs [OF assms(2)])

lemma redox_run_inv: "redox_run eng (cs, w, live) \<Longrightarrow> rb.cache_inv live (cs, w)"
proof (induction "(cs, w, live)" arbitrary: cs w live rule: redox_run.induct)
  case (start len w0 store w1 cs b w2)
  then have "rb.lineage_ok [store] w1"
    by (intro redox_start_lineage [of eng "cow_disk_new len" w0]) (simp_all add: redox_create_def disk_owned_def cow_disk_new_def)
  then show ?case using start(4) by (rule rb.cache_new_inv)
next
  case (start_durable directory len w0 store w1 cs b w2)
  obtain disk w' where d: "cow_disk_durable directory len w0 = (Inr disk, w')" "redox_start eng disk w' = (Inr store, w1)"
    using start_durable(1) by (auto simp: redox_create_durable_def mbind_apply split: prod.splits sum.splits)
  note D = durable_create_disk [OF d(1)]
  have "rb.lineage_ok [store] w1"
    using start_durable(2,3) D by (intro redox_start_lineage [OF d(2)]) (simp_all add: host_quiet_def)
  then show ?case using start_durable(4) by (rule rb.cache_new_inv)
next
  case (step c)
  obtain cs0 w0 live0 where "c = (cs0, w0, live0)" by (cases c)
  then show ?case using step cache_step_inv by blast
qed

end
