(* ===== verification/TinyRun.thy ===== *)
theory TinyRun
  imports RedoxCache
begin

text \<open>
  A run of the cache at concrete inputs, for the witnesses: an engine whose files are empty and of
  one page, one branch, one file, opened and mapped for writing on a host without faults.
\<close>

definition tiny_engine :: "(unit, unit) redox_engine" where
  "tiny_engine = \<lparr>eng_create = Finished (Inr ()), eng_open = (\<lambda>_. Finished (Inr ())), eng_block = (\<lambda>_. 0), eng_root = 1,
     tx_new = (\<lambda>_. ()), tx_commit = (\<lambda>_. Finished (Inr (), ())), tx_drop = (\<lambda>_. ()),
     tx_create_node = (\<lambda>_ _ _ t. Finished (Inr 2, t)), tx_truncate_node = (\<lambda>_ _ t. Finished (Inr (), t)),
     tx_read_node = (\<lambda>_ _ _ t. Finished (Inr [], t)), tx_write_node = (\<lambda>_ _ buf t. Finished (Inr (length buf), t)),
     tx_read_tree = (\<lambda>n t. Finished (Inr (n, \<lparr>nd_size = PAGE_SIZE, nd_blocks = 1, nd_mode = MODE_FILE, nd_links = 1,
       nd_uid = 0, nd_gid = 0, nd_atime = (0, 0), nd_mtime = (0, 0), nd_ctime = (0, 0)\<rparr>), t)),
     tx_find_node = (\<lambda>_ _ t. Finished (Inr 2, t)), tx_child_nodes = (\<lambda>_ t. Finished (Inr [(2, Some ''a'')], t)),
     tx_on_open_node = (\<lambda>_ t. Finished (Inr (), t)), tx_on_close_node = (\<lambda>_ t. Finished (Inr (), t))\<rparr>"


definition tiny_branch :: "(node_id, nat) bmap \<Rightarrow> (node_id, nat) bmap \<Rightarrow> unit redox_branch cache_branch" where
  "tiny_branch files opened = \<lparr>cb_store = \<lparr>rb_fs = (), rb_disk = cow_disk_new 65536,
       rb_identities = \<lparr>ib_base = default_generation, ib_files = files, ib_pages = []\<rparr>\<rparr>,
     cb_open_nodes = opened, cb_active_pages = [], cb_exclusive_pages = {}, cb_dirty_pages = dirty_new\<rparr>"

definition tiny_cache :: "(node_id, nat) bmap \<Rightarrow> (node_id, nat) bmap \<Rightarrow> unit redox_cache" where
  "tiny_cache files opened = \<lparr>cs_id = 1, cs_next_branch = 2,
     cs_branches = [(CacheBranchId 1, tiny_branch files opened)], cs_pages = [], cs_known_pages = []\<rparr>"

definition tiny_world :: "nat \<Rightarrow> world" where
  "tiny_world n = empty_world\<lparr>next_cache_id := 2, next_file_object_id := n\<rparr>"

lemma tiny_calls:
  "on_fs tiny_engine (tx_create_node tiny_engine p name m) (b, w) = (Inr 2, (b, w))"
  "on_fs tiny_engine (tx_read_node tiny_engine n off len) (b, w) = (Inr [], (b, w))"
  "on_fs tiny_engine (tx_on_open_node tiny_engine n) (b, w) = (Inr (), (b, w))"
  "redox_len tiny_engine n (b, w) = (Inr PAGE_SIZE, (b, w))"
  by (simp_all add: on_fs_def fs_tx_def tiny_engine_def redox_len_def tx_then_def tx_return_def)

lemma tiny_start: "redox_run tiny_engine (tiny_cache [(1, 1)] [], tiny_world 2, [])"
proof (rule redox_run.start)
  let ?store = "cb_store (tiny_branch [(1, 1)] [])"
  show "redox_create tiny_engine 65536 empty_world = (Inr ?store, empty_world\<lparr>next_file_object_id := 2\<rparr>)"
    by (simp add: redox_create_def redox_start_def make_fs_def tiny_engine_def identity_create_file_def identity_new_def
        tiny_branch_def mbind_apply empty_world_def u64_succ_def u64_bound_def)
  show "cache_new ?store (empty_world\<lparr>next_file_object_id := 2\<rparr>) = ((tiny_cache [(1, 1)] [], CacheBranchId 1), tiny_world 2)"
    by (simp add: cache_new_def tiny_cache_def tiny_world_def tiny_branch_def fresh_branch_def empty_world_def
        u64_succ_def u64_bound_def Let_def)
qed (simp_all add: empty_world_def u64_bound_def)

lemma tiny_created: "redox_run tiny_engine (tiny_cache [(1, 1), (2, 2)] [], tiny_world 3, [])"
proof (rule redox_run.step [OF tiny_start], rule cache_step.create_file)
  show "with_store_mut (CacheBranchId 1) (redox_create_file tiny_engine ''a'' PAGE_SIZE) (tiny_cache [(1, 1)] [], tiny_world 2) =
      (Inr 2, (tiny_cache [(1, 1), (2, 2)] [], tiny_world 3))"
    by (simp add: with_store_mut_def on_store.simps tiny_cache_def tiny_branch_def redox_create_file_def on_fs_def fs_tx_def
        tiny_engine_def tx_then_def tx_return_def mbind_apply on_identities_def on_part_apply identity_create_file_def
        tiny_world_def empty_world_def u64_succ_def u64_bound_def)
qed (simp_all add: tiny_world_def empty_world_def u64_bound_def unused_node_def tiny_cache_def tiny_branch_def
  branch_file_def branch_page_version_def)

lemma tiny_opened: "redox_run tiny_engine (tiny_cache [(1, 1), (2, 2)] [(2, 1)], tiny_world 3, [])"
proof (rule redox_run.step [OF tiny_created], rule cache_step.open_node)
  show "cache_open (redox_store tiny_engine) (CacheBranchId 1) 2 (tiny_cache [(1, 1), (2, 2)] [], tiny_world 3) =
      (Inr (), (tiny_cache [(1, 1), (2, 2)] [(2, 1)], tiny_world 3))"
    by (simp add: cache_open_def update_branch_def put_branch_def mbind_apply tiny_cache_def tiny_branch_def Let_def
        redox_store_def redox_on_open_node_def tiny_calls on_store.simps checked_add_def u64_bound_def bm_or_insert_def)
qed



section \<open>Pages on a host without faults\<close>

lemma healthy_makes: "healthy w \<Longrightarrow> makes_page w w' r bytes \<Longrightarrow> healthy w'"
  by (simp add: makes_page_def healthy_def)

lemma healthy_page:
  assumes "healthy w"
  obtains p w' where "page_from_bytes bytes w = (Inr p, w')" "makes_page w w' (Inr p) bytes"
proof -
  obtain n where n: "host_call w = (Inr (Suc n), w\<lparr>w_tick := Suc (w_tick w)\<rparr>)" using healthy_host_call [OF assms(1)] by blast
  obtain w1 where t: "tempfile w = (Inr (w_next_inode w), w1)" "healthy w1"
    using n assms(1) by (auto simp: tempfile_def mbind_apply healthy_def)
  obtain k where k: "host_call w1 = (Inr (Suc k), w1\<lparr>w_tick := Suc (w_tick w1)\<rparr>)" using healthy_host_call [OF t(2)] by blast
  obtain w2 where s: "set_len (w_next_inode w) PAGE_SIZE w1 = (Inr (), w2)" "healthy w2"
    using k t(2) by (auto simp: set_len_def mbind_apply healthy_def)
  obtain w3 where wr: "write_all_at (w_next_inode w) bytes 0 w2 = (Inr (), w3)"
    using healthy_write_full [OF s(2)] unfolding write_all_at_def by blast
  obtain p w' where "page_from_bytes bytes w = (Inr p, w')"
    using t(1) s(1) wr by (simp add: page_from_bytes_def mbind_apply)
  then show ?thesis using that page_from_bytes_makes by blast
qed

lemma healthy_duplicate:
  assumes "healthy w" "length (file_data w (cp_backing page)) = PAGE_SIZE"
  obtains p w' where "page_duplicate page w = (Inr p, w')" "makes_page w w' (Inr p) (file_data w (cp_backing page))"
proof -
  have "\<exists>bs w1. read_exact_at (cp_backing page) PAGE_SIZE 0 w = (Inr bs, w1)"
    unfolding read_exact_at_def using assms by (intro healthy_read_full) simp_all
  then obtain bs w1 where r: "read_exact_at (cp_backing page) PAGE_SIZE 0 w = (Inr bs, w1)" by blast
  have "same_but_tick w w1" using read_full_sound [OF r [unfolded read_exact_at_def]] by auto
  then have "healthy w1" using assms(1) by (auto simp: healthy_def dest: same_but_tickD(4))
  then obtain p w' where "page_from_bytes bs w1 = (Inr p, w')" by (rule healthy_page)
  then have "page_duplicate page w = (Inr p, w')" using r by (simp add: page_duplicate_def mbind_apply)
  then show ?thesis using that page_duplicate_makes by blast
qed

section \<open>The mapping\<close>

abbreviation (input) tiny_open :: "unit redox_cache" where
  "tiny_open \<equiv> tiny_cache [(1, 1), (2, 2)] [(2, 1)]"

definition tiny_held :: "(nat, nat) bmap \<Rightarrow> dirty_branch \<Rightarrow> unit redox_cache" where
  "tiny_held active dirty = \<lparr>cs_id = 1, cs_next_branch = 2, cs_branches = [(CacheBranchId 1,
       \<lparr>cb_store = \<lparr>rb_fs = (), rb_disk = cow_disk_new 65536,
          rb_identities = \<lparr>ib_base = default_generation, ib_files = [(1, 1), (2, 2)], ib_pages = [((2, 0), 1)]\<rparr>\<rparr>,
        cb_open_nodes = [(2, 1)], cb_active_pages = active, cb_exclusive_pages = {(2, 0)}, cb_dirty_pages = dirty\<rparr>)],
     cs_pages = [(RedoxPageIdentity 2 0 1, \<lparr>cp_id = 2, cp_backing = 1\<rparr>)], cs_known_pages = [(2, 0)]\<rparr>"

definition tiny_mapping :: "map_flags \<Rightarrow> dax_page_mapping" where
  "tiny_mapping fl = \<lparr>dm_cache_id = 1, dm_branch = CacheBranchId 1, dm_key = (2, 0), dm_flags = fl,
     dm_page = \<lparr>cp_id = 2, cp_backing = 1\<rparr>\<rparr>"

lemma tiny_load:
  obtains w where "load_page (redox_store tiny_engine) (CacheBranchId 1) (RedoxPageIdentity 2 0 0) 2 0
      (tiny_open, tiny_world 3) = (Inr \<lparr>cp_id = 1, cp_backing = 0\<rparr>,
        (tiny_open\<lparr>cs_pages := [(RedoxPageIdentity 2 0 0, \<lparr>cp_id = 1, cp_backing = 0\<rparr>)]\<rparr>, w))"
    "healthy w" "file_data w 0 = replicate PAGE_SIZE 0" "next_page_version w = 1" "next_cache_page_id w = 2" "w_next_inode w = 1"
proof -
  have h: "healthy (tiny_world 3)" using empty_world_healthy by (simp add: tiny_world_def healthy_def)
  then obtain p w where m: "page_from_bytes (resize PAGE_SIZE []) (tiny_world 3) = (Inr p, w)"
    "makes_page (tiny_world 3) w (Inr p) (resize PAGE_SIZE [])" by (rule healthy_page)
  then have "p = \<lparr>cp_id = 1, cp_backing = 0\<rparr>" "file_data w 0 = replicate PAGE_SIZE 0" "next_page_version w = 1"
    "next_cache_page_id w = 2" "w_next_inode w = 1"
    by (auto simp: makes_page_def tiny_world_def empty_world_def u64_succ_def u64_bound_def resize_def)
  then show ?thesis
    using m(1) healthy_makes [OF h m(2)]
    by (intro that [of w]) (simp_all add: load_page_def mbind_apply tiny_cache_def on_store.simps redox_store_def
        redox_read_node_def tiny_calls map_err_def on_world_apply)
qed

lemma tiny_mapped:
  obtains w where "map_page (redox_store tiny_engine) (CacheBranchId 1) 2 0 (READ OR WRITE) (tiny_open, tiny_world 3) =
      (Inr (tiny_mapping (READ OR WRITE)), (tiny_held [(2, 1)] dirty_new, w))"
    "healthy w" "length (file_data w 1) = PAGE_SIZE" "next_page_version w = 2" "next_cache_page_id w = 3"
proof -
  let ?p = "\<lparr>cp_id = 1, cp_backing = 0\<rparr>"
  obtain w where ld: "load_page (redox_store tiny_engine) (CacheBranchId 1) (RedoxPageIdentity 2 0 0) 2 0
      (tiny_open, tiny_world 3) = (Inr ?p, (tiny_open\<lparr>cs_pages := [(RedoxPageIdentity 2 0 0, ?p)]\<rparr>, w))"
    "healthy w" "file_data w 0 = replicate PAGE_SIZE 0" "next_page_version w = 1" "next_cache_page_id w = 2" "w_next_inode w = 1"
    by (rule tiny_load)
  have "length (file_data w (cp_backing ?p)) = PAGE_SIZE" using ld(3) by simp
  from healthy_duplicate [OF ld(2) this] obtain q w' where dup: "page_duplicate ?p w = (Inr q, w')"
    "makes_page w w' (Inr q) (file_data w 0)" by (metis cache_page.select_convs(2))
  then have q: "q = \<lparr>cp_id = 2, cp_backing = 1\<rparr>" "next_page_version w' = 1" "next_cache_page_id w' = 3"
    "length (file_data w' 1) = PAGE_SIZE" "healthy w'"
    using healthy_makes [OF ld(2) dup(2)] ld(3-6) by (auto simp: makes_page_def u64_succ_def u64_bound_def)
  have sel: "fs_page_identity (redox_store tiny_engine) = redox_page_identity_of"
    "fs_prepare_page_write (redox_store tiny_engine) = redox_prepare_page_write" by (simp_all add: redox_store_def)
  have fl: "flags_intersect (READ OR WRITE) (READ OR WRITE)" "flags_contain (READ OR WRITE) WRITE"
    by (simp_all add: flags_intersect_def flags_contain_def READ_def WRITE_def)
  have "map_page (redox_store tiny_engine) (CacheBranchId 1) 2 0 (READ OR WRITE) (tiny_open, tiny_world 3) =
      (Inr (tiny_mapping (READ OR WRITE)), (tiny_held [(2, 1)] dirty_new, w'\<lparr>next_page_version := 2\<rparr>))"
    by (simp add: map_page_def mbind_apply fl map_page_loaded_def tiny_cache_def tiny_branch_def bm_count_def
        ld(1) [unfolded tiny_cache_def tiny_branch_def, simplified] map_page_copy_def map_err_apply on_world_apply
        dup(1) [simplified] q(1,2) mattempt_apply less_redox_page_identity_def bm_incr_def tiny_held_def tiny_mapping_def
        on_store.simps sel redox_prepare_page_write_def identity_prepare_page_write_def redox_page_identity_of_def
        bump_page_def on_identities_def on_part_apply identity_page_identity_def branch_file_def branch_page_version_def
        map_page_hold_def update_branch_def put_branch_def Let_def u64_succ_def u64_bound_def insort_insert_key_def bm_remove_def)
  from that [OF this] show ?thesis using q by (simp add: healthy_def file_data_def)
qed

lemma tiny_holds:
  obtains w where "redox_run tiny_engine (tiny_held [(2, 1)] dirty_new, w, [tiny_mapping (READ OR WRITE)])"
    "healthy w" "length (file_data w 1) = PAGE_SIZE" "next_page_version w = 2" "next_cache_page_id w = 3"
proof -
  obtain w where m: "map_page (redox_store tiny_engine) (CacheBranchId 1) 2 0 (READ OR WRITE) (tiny_open, tiny_world 3) =
      (Inr (tiny_mapping (READ OR WRITE)), (tiny_held [(2, 1)] dirty_new, w))"
    "healthy w" "length (file_data w 1) = PAGE_SIZE" "next_page_version w = 2" "next_cache_page_id w = 3" by (rule tiny_mapped)
  have "room 1 (tiny_world 3)" by (simp add: room_def tiny_world_def empty_world_def u64_bound_def)
  from redox_run.step [OF tiny_opened cache_step.map_page [OF this m(1)]] show ?thesis using m(2-) by (intro that) simp_all
qed


section \<open>A write and a read\<close>

text \<open>The mapping released: the page is dirty.\<close>

abbreviation (input) tiny_dirty :: dirty_branch where
  "tiny_dirty \<equiv> mark_dirty (2, 0) dirty_new"

lemma tiny_unmap:
  "unmap (CacheBranchId 1) (tiny_mapping (READ OR WRITE)) (tiny_held [(2, 1)] dirty_new, w) = (Inr (), (tiny_held [] tiny_dirty, w))"
  "unmap (CacheBranchId 1) (tiny_mapping READ) (tiny_held [(2, 1)] d, w) = (Inr (), (tiny_held [] d, w))"
  by (simp_all add: unmap_def mbind_apply tiny_mapping_def tiny_held_def update_branch_def put_branch_def checked_sub_def
      bm_remove_def Let_def flags_contain_def READ_def WRITE_def)

lemma tiny_wrote:
  obtains w where "cache_write (redox_store tiny_engine) (CacheBranchId 1) 2 0 [7] (tiny_open, tiny_world 3) =
      (Inr 1, (tiny_held [] tiny_dirty, w))"
    "healthy w" "length (file_data w 1) = PAGE_SIZE" "next_page_version w = 2" "next_cache_page_id w = 3"
proof -
  obtain w where m: "map_page (redox_store tiny_engine) (CacheBranchId 1) 2 0 (READ OR WRITE) (tiny_open, tiny_world 3) =
      (Inr (tiny_mapping (READ OR WRITE)), (tiny_held [(2, 1)] dirty_new, w))"
    "healthy w" "length (file_data w 1) = PAGE_SIZE" "next_page_version w = 2" "next_cache_page_id w = 3" by (rule tiny_mapped)
  obtain w' where wr: "std_write_all_at 1 [7] 0 w = (Inr (), w')"
    using healthy_write_full [OF m(2)] unfolding std_write_all_at_def by blast
  note W = write_full_ok [OF wr [unfolded std_write_all_at_def]]
  have len: "on_store (CacheBranchId 1) (ns_len (redox_store tiny_engine) 2) (tiny_open, tiny_world 3) =
      (Inr PAGE_SIZE, (tiny_open, tiny_world 3))"
    by (simp add: on_store.simps tiny_cache_def redox_store_def tiny_calls)
  have "cache_write (redox_store tiny_engine) (CacheBranchId 1) 2 0 [7] (tiny_open, tiny_world 3) =
      (Inr 1, (tiny_held [] tiny_dirty, w'))"
    using m(1) wr tiny_unmap(1) [of w'] len
    by (simp add: cache_write_def mbind_apply checked_add_def u64_bound_def with_store_mut_def cache_write_loop.simps
        map_err_apply on_world_apply bslice_def tiny_mapping_def)
  moreover have "length (file_data w' 1) = PAGE_SIZE" using wroteD(6) [OF W] m(3) by simp
  ultimately show ?thesis
    using that wroteD(3,8,9) [OF W] m(2,4,5) by (simp add: healthy_def)
qed

lemma tiny_map_read:
  "map_page (redox_store tiny_engine) (CacheBranchId 1) 2 0 READ (tiny_held [] d, w) =
      (Inr (tiny_mapping READ), (tiny_held [(2, 1)] d, w))"
proof -
  have sel: "fs_page_identity (redox_store tiny_engine) = redox_page_identity_of" by (simp add: redox_store_def)
  show ?thesis
    by (simp add: map_page_def mbind_apply map_page_loaded_def tiny_held_def tiny_mapping_def bm_count_def load_page_def
        bm_incr_def on_store.simps sel redox_page_identity_of_def identity_page_identity_def branch_file_def
        branch_page_version_def map_page_hold_def update_branch_def put_branch_def Let_def insort_insert_key_def
        flags_contain_def flags_intersect_def READ_def WRITE_def)
qed

lemma tiny_read:
  assumes "healthy w" "length (file_data w 1) = PAGE_SIZE"
  obtains bs w' where "cache_read (redox_store tiny_engine) (CacheBranchId 1) 2 0 1 (tiny_held [] d, w) = (Inr bs, (tiny_held [] d, w'))"
    "length bs = 1"
proof -
  obtain bs w' where rd: "std_read_exact_at 1 1 0 w = (Inr bs, w')"
    using healthy_read_full [OF assms(1), of 0 1 1] assms(2) unfolding std_read_exact_at_def by fastforce
  have len: "on_store (CacheBranchId 1) (ns_len (redox_store tiny_engine) 2) (tiny_held [] d, w) = (Inr PAGE_SIZE, (tiny_held [] d, w))"
    by (simp add: on_store.simps tiny_held_def redox_store_def tiny_calls)
  have "cache_read (redox_store tiny_engine) (CacheBranchId 1) 2 0 1 (tiny_held [] d, w) = (Inr bs, (tiny_held [] d, w'))"
    using tiny_map_read [of d w] rd len tiny_unmap(2) [of d w']
    by (simp add: cache_read_def mbind_apply checked_add_def u64_bound_def with_store_mut_def cache_read_loop.simps
        map_err_apply on_world_apply tiny_mapping_def)
  moreover have "length bs = 1" using read_full_sound [OF rd [unfolded std_read_exact_at_def]] by auto
  ultimately show ?thesis by (rule that)
qed

end
