(* ===== verification/CacheGuarantees.thy ===== *)
theory CacheGuarantees
  imports TinyRun
begin

text \<open>
  What clients of the shared page cache rely on, in every state that a run of the cache over
  RedoxFS branches reaches: branches are isolated, forks share bytes and diverge, reads return
  what was written, and refused calls change nothing.
\<close>

section \<open>Bytes of a branch\<close>





section \<open>Isolation\<close>

text \<open>
  C2. A store of the guest through a write mapping that it holds changes the bytes of that page of
  that branch only: every other page, and every page of every other branch, shows the same bytes
  as before, also when the store is cut short by a host fault.
\<close>

theorem guest_store_isolated:
  assumes "redox_run eng (cs, w, live)" "m \<in> set live" "flags_contain (dm_flags m) WRITE"
    and "std_write_all_at (cp_backing (dm_page m)) buf off w = (r, w')"
    and "d \<noteq> dm_branch m \<or> node \<noteq> fst (dm_key m) \<or> offset div PAGE_SIZE \<noteq> snd (dm_key m) div PAGE_SIZE"
  shows "branch_bytes cs w' d node offset = branch_bytes cs w d node offset"
proof -
  obtain k where "wrote w w' (cp_backing (dm_page m)) off (take k buf)"
    using write_full_sound [OF assms(4) [unfolded transfer_defs]] by blast
  then show ?thesis
    unfolding branch_bytes_view using redox_run_inv [OF assms(1)] assms(2,3,5)
    by (intro rb.store_isolated [of live cs w m]) (auto simp: rb.same_page_def dest: wroteD(4))
qed



text \<open>
  C8. Removing a branch changes no page that another branch shows, for every page that was ever
  mapped.
\<close>

theorem remove_branch_keeps_others:
  assumes "redox_run eng (cs, w, live)" "remove_branch (redox_store eng) b (cs, w) = (Inr (), (cs', w'))"
    and "d \<noteq> b" "(node, offset) \<in> set (cs_known_pages cs)"
  shows "branch_bytes cs' w' d node offset = branch_bytes cs w d node offset"
  using rb.remove_branch_views [OF redox_run_inv [OF assms(1)] assms(2-4)] by (simp add: branch_bytes_view)


section \<open>Reads and writes\<close>



section \<open>Refused calls\<close>

text \<open>
  C9. While a client holds a mapping of a branch, the branch can be neither forked nor removed: both
  calls return \<^verbatim>\<open>ActiveMappings\<close> and change nothing.
\<close>

theorem held_branch_refuses:
  assumes "redox_run eng (cs, w, live)" "m \<in> set live"
  shows "cache_fork (redox_store eng) (dm_branch m) (cs, w) = (Inl ActiveMappings, (cs, w)) \<and>
    remove_branch (redox_store eng) (dm_branch m) (cs, w) = (Inl ActiveMappings, (cs, w))"
proof -
  note D = rb.cache_invD [OF redox_run_inv [OF assms(1)]]
  have "rb.mapping_ok cs m" using D(6) assms(2) by (simp add: rb.live_ok_def)
  then obtain br where br: "map_of (cs_branches cs) (dm_branch m) = Some br" by (rule rb.mapping_okE)
  have "0 < rb.held live (dm_branch m) (cp_id (dm_page m))" using assms(2) by (auto simp: rb.held_def filter_empty_conv)
  then have "cb_active_pages br \<noteq> []" using rb.live_okD [OF D(6) br, of "cp_id (dm_page m)"] by (auto simp: bm_count_def)
  then show ?thesis using br by (simp add: cache_fork_def remove_branch_def mbind_apply)
qed

text \<open>C10. Releasing a mapping that a client holds never fails.\<close>

theorem held_mapping_unmaps:
  assumes "redox_run eng (cs, w, live)" "m \<in> set live"
  shows "\<exists>cs'. unmap (dm_branch m) m (cs, w) = (Inr (), (cs', w))"
  by (rule rb.unmap_inv [OF redox_run_inv [OF assms(1)] assms(2)]) blast



section \<open>A fault during a read\<close>

lemma map_page_hold_active:
  assumes "map_page_hold b key fl p (cs, w) = (Inr m, (cs', w'))"
  shows "\<exists>br. map_of (cs_branches cs') b = Some br \<and> cb_active_pages br \<noteq> []"
proof -
  have "bm_incr k xs \<noteq> []" for k :: nat and xs
    using fun_cong [OF map_of_bm_incr [of k xs], of k] by (metis fun_upd_same map_of.simps(1) option.distinct(1))
  then show ?thesis
    using assms by (auto simp: map_page_hold_def mbind_apply update_branch_def put_branch_def split: option.splits)
qed

lemma map_page_active:
  assumes "map_page st b n off fl s = (Inr m, (cs', w'))"
  shows "\<exists>br. map_of (cs_branches cs') b = Some br \<and> cb_active_pages br \<noteq> []"
proof -
  obtain p cs w where "map_page_hold b (n, off) fl p (cs, w) = (Inr m, (cs', w'))"
    using assms by (fastforce simp: map_page_def map_page_loaded_def Let_def mbind_Inr_iff split: if_splits)
  then show ?thesis by (rule map_page_hold_active)
qed

text \<open>
  C12. A host fault while a read copies bytes out of a mapped page leaves the mapping counted as in
  use: the read returns the error, its mapping is lost, and from then on the branch is refused both
  for forking and for removal, although no client holds a mapping.
\<close>

theorem read_fault_leaks_mapping:
  assumes "offset < end'"
    and "map_page st b n (offset div PAGE_SIZE * PAGE_SIZE) READ (cs, w) = (Inr m, (cs1, w1))"
    and "std_read_exact_at (cp_backing (dm_page m)) (page_chunk offset end') (offset mod PAGE_SIZE) w1 = (Inl e, w2)"
  shows "cache_read_loop st b n end' offset acc (cs, w) = (Inl (Io e), (cs1, w2)) \<and>
    cache_fork st b (cs1, w2) = (Inl ActiveMappings, (cs1, w2)) \<and>
    remove_branch st b (cs1, w2) = (Inl ActiveMappings, (cs1, w2))"
proof -
  obtain br where br: "map_of (cs_branches cs1) b = Some br" "cb_active_pages br \<noteq> []"
    using map_page_active [OF assms(2)] by blast
  have "cache_read_loop st b n end' offset acc (cs, w) = (Inl (Io e), (cs1, w2))"
    using assms by (simp add: cache_read_loop.simps [of st b n end' offset] Let_def minus_div_mult_eq_mod mbind_apply
        map_err_apply on_world_apply)
  then show ?thesis using br by (simp add: cache_fork_def remove_branch_def mbind_apply)
qed


section \<open>Witnesses\<close>

lemma tiny_after_write:
  obtains w where "redox_run tiny_engine (tiny_held [] tiny_dirty, w, [])" "healthy w" "length (file_data w 1) = PAGE_SIZE"
    "next_page_version w = 2" "next_cache_page_id w = 3"
    "cache_write (redox_store tiny_engine) (CacheBranchId 1) 2 0 [7] (tiny_open, tiny_world 3) = (Inr 1, (tiny_held [] tiny_dirty, w))"
proof -
  obtain w where m: "cache_write (redox_store tiny_engine) (CacheBranchId 1) 2 0 [7] (tiny_open, tiny_world 3) =
      (Inr 1, (tiny_held [] tiny_dirty, w))"
    "healthy w" "length (file_data w 1) = PAGE_SIZE" "next_page_version w = 2" "next_cache_page_id w = 3" by (rule tiny_wrote)
  have "room (pages_spanned 0 (0 + length [7 :: 8 word])) (tiny_world 3)"
    by (simp add: room_def tiny_world_def empty_world_def u64_bound_def pages_spanned_def)
  from redox_run.step [OF tiny_opened cache_step.write_bytes [OF this m(1)]] show ?thesis using m(2-) m(1) by (rule that)
qed


theorem guest_store_isolated_witness:
  "\<exists>w w'. redox_run tiny_engine (tiny_held [(2, 1)] dirty_new, w, [tiny_mapping (READ OR WRITE)]) \<and>
     std_write_all_at 1 [7] 0 w = (Inr (), w') \<and>
     branch_bytes (tiny_held [(2, 1)] dirty_new) w' (CacheBranchId 1) 1 0 =
       branch_bytes (tiny_held [(2, 1)] dirty_new) w (CacheBranchId 1) 1 0"
proof -
  obtain w where h: "redox_run tiny_engine (tiny_held [(2, 1)] dirty_new, w, [tiny_mapping (READ OR WRITE)])" "healthy w"
    by (rule tiny_holds)
  obtain w' where wr: "std_write_all_at 1 [7] 0 w = (Inr (), w')"
    using healthy_write_full [OF h(2)] unfolding std_write_all_at_def by blast
  have "branch_bytes (tiny_held [(2, 1)] dirty_new) w' (CacheBranchId 1) 1 0 =
      branch_bytes (tiny_held [(2, 1)] dirty_new) w (CacheBranchId 1) 1 0"
    by (rule guest_store_isolated [OF h(1), of "tiny_mapping (READ OR WRITE)"])
      (use wr in \<open>simp_all add: tiny_mapping_def rb.write_flags\<close>)
  then show ?thesis using h(1) wr by blast
qed


lemma tiny_fork:
  obtains cs where "cache_fork (redox_store tiny_engine) (CacheBranchId 1) (tiny_held [] tiny_dirty, w) = (Inr (CacheBranchId 2), (cs, w))"
    "\<exists>br. map_of (cs_branches cs) (CacheBranchId 1) = Some br \<and> cb_active_pages br = []" "cs_known_pages cs = [(2, 0)]"
proof -
  have "\<exists>cs. cache_fork (redox_store tiny_engine) (CacheBranchId 1) (tiny_held [] tiny_dirty, w) = (Inr (CacheBranchId 2), (cs, w)) \<and>
    (\<exists>br. map_of (cs_branches cs) (CacheBranchId 1) = Some br \<and> cb_active_pages br = []) \<and> cs_known_pages cs = [(2, 0)]"
    by (simp add: cache_fork_def mbind_apply tiny_held_def on_store.simps redox_store_def redox_fork_def on_disk_def on_part_apply
        cow_disk_fork_def cow_disk_new_def on_durable_def on_identities_def on_world_apply make_fs_def tiny_engine_def
        put_branch_def checked_add_def u64_bound_def split_beta less_cache_branch_id_def fresh_branch_def)
  then show ?thesis using that by blast
qed



theorem remove_branch_keeps_others_witness:
  "\<exists>cs w cs'. remove_branch (redox_store tiny_engine) (CacheBranchId 1) (cs, w) = (Inr (), (cs', w)) \<and>
     branch_bytes cs w (CacheBranchId 2) 2 0 \<noteq> None \<and>
     branch_bytes cs' w (CacheBranchId 2) 2 0 = branch_bytes cs w (CacheBranchId 2) 2 0"
proof -
  obtain w where r: "redox_run tiny_engine (tiny_held [] tiny_dirty, w, [])" by (rule tiny_after_write)
  obtain cs where f: "cache_fork (redox_store tiny_engine) (CacheBranchId 1) (tiny_held [] tiny_dirty, w) =
      (Inr (CacheBranchId 2), (cs, w))" "\<exists>br. map_of (cs_branches cs) (CacheBranchId 1) = Some br \<and> cb_active_pages br = []"
    "cs_known_pages cs = [(2, 0)]" by (rule tiny_fork)
  have run: "redox_run tiny_engine (cs, w, [])" by (rule redox_run.step [OF r cache_step.fork [OF f(1)]])
  note inv = redox_run_inv [OF run]
  have "bm_wf (cs_branches (cs\<lparr>cs_branches := bm_remove (CacheBranchId 1) (cs_branches cs)\<rparr>))"
    using rb.cache_invD(7) [OF inv] by simp
  note vis = rb.visible_identities_call [OF this]
  obtain cs' where rm: "remove_branch (redox_store tiny_engine) (CacheBranchId 1) (cs, w) = (Inr (), (cs', w))"
    using f(2) vis [of tiny_engine "cs_known_pages cs" "{}" w] by (auto simp: remove_branch_def mbind_apply)
  have "branch_bytes cs w (CacheBranchId 2) 2 0 = branch_bytes (tiny_held [] tiny_dirty) w (CacheBranchId 1) 2 0"
    using rb.cache_fork_views(2) [OF redox_run_inv [OF r] f(1), of "CacheBranchId 1" "CacheBranchId 2" "(2, 0)"]
    by (simp add: branch_bytes_view tiny_held_def)
  then have "branch_bytes cs w (CacheBranchId 2) 2 0 \<noteq> None"
    by (simp add: branch_bytes_def tiny_held_def redox_ident_def branch_ident_def branch_file_def branch_page_version_def)
  moreover have "branch_bytes cs' w (CacheBranchId 2) 2 0 = branch_bytes cs w (CacheBranchId 2) 2 0"
    by (rule remove_branch_keeps_others [OF run rm]) (simp_all add: f(3))
  ultimately show ?thesis using rm by blast
qed



theorem held_branch_refuses_witness:
  "\<exists>w. cache_fork (redox_store tiny_engine) (CacheBranchId 1) (tiny_held [(2, 1)] dirty_new, w) =
     (Inl ActiveMappings, (tiny_held [(2, 1)] dirty_new, w))"
proof -
  obtain w where "redox_run tiny_engine (tiny_held [(2, 1)] dirty_new, w, [tiny_mapping (READ OR WRITE)])" by (rule tiny_holds)
  from held_branch_refuses [OF this, of "tiny_mapping (READ OR WRITE)"] show ?thesis by (auto simp: tiny_mapping_def)
qed

theorem held_mapping_unmaps_witness:
  "\<exists>w cs. unmap (CacheBranchId 1) (tiny_mapping (READ OR WRITE)) (tiny_held [(2, 1)] dirty_new, w) = (Inr (), (cs, w))"
proof -
  obtain w where "redox_run tiny_engine (tiny_held [(2, 1)] dirty_new, w, [tiny_mapping (READ OR WRITE)])" by (rule tiny_holds)
  from held_mapping_unmaps [OF this, of "tiny_mapping (READ OR WRITE)"] show ?thesis by (auto simp: tiny_mapping_def)
qed


theorem read_fault_leaks_mapping_witness:
  "\<exists>cs w. cache_read_loop (redox_store tiny_engine) (CacheBranchId 1) 2 1 0 [] (tiny_held [] tiny_dirty, tiny_world 3) =
       (Inl (Io (IoError UnexpectedEof ''failed to fill whole buffer'')), (cs, w)) \<and>
     cache_fork (redox_store tiny_engine) (CacheBranchId 1) (cs, w) = (Inl ActiveMappings, (cs, w))"
proof -
  have rd: "std_read_exact_at 1 1 0 (tiny_world 3) =
      (Inl (IoError UnexpectedEof ''failed to fill whole buffer''), (tiny_world 3)\<lparr>w_tick := 1\<rparr>)"
    by (simp add: transfer_defs read_full.simps read_at_def mbind_apply host_call_def tiny_world_def empty_world_def
        file_data_def bslice_def)
  show ?thesis
    using read_fault_leaks_mapping [of 0 1 "redox_store tiny_engine" "CacheBranchId 1" 2 "tiny_held [] tiny_dirty" "tiny_world 3"]
      tiny_map_read [of tiny_dirty "tiny_world 3"] rd by (auto simp: tiny_mapping_def)
qed

end
