(* ===== verification/Spec2Isabelle.thy ===== *)
theory Spec2Isabelle
  imports ForkForest CacheGuarantees
begin

text \<open>
  minidox forks virtual machines copy-on-write.
\<close>

end
